(* ===== verification/Prelude.thy ===== *)
theory Prelude
  imports Main "HOL-Library.Word" "HOL-Library.List_Lexorder" "HOL-Library.Char_ord"
    "HOL-Library.Sublist" "HOL-Library.Multiset"
begin

text \<open>
  Shared vocabulary of the development.

  Byte strings (\<open>Vec<u8>\<close>, \<open>&[u8]\<close>) are lists of 8-bit words under the library's
  lexicographic list order, which is Rust's slice order: the first differing byte decides, a
  proper prefix is smaller.  A Rust \<open>&str\<close> is a HOL \<open>string\<close> read as its UTF-8 bytes, since a HOL
  \<open>char\<close> is eight bits wide.  \<open>Result<T, E>\<close> is \<open>'e + 'a\<close> with \<open>Inl\<close> the error, \<open>?\<close> is
  \<open>res_bind\<close>, and collecting an iterator of results is \<open>res_list\<close>.
\<close>

type_synonym u8 = "8 word"
type_synonym u16 = "16 word"
type_synonym u32 = "32 word"
type_synonym u64 = "64 word"
type_synonym bytes = "u8 list"

named_theorems res_simps \<open>how results propagate through binds\<close>

subsection \<open>Machine integers held as mathematical integers\<close>

text \<open>Signed and unsigned ranges, and the saturating arithmetic of Rust's integer types.\<close>

definition i16_min :: int where "i16_min = - 32768"
definition i16_max :: int where "i16_max = 32767"
definition i32_min :: int where "i32_min = - 2147483648"
definition i32_max :: int where "i32_max = 2147483647"
definition i64_min :: int where "i64_min = - 9223372036854775808"
definition i64_max :: int where "i64_max = 9223372036854775807"
definition u16_max :: nat where "u16_max = 65535"
definition u32_max :: nat where "u32_max = 4294967295"
definition u64_max :: nat where "u64_max = 18446744073709551615"

definition in_i16 :: "int \<Rightarrow> bool" where
  "in_i16 x \<longleftrightarrow> i16_min \<le> x \<and> x \<le> i16_max"

definition in_i32 :: "int \<Rightarrow> bool" where
  "in_i32 x \<longleftrightarrow> i32_min \<le> x \<and> x \<le> i32_max"

definition in_i64 :: "int \<Rightarrow> bool" where
  "in_i64 x \<longleftrightarrow> i64_min \<le> x \<and> x \<le> i64_max"

lemmas int_ranges = i16_min_def i16_max_def i32_min_def i32_max_def i64_min_def i64_max_def
  u16_max_def u32_max_def u64_max_def in_i16_def in_i32_def in_i64_def

definition sat_i32 :: "int \<Rightarrow> int" where
  "sat_i32 x = max i32_min (min i32_max x)"

definition sat_i64 :: "int \<Rightarrow> int" where
  "sat_i64 x = max i64_min (min i64_max x)"

lemma sat_i32_range: "in_i32 (sat_i32 x)"
  by (simp add: sat_i32_def int_ranges)

lemma sat_i64_range: "in_i64 (sat_i64 x)"
  by (simp add: sat_i64_def int_ranges)

lemma sat_i32_id: "in_i32 x \<Longrightarrow> sat_i32 x = x"
  by (simp add: sat_i32_def int_ranges)

lemma sat_i64_id: "in_i64 x \<Longrightarrow> sat_i64 x = x"
  by (simp add: sat_i64_def int_ranges)

subsection \<open>Results\<close>

fun res_bind :: "'e + 'a \<Rightarrow> ('a \<Rightarrow> 'e + 'b) \<Rightarrow> 'e + 'b" where
  "res_bind (Inl e) f = Inl e"
| "res_bind (Inr a) f = f a"

definition ok_or :: "'e \<Rightarrow> 'a option \<Rightarrow> 'e + 'a" where
  "ok_or e x = (case x of None \<Rightarrow> Inl e | Some a \<Rightarrow> Inr a)"

fun res_list :: "('a \<Rightarrow> 'e + 'b) \<Rightarrow> 'a list \<Rightarrow> 'e + 'b list" where
  "res_list f [] = Inr []"
| "res_list f (x # xs) = res_bind (f x) (\<lambda>y. res_bind (res_list f xs) (\<lambda>ys. Inr (y # ys)))"

lemma res_bind_Inr [res_simps]:
  "res_bind x f = Inr b \<longleftrightarrow> (\<exists>a. x = Inr a \<and> f a = Inr b)"
  by (cases x) auto

lemma res_bind_Inl [res_simps]:
  "res_bind x f = Inl e \<longleftrightarrow> x = Inl e \<or> (\<exists>a. x = Inr a \<and> f a = Inl e)"
  by (cases x) auto

lemma ok_or_Inr [res_simps]: "ok_or e x = Inr a \<longleftrightarrow> x = Some a"
  by (simp add: ok_or_def split: option.splits)

lemma ok_or_Inl [res_simps]: "ok_or e x = Inl d \<longleftrightarrow> x = None \<and> d = e"
  by (auto simp: ok_or_def split: option.splits)

lemma res_list_Inr_iff:
  "res_list f xs = Inr ys \<longleftrightarrow> list_all2 (\<lambda>x y. f x = Inr y) xs ys"
  by (induction xs arbitrary: ys) (auto simp: res_simps list_all2_Cons1)

lemma res_list_total:
  assumes "\<And>x. x \<in> set xs \<Longrightarrow> f x = Inr (g x)"
  shows "res_list f xs = Inr (map g xs)"
  using assms by (induction xs) auto

subsection \<open>White space and decimal digits of Rust strings\<close>

text \<open>
  \<open>str::trim\<close> removes the characters of the Unicode property \<open>White_Space\<close>; on the UTF-8 bytes these
  are the following byte sequences.
\<close>

definition white_space :: "string list" where
  "white_space =
     map (\<lambda>n. [char_of n]) [9, 10, 11, 12, 13, 32 :: nat]
     @ map (map char_of) [[0xC2, 0x85], [0xC2, 0xA0], [0xE1, 0x9A, 0x80 :: nat]]
     @ map (\<lambda>n. map char_of [0xE2, 0x80, n])
         ([0x80, 0x81, 0x82, 0x83, 0x84, 0x85, 0x86, 0x87, 0x88, 0x89, 0x8A] @ [0xA8, 0xA9, 0xAF :: nat])
     @ map (map char_of) [[0xE2, 0x81, 0x9F], [0xE3, 0x80, 0x80 :: nat]]"

function strip_front :: "string list \<Rightarrow> string \<Rightarrow> string" where
  "strip_front ws s = (case find (\<lambda>w. w \<noteq> [] \<and> prefix w s) ws of
      None \<Rightarrow> s
    | Some w \<Rightarrow> strip_front ws (drop (length w) s))"
  by auto
termination
  by (relation "measure (\<lambda>(ws, s). length s)") (auto simp: find_Some_iff prefix_def)

declare strip_front.simps [simp del]

definition trim :: "string \<Rightarrow> string" where
  "trim s = rev (strip_front (map rev white_space) (rev (strip_front white_space s)))"

text \<open>Printable ASCII is left alone by \<open>trim\<close>.\<close>

definition plain_char :: "char \<Rightarrow> bool" where
  "plain_char c \<longleftrightarrow> 33 \<le> (of_char c :: nat) \<and> (of_char c :: nat) < 127"

lemma white_space_not_plain:
  "w \<in> set white_space \<Longrightarrow> list_all (\<lambda>c. \<not> plain_char c) w \<and> w \<noteq> []"
  by (auto simp: white_space_def plain_char_def)

lemma strip_front_hd:
  assumes "s = [] \<or> plain_char (hd s)" "\<And>w. w \<in> set ws \<Longrightarrow> list_all (\<lambda>c. \<not> plain_char c) w"
  shows "strip_front ws s = s"
proof -
  have "\<not> prefix w s" if "w \<in> set ws" "w \<noteq> []" for w
    using assms(1) assms(2) [OF that(1)] that(2) by (cases w) (auto simp: prefix_def)
  then have "find (\<lambda>w. w \<noteq> [] \<and> prefix w s) ws = None"
    unfolding find_None_iff by blast
  then show ?thesis
    by (simp add: strip_front.simps)
qed

lemma strip_front_white_space:
  assumes "s = [] \<or> plain_char (hd s)"
  shows "strip_front white_space s = s" "strip_front (map rev white_space) s = s"
proof -
  have plain: "list_all (\<lambda>c. \<not> plain_char c) w" if "w \<in> set white_space" for w
    using white_space_not_plain [OF that] by simp
  show "strip_front white_space s = s"
    by (rule strip_front_hd [OF assms plain])
  show "strip_front (map rev white_space) s = s"
    by (rule strip_front_hd [OF assms]) (use plain in \<open>auto simp: list_all_iff\<close>)
qed

lemma trim_ends: "\<lbrakk>s \<noteq> []; plain_char (hd s); plain_char (last s)\<rbrakk> \<Longrightarrow> trim s = s"
  by (simp add: trim_def strip_front_white_space hd_rev)

lemma trim_plain:
  assumes "list_all plain_char s"
  shows "trim s = s"
proof (cases "s = []")
  case False
  then show ?thesis
    using assms by (intro trim_ends) (auto simp: list_all_iff)
qed (simp add: trim_def strip_front_white_space)

definition is_digit :: "char \<Rightarrow> bool" where
  "is_digit c \<longleftrightarrow> CHR ''0'' \<le> c \<and> c \<le> CHR ''9''"

definition byte_of :: "char \<Rightarrow> u8" where
  "byte_of c = of_nat (of_char c)"

definition utf8 :: "string \<Rightarrow> bytes" where
  "utf8 s = map byte_of s"

lemma byte_of_less_iff [simp]: "byte_of c < byte_of d \<longleftrightarrow> c < d"
  by (simp add: byte_of_def less_char_def word_less_nat_alt unat_of_nat take_bit_eq_mod)

lemma byte_of_eq_iff [simp]: "byte_of c = byte_of d \<longleftrightarrow> c = d"
  by (metis byte_of_less_iff linorder_neq_iff)

definition string_of_bytes :: "bytes \<Rightarrow> string" where
  "string_of_bytes bs = map (\<lambda>b. char_of (unat b)) bs"

lemma char_of_byte_of [simp]: "char_of (unat (byte_of c)) = c"
  by (simp add: byte_of_def unat_of_nat take_bit_eq_mod)

lemma byte_of_char_of [simp]: "byte_of (char_of (unat b)) = b"
proof -
  have "unat b mod 256 = unat b"
    using unsigned_less [of b, where 'a = nat] by simp
  then show ?thesis
    by (simp add: byte_of_def)
qed

lemma string_of_bytes_utf8 [simp]: "string_of_bytes (utf8 s) = s"
  by (simp add: string_of_bytes_def utf8_def comp_def)

lemma utf8_string_of_bytes [simp]: "utf8 (string_of_bytes bs) = bs"
  by (simp add: string_of_bytes_def utf8_def comp_def)

lemma utf8_less_iff [simp]: "utf8 s < utf8 t \<longleftrightarrow> s < t"
  unfolding utf8_def
proof (induction s arbitrary: t)
  case Nil
  then show ?case
    by (cases t) auto
next
  case (Cons c s)
  then show ?case
    by (cases t) auto
qed

lemma utf8_eq_iff [simp]: "utf8 s = utf8 t \<longleftrightarrow> s = t"
  by (simp add: utf8_def inj_map_eq_map inj_def)

subsection \<open>Big-endian integers\<close>

text \<open>\<open>to_be_bytes\<close> of an \<open>n\<close>-byte unsigned value, and its inverse \<open>from_be_bytes\<close>.\<close>

fun be_bytes :: "nat \<Rightarrow> nat \<Rightarrow> bytes" where
  "be_bytes 0 v = []"
| "be_bytes (Suc n) v = of_nat (v div 256 ^ n) # be_bytes n (v mod 256 ^ n)"

lemma be_bytes_numeral:
  "be_bytes (numeral k) v =
     of_nat (v div 256 ^ pred_numeral k) # be_bytes (pred_numeral k) (v mod 256 ^ pred_numeral k)"
  by (simp add: numeral_eq_Suc)

definition from_be :: "bytes \<Rightarrow> nat" where
  "from_be bs = foldl (\<lambda>a b. a * 256 + unat b) 0 bs"

lemma length_be_bytes [simp]: "length (be_bytes n v) = n"
  by (induction n arbitrary: v) auto

lemma from_be_foldl: "foldl (\<lambda>a b. a * 256 + unat b) a bs = a * 256 ^ length bs + from_be bs"
  by (induction bs rule: rev_induct) (simp_all add: from_be_def algebra_simps)

lemma from_be_Cons: "from_be (b # bs) = unat b * 256 ^ length bs + from_be bs"
  using from_be_foldl [of "unat b" bs] by (simp add: from_be_def)

lemma unat_of_nat_u8: "n < 256 \<Longrightarrow> unat (of_nat n :: u8) = n"
  by (simp add: unat_of_nat take_bit_eq_mod)

lemma top_byte_less: "v < 256 ^ Suc n \<Longrightarrow> v div 256 ^ n < (256 :: nat)"
  by (simp add: less_mult_imp_div_less)

lemma unat_top_byte:
  "v < 256 ^ Suc n \<Longrightarrow> unat (of_nat (v div 256 ^ n) :: u8) = v div 256 ^ n"
  using top_byte_less [of v n] by (simp add: unat_of_nat take_bit_eq_mod)

lemma from_be_be_bytes [simp]: "v < 256 ^ n \<Longrightarrow> from_be (be_bytes n v) = v"
proof (induction n arbitrary: v)
  case (Suc n)
  then show ?case
    using unat_top_byte [of v n] div_mult_mod_eq [of v "256 ^ n"]
    by (simp add: from_be_Cons del: of_nat_div power_Suc)
qed (simp add: from_be_def)

lemma from_be_less: "from_be bs < 256 ^ length bs"
proof (induction bs)
  case (Cons b bs)
  have "unat b \<le> 255"
    using unsigned_less [of b, where 'a = nat] by simp
  then have "unat b * 256 ^ length bs \<le> 255 * 256 ^ length bs"
    by (rule mult_le_mono1)
  moreover have "(256 :: nat) ^ length (b # bs) = 256 * 256 ^ length bs"
    by simp
  ultimately show ?case
    using Cons unfolding from_be_Cons by linarith
qed (simp add: from_be_def)

lemma be_bytes_from_be: "be_bytes (length bs) (from_be bs) = bs"
proof (induction bs)
  case (Cons b bs)
  then show ?case
    using from_be_less [of bs] by (simp add: from_be_Cons del: of_nat_add of_nat_mult of_nat_div)
qed simp

lemma digit_order:
  fixes a b p r s :: nat
  assumes "r < p" "s < p"
  shows "a * p + r < b * p + s \<longleftrightarrow> a < b \<or> a = b \<and> r < s"
  using assms mult_le_mono1 [of "Suc a" b p] mult_le_mono1 [of "Suc b" a p]
  by (cases a b rule: linorder_cases) auto

lemma be_bytes_less_iff:
  "\<lbrakk>v < 256 ^ n; w < 256 ^ n\<rbrakk> \<Longrightarrow> be_bytes n v < be_bytes n w \<longleftrightarrow> v < w"
proof (induction n arbitrary: v w)
  case (Suc n)
  let ?p = "256 ^ n :: nat"
  have pos: "0 < ?p"
    by simp
  have divmod: "v < w \<longleftrightarrow> v div ?p < w div ?p \<or> v div ?p = w div ?p \<and> v mod ?p < w mod ?p"
    using digit_order [of "v mod ?p" ?p "w mod ?p" "v div ?p" "w div ?p"]
    by (simp add: div_mult_mod_eq del: mult_le_cancel2)
  have eq: "(of_nat (v div ?p) :: u8) = of_nat (w div ?p) \<longleftrightarrow> v div ?p = w div ?p"
    using unat_top_byte [OF Suc.prems(1)] unat_top_byte [OF Suc.prems(2)] by metis
  have lt: "(of_nat (v div ?p) :: u8) < of_nat (w div ?p) \<longleftrightarrow> v div ?p < w div ?p"
    using unat_top_byte [OF Suc.prems(1)] unat_top_byte [OF Suc.prems(2)]
    by (simp only: word_less_nat_alt)
  show ?case
    using Suc.IH [of "v mod ?p" "w mod ?p"] pos
    by (simp add: eq lt divmod del: of_nat_div)
qed simp

subsection \<open>Decimal text of integers\<close>

text \<open>
  \<open>show_nat\<close> is the decimal text of an unsigned value (\<open>{}\<close> of \<open>format!\<close>), \<open>pad_nat\<close> the text
  zero-padded to a width (\<open>{:03}\<close>), \<open>show_int\<close> the text of a signed value.  \<open>parse_unsigned\<close> and
  \<open>parse_signed\<close> are \<open>str::parse\<close> at an unsigned type with the given maximum and at a signed type with
  the given range: an optional sign, then at least one digit and nothing else.
\<close>

definition digit_char :: "nat \<Rightarrow> char" where
  "digit_char d = char_of (d + 48)"

fun show_nat :: "nat \<Rightarrow> string" where
  "show_nat n = (if n < 10 then [digit_char n] else show_nat (n div 10) @ [digit_char (n mod 10)])"

declare show_nat.simps [simp del]

definition show_int :: "int \<Rightarrow> string" where
  "show_int i = (if i < 0 then CHR ''-'' # show_nat (nat (- i)) else show_nat (nat i))"

definition pad_nat :: "nat \<Rightarrow> nat \<Rightarrow> string" where
  "pad_nat w n = (let s = show_nat n in replicate (w - length s) CHR ''0'' @ s)"

definition digits_value :: "string \<Rightarrow> nat" where
  "digits_value s = foldl (\<lambda>a c. a * 10 + (of_char c - 48)) 0 s"

definition parse_digits :: "string \<Rightarrow> nat option" where
  "parse_digits s = (if s \<noteq> [] \<and> list_all is_digit s then Some (digits_value s) else None)"

definition parse_unsigned :: "nat \<Rightarrow> string \<Rightarrow> nat option" where
  "parse_unsigned hi s =
     (case parse_digits (if s \<noteq> [] \<and> hd s = CHR ''+'' then tl s else s) of
        None \<Rightarrow> None
      | Some n \<Rightarrow> if n \<le> hi then Some n else None)"

definition parse_signed :: "int \<Rightarrow> int \<Rightarrow> string \<Rightarrow> int option" where
  "parse_signed lo hi s =
     (case (if s \<noteq> [] \<and> hd s = CHR ''-'' then map_option (\<lambda>n. - int n) (parse_digits (tl s))
            else map_option int (parse_digits (if s \<noteq> [] \<and> hd s = CHR ''+'' then tl s else s))) of
        None \<Rightarrow> None
      | Some n \<Rightarrow> if lo \<le> n \<and> n \<le> hi then Some n else None)"

lemma is_digit_digit_char [simp]: "d < 10 \<Longrightarrow> is_digit (digit_char d)"
  by (simp add: is_digit_def digit_char_def less_eq_char_def)

lemma of_char_digit_char [simp]: "d < 10 \<Longrightarrow> of_char (digit_char d) = d + (48 :: nat)"
  by (simp add: digit_char_def)

lemma show_nat_digits: "list_all is_digit (show_nat n) \<and> show_nat n \<noteq> []"
proof (induction n rule: show_nat.induct)
  case (1 n)
  then show ?case
    by (subst (1 2) show_nat.simps) auto
qed

lemma show_nat_nonempty [simp]: "show_nat n \<noteq> []"
  using show_nat_digits by blast

lemma digits_value_show_nat [simp]: "digits_value (show_nat n) = n"
proof (induction n rule: show_nat.induct)
  case (1 n)
  then show ?case
    by (subst show_nat.simps) (auto simp: digits_value_def)
qed

lemma parse_digits_show_nat [simp]: "parse_digits (show_nat n) = Some n"
  using show_nat_digits [of n] by (simp add: parse_digits_def)

lemma hd_show_nat: "is_digit (hd (show_nat n))"
  using show_nat_digits [of n] by (cases "show_nat n") auto

lemma not_digit_signs [simp]: "\<not> is_digit CHR ''-''" "\<not> is_digit CHR ''+''" "\<not> is_digit CHR '':''"
  by (simp_all add: is_digit_def less_eq_char_def)

lemma parse_unsigned_show_nat: "n \<le> hi \<Longrightarrow> parse_unsigned hi (show_nat n) = Some n"
  using hd_show_nat [of n] by (auto simp: parse_unsigned_def)

lemma parse_signed_show_int: "\<lbrakk>lo \<le> i; i \<le> hi\<rbrakk> \<Longrightarrow> parse_signed lo hi (show_int i) = Some i"
  using hd_show_nat [of "nat i"] by (auto simp: parse_signed_def show_int_def)

lemma parse_signed_range: "parse_signed lo hi s = Some i \<Longrightarrow> lo \<le> i \<and> i \<le> hi"
  by (auto simp: parse_signed_def split: option.splits if_splits)

subsection \<open>Well-formed UTF-8\<close>

text \<open>The byte sequences \<open>String::from_utf8\<close> accepts (the Unicode table of well-formed sequences).\<close>

definition utf8_cont :: "u8 \<Rightarrow> bool" where
  "utf8_cont b \<longleftrightarrow> 0x80 \<le> b \<and> b \<le> 0xBF"

definition utf8_pair :: "u8 \<Rightarrow> u8 \<Rightarrow> bool" where
  "utf8_pair a b \<longleftrightarrow>
     (if a = 0xE0 then 0xA0 \<le> b \<and> b \<le> 0xBF
      else if a = 0xED then 0x80 \<le> b \<and> b \<le> 0x9F
      else if a = 0xF0 then 0x90 \<le> b \<and> b \<le> 0xBF
      else if a = 0xF4 then 0x80 \<le> b \<and> b \<le> 0x8F
      else utf8_cont b)"

function valid_utf8 :: "bytes \<Rightarrow> bool" where
  "valid_utf8 bs \<longleftrightarrow> (case bs of
      [] \<Rightarrow> True
    | a # r \<Rightarrow>
        if a < 0x80 then valid_utf8 r
        else if 0xC2 \<le> a \<and> a \<le> 0xDF then 1 \<le> length r \<and> utf8_cont (r ! 0) \<and> valid_utf8 (drop 1 r)
        else if 0xE0 \<le> a \<and> a \<le> 0xEF
          then 2 \<le> length r \<and> utf8_pair a (r ! 0) \<and> utf8_cont (r ! 1) \<and> valid_utf8 (drop 2 r)
        else if 0xF0 \<le> a \<and> a \<le> 0xF4
          then 3 \<le> length r \<and> utf8_pair a (r ! 0) \<and> utf8_cont (r ! 1) \<and> utf8_cont (r ! 2)
               \<and> valid_utf8 (drop 3 r)
        else False)"
  by auto
termination
  by (relation "measure length") auto

declare valid_utf8.simps [simp del]

end
