(* ===== verification/Sort_Key_Types.thy ===== *)
theory Sort_Key_Types
  imports Prelude
begin

text \<open>
  The Sort Key V1 types and values (\<open>koldstore-sortkey/src/types.rs\<close>): the allowlisted PostgreSQL
  types and their OIDs, the in-memory values, and the shift between the PostgreSQL epoch and the Unix
  epoch that Arrow and Parquet use.
\<close>

subsection \<open>Types\<close>

datatype SortKeyType =
    TBool | TInt2 | TInt4 | TInt8 | TDate | TTimestamp | TTimestamptz | TUuid | TText | TNumeric

definition from_type_oid :: "nat \<Rightarrow> SortKeyType option" where
  "from_type_oid oid =
     (if oid = 16 then Some TBool
      else if oid = 21 then Some TInt2
      else if oid = 23 then Some TInt4
      else if oid = 20 then Some TInt8
      else if oid = 1082 then Some TDate
      else if oid = 1114 then Some TTimestamp
      else if oid = 1184 then Some TTimestamptz
      else if oid = 2950 then Some TUuid
      else None)"

definition from_type_oid_for_bounds :: "nat \<Rightarrow> SortKeyType option" where
  "from_type_oid_for_bounds oid =
     (if oid = 25 then Some TText
      else if oid = 1700 then Some TNumeric
      else from_type_oid oid)"

fun is_order_preserving :: "SortKeyType \<Rightarrow> bool" where
  "is_order_preserving TText = False"
| "is_order_preserving _ = True"

fun is_order_column_type :: "SortKeyType \<Rightarrow> bool" where
  "is_order_column_type TText = False"
| "is_order_column_type TNumeric = False"
| "is_order_column_type _ = True"

fun type_oid :: "SortKeyType \<Rightarrow> nat" where
  "type_oid TBool = 16"
| "type_oid TInt2 = 21"
| "type_oid TInt4 = 23"
| "type_oid TInt8 = 20"
| "type_oid TDate = 1082"
| "type_oid TTimestamp = 1114"
| "type_oid TTimestamptz = 1184"
| "type_oid TUuid = 2950"
| "type_oid TText = 25"
| "type_oid TNumeric = 1700"

definition is_order_column_supported :: "SortKeyType \<Rightarrow> bool" where
  "is_order_column_supported ty = is_order_column_type ty"

subsection \<open>Values\<close>

text \<open>Integers are held as \<open>int\<close> with the range of their Rust type; a UUID is its 16 bytes.\<close>

datatype SortKeyValue =
    VBool bool
  | VInt2 int
  | VInt4 int
  | VInt8 int
  | VDate int
  | VTimestamp int
  | VTimestamptz int
  | VUuid bytes
  | VText string
  | VNumeric string

fun sort_key_type :: "SortKeyValue \<Rightarrow> SortKeyType" where
  "sort_key_type (VBool _) = TBool"
| "sort_key_type (VInt2 _) = TInt2"
| "sort_key_type (VInt4 _) = TInt4"
| "sort_key_type (VInt8 _) = TInt8"
| "sort_key_type (VDate _) = TDate"
| "sort_key_type (VTimestamp _) = TTimestamp"
| "sort_key_type (VTimestamptz _) = TTimestamptz"
| "sort_key_type (VUuid _) = TUuid"
| "sort_key_type (VText _) = TText"
| "sort_key_type (VNumeric _) = TNumeric"

fun wf_value :: "SortKeyValue \<Rightarrow> bool" where
  "wf_value (VInt2 n) = in_i16 n"
| "wf_value (VInt4 n) = in_i32 n"
| "wf_value (VInt8 n) = in_i64 n"
| "wf_value (VDate n) = in_i32 n"
| "wf_value (VTimestamp n) = in_i64 n"
| "wf_value (VTimestamptz n) = in_i64 n"
| "wf_value (VUuid b) = (length b = 16)"
| "wf_value (VText s) = valid_utf8 (utf8 s)"
| "wf_value _ = True"

subsection \<open>Epochs\<close>

definition PG_EPOCH_DAYS_FROM_UNIX :: int where "PG_EPOCH_DAYS_FROM_UNIX = 10957"
definition PG_EPOCH_MICROS_FROM_UNIX :: int where
  "PG_EPOCH_MICROS_FROM_UNIX = 946684800000000"

definition pg_micros_to_unix :: "int \<Rightarrow> int" where
  "pg_micros_to_unix pg_micros =
     (if pg_micros = i64_max \<or> pg_micros = i64_min then pg_micros
      else sat_i64 (pg_micros + PG_EPOCH_MICROS_FROM_UNIX))"

definition unix_micros_to_pg :: "int \<Rightarrow> int" where
  "unix_micros_to_pg unix_micros =
     (if unix_micros = i64_max \<or> unix_micros = i64_min then unix_micros
      else sat_i64 (unix_micros - PG_EPOCH_MICROS_FROM_UNIX))"

definition pg_days_to_unix :: "int \<Rightarrow> int" where
  "pg_days_to_unix pg_days =
     (if pg_days = i32_max \<or> pg_days = i32_min then pg_days
      else sat_i32 (pg_days + PG_EPOCH_DAYS_FROM_UNIX))"

definition unix_days_to_pg :: "int \<Rightarrow> int" where
  "unix_days_to_pg unix_days =
     (if unix_days = i32_max \<or> unix_days = i32_min then unix_days
      else sat_i32 (unix_days - PG_EPOCH_DAYS_FROM_UNIX))"

lemmas epoch_defs = pg_micros_to_unix_def unix_micros_to_pg_def pg_days_to_unix_def
  unix_days_to_pg_def PG_EPOCH_DAYS_FROM_UNIX_def PG_EPOCH_MICROS_FROM_UNIX_def
  sat_i64_def sat_i32_def int_ranges

subsection \<open>Lemmas\<close>

lemma from_type_oid_type_oid [simp]:
  "from_type_oid (type_oid ty) = (if is_order_column_type ty then Some ty else None)"
  by (cases ty) (simp_all add: from_type_oid_def)

lemma from_type_oid_for_bounds_type_oid [simp]: "from_type_oid_for_bounds (type_oid ty) = Some ty"
  by (cases ty) (simp_all add: from_type_oid_for_bounds_def from_type_oid_def)

lemma from_type_oid_for_bounds_Some:
  "from_type_oid_for_bounds oid = Some ty \<Longrightarrow> type_oid ty = oid"
  by (auto simp: from_type_oid_for_bounds_def from_type_oid_def split: if_splits)

lemma epoch_ranges:
  "in_i64 x \<Longrightarrow> in_i64 (pg_micros_to_unix x)" "in_i64 x \<Longrightarrow> in_i64 (unix_micros_to_pg x)"
  "in_i32 d \<Longrightarrow> in_i32 (pg_days_to_unix d)" "in_i32 d \<Longrightarrow> in_i32 (unix_days_to_pg d)"
  by (auto simp: epoch_defs)

text \<open>Both shifts are one scheme over a range \<open>[lo, hi]\<close> whose ends stand for the infinities.\<close>

lemma shift_round_trip:
  fixes lo hi s x :: int
  assumes "0 < s" "lo + s < hi" "lo \<le> x" "x \<le> hi"
  defines "y \<equiv> if x = hi \<or> x = lo then x else max lo (min hi (x + s))"
  shows "(if y = hi \<or> y = lo then y else max lo (min hi (y - s))) = x
    \<longleftrightarrow> x = hi \<or> x = lo \<or> x + s < hi"
proof -
  consider "x = hi \<or> x = lo" | "x \<noteq> hi" "x \<noteq> lo" "hi \<le> x + s" | "x \<noteq> hi" "x \<noteq> lo" "x + s < hi"
    by linarith
  then show ?thesis
    using assms by cases (auto simp: min_def max_def)
qed

lemma shift_mono:
  fixes lo hi s x y :: int
  assumes "0 < s" "lo + s < hi" "lo \<le> x" "x \<le> y" "y \<le> hi"
  shows "(if x = hi \<or> x = lo then x else max lo (min hi (x + s)))
       \<le> (if y = hi \<or> y = lo then y else max lo (min hi (y + s)))"
  using assms by (cases "x = lo"; cases "y = hi") (auto simp: min_def max_def)

lemmas shift_defs = pg_micros_to_unix_def unix_micros_to_pg_def pg_days_to_unix_def
  unix_days_to_pg_def sat_i64_def sat_i32_def

lemma micros_scheme: "0 < PG_EPOCH_MICROS_FROM_UNIX" "i64_min + PG_EPOCH_MICROS_FROM_UNIX < i64_max"
  by (simp_all add: PG_EPOCH_MICROS_FROM_UNIX_def int_ranges)

lemma days_scheme: "0 < PG_EPOCH_DAYS_FROM_UNIX" "i32_min + PG_EPOCH_DAYS_FROM_UNIX < i32_max"
  by (simp_all add: PG_EPOCH_DAYS_FROM_UNIX_def int_ranges)

text \<open>C3: the shift between the epochs never leaves the machine range, keeps the order (the infinities
  included), and is undone exactly: a value survives the round trip iff it is an infinity or its shift
  stays below the upper infinity.\<close>

theorem epoch_shift_exact:
  assumes "in_i64 x" "in_i64 y" "in_i32 d" "in_i32 e"
  shows "in_i64 (pg_micros_to_unix x) \<and> in_i32 (pg_days_to_unix d)
    \<and> (x \<le> y \<longrightarrow> pg_micros_to_unix x \<le> pg_micros_to_unix y)
    \<and> (d \<le> e \<longrightarrow> pg_days_to_unix d \<le> pg_days_to_unix e)
    \<and> (unix_micros_to_pg (pg_micros_to_unix x) = x
         \<longleftrightarrow> x = i64_max \<or> x = i64_min \<or> x + PG_EPOCH_MICROS_FROM_UNIX < i64_max)
    \<and> (unix_days_to_pg (pg_days_to_unix d) = d
         \<longleftrightarrow> d = i32_max \<or> d = i32_min \<or> d + PG_EPOCH_DAYS_FROM_UNIX < i32_max)"
  using assms epoch_ranges(1) [OF assms(1)] epoch_ranges(3) [OF assms(3)]
    shift_mono [OF micros_scheme, of x y] shift_mono [OF days_scheme, of d e]
    shift_round_trip [OF micros_scheme, of x] shift_round_trip [OF days_scheme, of d]
  unfolding shift_defs in_i64_def in_i32_def by blast

theorem epoch_shift_exact_witness:
  "unix_micros_to_pg (pg_micros_to_unix (-211813488000000000)) = -211813488000000000
   \<and> unix_days_to_pg (pg_days_to_unix 7000) = 7000"
  using epoch_shift_exact [of "-211813488000000000" 0 7000 8000]
  by (simp add: int_ranges PG_EPOCH_DAYS_FROM_UNIX_def PG_EPOCH_MICROS_FROM_UNIX_def)

end
