(* ===== verification/Numeric_Key.thy ===== *)
theory Numeric_Key
  imports Complex_Main Sort_Key_Types
begin

text \<open>
  The order encoding of \<open>numeric\<close> (\<open>encode_numeric_key\<close> in \<open>koldstore-sortkey/src/encode.rs\<close>).
  The text that \<open>numeric_out\<close> prints is turned into a tag byte, the decimal exponent as a sign-flipped
  big-endian \<open>i32\<close>, the significant digits and a terminator.  The reference is the value of the
  text, a rational number or one of the three special values, under PostgreSQL's order in which NaN is
  the greatest.
\<close>

unbundle bit_operations_syntax

text \<open>An \<open>InvalidJson\<close> error keeps the expected type; the detail text built from the offending input is
  left out.\<close>

datatype SortKeyError =
    UnsupportedTypeOid nat
  | InvalidJson string
  | Encode string
  | Decode string

subsection \<open>The encoder\<close>

definition strip_sign :: "string \<Rightarrow> bool \<times> string" where
  "strip_sign trimmed = (case trimmed of
      c # rest \<Rightarrow>
        if c = CHR ''-'' then (True, rest)
        else if c = CHR ''+'' then (False, rest)
        else (False, trimmed)
    | [] \<Rightarrow> (False, trimmed))"

definition split_point :: "string \<Rightarrow> string \<times> string" where
  "split_point s = (takeWhile (\<lambda>c. c \<noteq> CHR ''.'') s, tl (dropWhile (\<lambda>c. c \<noteq> CHR ''.'') s))"

definition digit_val :: "char \<Rightarrow> nat" where
  "digit_val c = of_char c - 48"

definition pop_zeros :: "nat list \<Rightarrow> nat list" where
  "pop_zeros ds = rev (dropWhile (\<lambda>d. d = 0) (rev ds))"

definition numeric_body :: "int \<Rightarrow> nat list \<Rightarrow> bytes" where
  "numeric_body exponent digits =
     be_bytes 4 (unat ((word_of_int exponent :: u32) XOR 0x80000000))
     @ map (\<lambda>d. of_nat (d + 1)) digits @ [0]"

definition numeric_finite_key :: "bool \<Rightarrow> string \<Rightarrow> string \<Rightarrow> SortKeyError + bytes" where
  "numeric_finite_key negative int_part frac_part =
     (let digits = map digit_val (int_part @ frac_part);
          leading_zeros = length (takeWhile (\<lambda>d. d = 0) digits)
      in if leading_zeros = length digits then Inr [0x20]
         else let significant = pop_zeros (drop leading_zeros digits)
              in if i32_max < int (length int_part) then Inl (InvalidJson ''numeric'')
                 else if i32_max < int leading_zeros then Inl (InvalidJson ''numeric'')
                 else let body = numeric_body (int (length int_part) - int leading_zeros) significant
                      in if negative then Inr (0x10 # map not body) else Inr (0x30 # body))"

definition encode_numeric_key :: "string \<Rightarrow> SortKeyError + bytes" where
  "encode_numeric_key text =
     (let trimmed = trim text
      in if trimmed = ''NaN'' then Inr [0x50]
         else if trimmed = ''Infinity'' \<or> trimmed = ''+Infinity'' then Inr [0x40]
         else if trimmed = ''-Infinity'' then Inr [0x00]
         else let (negative, unsigned) = strip_sign trimmed;
                  (int_part, frac_part) = split_point unsigned
              in if (int_part = [] \<and> frac_part = []) \<or> \<not> list_all is_digit (int_part @ frac_part)
                 then Inl (InvalidJson ''numeric'')
                 else numeric_finite_key negative int_part frac_part)"

subsection \<open>The reference: the value of the text\<close>

datatype numeric = NegInf | Fin rat | PosInf | NaN

instantiation numeric :: linorder
begin

fun less_numeric :: "numeric \<Rightarrow> numeric \<Rightarrow> bool" where
  "less_numeric (Fin a) (Fin b) = (a < b)"
| "less_numeric NegInf b = (b \<noteq> NegInf)"
| "less_numeric (Fin a) b = (b = PosInf \<or> b = NaN)"
| "less_numeric PosInf b = (b = NaN)"
| "less_numeric NaN b = False"

definition less_eq_numeric :: "numeric \<Rightarrow> numeric \<Rightarrow> bool" where
  "less_eq_numeric a b \<longleftrightarrow> a = b \<or> a < b"

instance
proof
  fix x y z :: numeric
  show "x < y \<longleftrightarrow> x \<le> y \<and> \<not> y \<le> x"
    by (cases x; cases y) (auto simp: less_eq_numeric_def)
  show "x \<le> x"
    by (simp add: less_eq_numeric_def)
  show "x \<le> y \<Longrightarrow> y \<le> z \<Longrightarrow> x \<le> z"
    by (cases x; cases y; cases z) (auto simp: less_eq_numeric_def)
  show "x \<le> y \<Longrightarrow> y \<le> x \<Longrightarrow> x = y"
    by (cases x; cases y) (auto simp: less_eq_numeric_def)
  show "x \<le> y \<or> y \<le> x"
    by (cases x; cases y) (auto simp: less_eq_numeric_def)
qed

end

definition horner :: "nat list \<Rightarrow> nat" where
  "horner ds = foldl (\<lambda>a d. 10 * a + d) 0 ds"

definition decimal_value :: "string \<Rightarrow> string \<Rightarrow> rat" where
  "decimal_value int_part frac_part =
     of_nat (horner (map digit_val (int_part @ frac_part))) / 10 ^ length frac_part"

definition numeric_value :: "string \<Rightarrow> numeric" where
  "numeric_value text =
     (let t = trim text
      in if t = ''NaN'' then NaN
         else if t = ''Infinity'' \<or> t = ''+Infinity'' then PosInf
         else if t = ''-Infinity'' then NegInf
         else let (negative, unsigned) = strip_sign t;
                  (int_part, frac_part) = split_point unsigned;
                  v = decimal_value int_part frac_part
              in Fin (if negative then - v else v))"

subsection \<open>Fractions of digit strings\<close>

fun digit_frac :: "nat list \<Rightarrow> rat" where
  "digit_frac [] = 0"
| "digit_frac (d # ds) = (of_nat d + digit_frac ds) / 10"

definition digits_ok :: "nat list \<Rightarrow> bool" where
  "digits_ok ds \<longleftrightarrow> list_all (\<lambda>d. d < 10) ds"

definition no_trailing :: "nat list \<Rightarrow> bool" where
  "no_trailing ds \<longleftrightarrow> (ds \<noteq> [] \<longrightarrow> last ds \<noteq> 0)"

definition digit_key :: "nat list \<Rightarrow> bytes" where
  "digit_key ds = map (\<lambda>d. of_nat (d + 1)) ds @ [0]"

lemma horner_append: "horner (xs @ [d]) = 10 * horner xs + d"
  by (simp add: horner_def)

lemma frac_append: "digit_frac (xs @ ys) = digit_frac xs + digit_frac ys / 10 ^ length xs"
  by (induction xs) (simp_all add: field_simps)

lemma frac_horner: "digit_frac ds = of_nat (horner ds) / 10 ^ length ds"
  by (induction ds rule: rev_induct)
    (simp_all add: frac_append horner_append field_simps, simp add: horner_def)

lemma frac_nonneg: "0 \<le> digit_frac ds"
  by (induction ds) auto

lemma frac_less_1: "digits_ok ds \<Longrightarrow> digit_frac ds < 1"
proof (induction ds)
  case (Cons d ds)
  then have "rat_of_nat d \<le> 9" "digit_frac ds < 1"
    by (auto simp: digits_ok_def)
  then show ?case
    by simp
qed simp

lemma frac_pos: "\<lbrakk>no_trailing ds; ds \<noteq> []\<rbrakk> \<Longrightarrow> 0 < digit_frac ds"
proof (induction ds)
  case (Cons d ds)
  then show ?case
    using frac_nonneg [of ds] by (cases "ds = []") (auto simp: no_trailing_def add_nonneg_pos)
qed simp

lemma frac_lower: "hd ds \<noteq> 0 \<Longrightarrow> ds \<noteq> [] \<Longrightarrow> 1 / 10 \<le> digit_frac ds"
  using frac_nonneg [of "tl ds"] by (cases ds) auto

lemma frac_zeros: "digit_frac (replicate n 0 @ ds) = digit_frac ds / 10 ^ n"
  by (induction n) (simp_all add: field_simps)

lemma frac_trailing_zeros: "digit_frac (ds @ replicate n 0) = digit_frac ds"
proof -
  have "digit_frac (replicate n 0) = 0"
    using frac_zeros [of n "[]"] by simp
  then show ?thesis
    by (simp add: frac_append)
qed

subsection \<open>Byte order of the digits and of the exponent\<close>

lemma digit_byte_less:
  "\<lbrakk>d < 10; e < 10\<rbrakk> \<Longrightarrow> (of_nat (d + 1) :: u8) < of_nat (e + 1) \<longleftrightarrow> d < e"
  by (simp add: word_less_nat_alt unat_of_nat_u8 del: of_nat_add of_nat_Suc)

lemma digit_byte_eq:
  "\<lbrakk>d < 10; e < 10\<rbrakk> \<Longrightarrow> (of_nat (d + 1) :: u8) = of_nat (e + 1) \<longleftrightarrow> d = e"
  using digit_byte_less [of d e] digit_byte_less [of e d] by (metis linorder_neq_iff)

lemma digit_byte_pos: "d < 10 \<Longrightarrow> (0 :: u8) < of_nat (d + 1)"
  by (simp add: word_less_nat_alt unat_of_nat_u8 del: of_nat_add of_nat_Suc)

lemma digit_key_less:
  assumes "digits_ok ds" "digits_ok es" "no_trailing ds" "no_trailing es"
    and "digit_frac ds < digit_frac es"
  shows "digit_key ds < digit_key es"
  using assms
proof (induction ds arbitrary: es)
  case Nil
  then obtain e es' where "es = e # es'"
    by (cases es) auto
  with Nil show ?case
    using digit_byte_pos [of e] by (simp add: digit_key_def digits_ok_def)
next
  case (Cons d ds)
  have pos: "0 < digit_frac (d # ds)"
    using Cons.prems by (intro frac_pos) auto
  then obtain e es' where es: "es = e # es'"
    using Cons.prems(5) by (cases es) auto
  have ok: "d < 10" "e < 10" "digits_ok ds" "digits_ok es'"
    using Cons.prems es by (auto simp: digits_ok_def)
  have tails: "no_trailing ds" "no_trailing es'"
    using Cons.prems es by (auto simp: no_trailing_def split: if_splits)
  have lt: "rat_of_nat d + digit_frac ds < rat_of_nat e + digit_frac es'"
    using Cons.prems(5) es by simp
  have "\<not> e < d"
  proof
    assume "e < d"
    then have "rat_of_nat e + 1 \<le> rat_of_nat d"
      by (metis Suc_eq_plus1 Suc_leI of_nat_1 of_nat_add of_nat_le_iff)
    then show False
      using lt frac_less_1 [OF ok(4)] frac_nonneg [of ds] by linarith
  qed
  then show ?case
    using Cons.IH [OF ok(3,4) tails] lt es ok digit_byte_less [of d e]
    by (cases "d = e") (auto simp: digit_key_def simp del: of_nat_add)
qed

lemma top_bit: "bit (0x80000000 :: u32) n \<longleftrightarrow> n = 31"
  using bit_exp_iff [where 'a = u32, of 31 n] by auto

lemma unat_flip_sign:
  assumes "in_i32 e"
  shows "unat ((word_of_int e :: u32) XOR 0x80000000) = nat (e + 2147483648)"
proof -
  have flip: "x XOR 0x80000000 = x + 0x80000000" for x :: u32
  proof (cases "bit x 31")
    case True
    have "(x XOR 0x80000000) AND 0x80000000 = 0"
      by (rule bit_word_eqI)
        (use True in \<open>simp only: bit_and_iff bit_xor_iff top_bit bit_0_eq, auto\<close>)
    then have "(x XOR 0x80000000) + 0x80000000 = x"
      by (simp add: disjunctive_add_eq_xor xor.assoc)
    then have "x XOR 0x80000000 = x - 0x80000000"
      by (simp add: eq_diff_eq)
    then show ?thesis
      by (simp add: diff_eq_eq add.assoc)
  next
    case False
    have "x AND 0x80000000 = 0"
      by (rule bit_word_eqI) (use False in \<open>simp only: bit_and_iff top_bit bit_0_eq, auto\<close>)
    then show ?thesis
      by (simp add: disjunctive_add_eq_xor)
  qed
  have "uint ((word_of_int e :: u32) + 0x80000000) = (e + 2147483648) mod 4294967296"
    by (simp add: uint_word_ariths take_bit_eq_mod mod_simps uint_word_of_int)
  also have "\<dots> = e + 2147483648"
    using assms by (simp add: int_ranges)
  finally show ?thesis
    by (simp add: flip unat_eq_nat_uint)
qed

subsection \<open>Normalised decimals\<close>

text \<open>
  A finite non-zero value is a sign, an exponent and a digit string with neither a leading nor a
  trailing zero; its magnitude is the fraction of the digits scaled by the power of ten.
\<close>

definition normal :: "int \<Rightarrow> nat list \<Rightarrow> bool" where
  "normal e ds \<longleftrightarrow> in_i32 e \<and> digits_ok ds \<and> ds \<noteq> [] \<and> hd ds \<noteq> 0 \<and> no_trailing ds"

definition magnitude :: "int \<Rightarrow> nat list \<Rightarrow> rat" where
  "magnitude e ds = digit_frac ds * 10 powi e"

lemma numeric_body_eq:
  "in_i32 e \<Longrightarrow> numeric_body e ds = be_bytes 4 (nat (e + 2147483648)) @ digit_key ds"
  by (simp add: numeric_body_def digit_key_def unat_flip_sign)

lemma magnitude_pos: "normal e ds \<Longrightarrow> 0 < magnitude e ds"
  by (simp add: magnitude_def normal_def frac_pos)

lemma magnitude_exponent_less:
  assumes "normal e ds" "normal f es" "e < f"
  shows "magnitude e ds < magnitude f es"
proof -
  have "magnitude e ds < 10 powi e"
    using assms(1) frac_less_1 by (simp add: magnitude_def normal_def)
  also have "\<dots> \<le> 10 powi (f - 1)"
    using assms(3) by (intro power_int_increasing) auto
  also have "10 powi (f - 1) = 1 / 10 * (10 :: rat) powi f"
    by (simp add: power_int_diff)
  also have "\<dots> \<le> magnitude f es"
    unfolding magnitude_def using assms(2) frac_lower [of es]
    by (intro mult_right_mono) (auto simp: normal_def)
  finally show ?thesis .
qed

lemma append_less_same_length:
  "length xs = length ys \<Longrightarrow> xs @ us < ys @ vs \<longleftrightarrow> xs < ys \<or> xs = ys \<and> us < vs"
  for xs ys us vs :: "'a::linorder list"
  by (induction xs ys rule: list_induct2) auto

lemma exponent_bytes_less:
  assumes "in_i32 e" "in_i32 f"
  shows "be_bytes 4 (nat (e + 2147483648)) < be_bytes 4 (nat (f + 2147483648)) \<longleftrightarrow> e < f"
  using assms by (subst be_bytes_less_iff) (auto simp: int_ranges)

lemma numeric_body_less:
  assumes "normal e ds" "normal f es" "magnitude e ds < magnitude f es"
  shows "numeric_body e ds < numeric_body f es"
proof -
  have "\<not> f < e"
    using magnitude_exponent_less [OF assms(2,1)] assms(3) by auto
  moreover have "digit_frac ds < digit_frac es" if "e = f"
    using that assms(3) by (simp add: magnitude_def)
  ultimately show ?thesis
    using assms(1,2) digit_key_less [of ds es] exponent_bytes_less [of e f]
    by (auto simp: numeric_body_eq append_less_same_length normal_def)
qed

lemma not_byte_less [simp]: "not a < not b \<longleftrightarrow> b < a" for a b :: u8
proof -
  have compl: "unat (not c) = 255 - unat c" for c :: u8
  proof -
    have "not c = 255 - c"
      by (simp add: not_eq_complement)
    moreover have "c \<le> 255"
      using unsigned_less [of c, where 'a = nat] by (simp add: word_le_nat_alt)
    ultimately show ?thesis
      by (simp add: unat_sub)
  qed
  have "unat c \<le> 255" for c :: u8
    using unsigned_less [of c, where 'a = nat] by simp
  from this [of a] this [of b] show ?thesis
    unfolding word_less_nat_alt compl by arith
qed

lemma complement_reverses:
  "\<lbrakk>xs < ys; \<not> prefix xs ys\<rbrakk> \<Longrightarrow> map not ys < map not xs" for xs ys :: bytes
proof (induction xs arbitrary: ys)
  case (Cons x xs)
  then show ?case
    by (cases ys) auto
qed simp

lemma digit_key_simps:
  "digit_key [] = [0]" "digit_key (d # ds) = of_nat (d + 1) # digit_key ds"
  by (simp_all add: digit_key_def)

lemma digits_ok_simps: "digits_ok []" "digits_ok (d # ds) \<longleftrightarrow> d < 10 \<and> digits_ok ds"
  by (simp_all add: digits_ok_def)

lemma digit_key_prefix:
  "\<lbrakk>digits_ok ds; digits_ok es; prefix (digit_key ds) (digit_key es)\<rbrakk> \<Longrightarrow> ds = es"
proof (induction ds arbitrary: es)
  case Nil
  then show ?case
    using digit_byte_pos [of "hd es"]
    by (cases es) (simp_all add: digit_key_simps digits_ok_simps del: of_nat_add of_nat_Suc)
next
  case (Cons d ds)
  then show ?case
    using digit_byte_pos [of d] digit_byte_eq [of d "hd es"]
    by (cases es) (auto simp: digit_key_simps digits_ok_simps simp del: of_nat_add of_nat_Suc)
qed

lemma numeric_body_prefix:
  assumes "normal e ds" "normal f es" "prefix (numeric_body e ds) (numeric_body f es)"
  shows "e = f \<and> ds = es"
proof -
  let ?b = "\<lambda>e. be_bytes 4 (nat (e + 2147483648))"
  have in_range: "in_i32 e" "in_i32 f"
    using assms(1,2) by (auto simp: normal_def)
  have pre: "prefix (?b e @ digit_key ds) (?b f @ digit_key es)"
    using assms(3) in_range by (simp add: numeric_body_eq)
  then obtain z where "?b f @ digit_key es = ?b e @ digit_key ds @ z"
    by (auto simp: prefix_def)
  then have "?b f = ?b e"
    using append_eq_append_conv [of "?b f" "?b e" "digit_key es" "digit_key ds @ z"] by simp
  then have "e = f"
    using exponent_bytes_less [OF in_range] exponent_bytes_less [OF in_range(2,1)] by auto
  then show ?thesis
    using pre digit_key_prefix [of ds es] assms(1,2) by (simp add: normal_def)
qed

lemma digit_frac_inj:
  "\<lbrakk>digits_ok ds; digits_ok es; no_trailing ds; no_trailing es; digit_frac ds = digit_frac es\<rbrakk>
   \<Longrightarrow> ds = es"
proof (induction ds arbitrary: es)
  case Nil
  then show ?case
    using frac_pos [of es] by (cases es) auto
next
  case (Cons d ds)
  have "0 < digit_frac (d # ds)"
    using Cons.prems by (intro frac_pos) auto
  then obtain e es' where es: "es = e # es'"
    using Cons.prems(5) by (cases es) auto
  have ok: "digits_ok ds" "digits_ok es'"
    using Cons.prems es by (auto simp: digits_ok_simps)
  have tails: "no_trailing ds" "no_trailing es'"
    using Cons.prems es by (auto simp: no_trailing_def split: if_splits)
  have eq: "rat_of_nat d + digit_frac ds = rat_of_nat e + digit_frac es'"
    using Cons.prems(5) es by simp
  have "rat_of_nat d < rat_of_nat (e + 1)" "rat_of_nat e < rat_of_nat (d + 1)"
    using eq frac_less_1 [OF ok(1)] frac_less_1 [OF ok(2)] frac_nonneg [of ds] frac_nonneg [of es']
    by simp_all
  then have "d = e"
    unfolding of_nat_less_iff by simp
  then show ?case
    using Cons.IH [OF ok tails] eq es by simp
qed

lemma magnitude_inj:
  assumes "normal e ds" "normal f es" "magnitude e ds = magnitude f es"
  shows "e = f \<and> ds = es"
proof -
  have "e = f"
    using magnitude_exponent_less [OF assms(1,2)] magnitude_exponent_less [OF assms(2,1)] assms(3)
    by (cases e f rule: linorder_cases) auto
  then show ?thesis
    using assms digit_frac_inj [of ds es] by (simp add: normal_def magnitude_def)
qed

subsection \<open>Canonical forms\<close>

datatype canon = CNegInf | CNeg int "nat list" | CZero | CPos int "nat list" | CPosInf | CNaN

fun canon_ok :: "canon \<Rightarrow> bool" where
  "canon_ok (CNeg e ds) = normal e ds"
| "canon_ok (CPos e ds) = normal e ds"
| "canon_ok _ = True"

fun canon_value :: "canon \<Rightarrow> numeric" where
  "canon_value CNegInf = NegInf"
| "canon_value (CNeg e ds) = Fin (- magnitude e ds)"
| "canon_value CZero = Fin 0"
| "canon_value (CPos e ds) = Fin (magnitude e ds)"
| "canon_value CPosInf = PosInf"
| "canon_value CNaN = NaN"

fun canon_key :: "canon \<Rightarrow> bytes" where
  "canon_key CNegInf = [0x00]"
| "canon_key (CNeg e ds) = 0x10 # map not (numeric_body e ds)"
| "canon_key CZero = [0x20]"
| "canon_key (CPos e ds) = 0x30 # numeric_body e ds"
| "canon_key CPosInf = [0x40]"
| "canon_key CNaN = [0x50]"

lemma magnitude_signs:
  assumes "normal e ds" "normal f es"
  shows "\<not> magnitude e ds < - magnitude f es" "magnitude e ds \<noteq> - magnitude f es"
    "- magnitude f es \<noteq> magnitude e ds"
  using magnitude_pos [OF assms(1)] magnitude_pos [OF assms(2)] by linarith+

lemma canon_order:
  assumes "canon_ok c" "canon_ok d" "canon_value c < canon_value d"
  shows "canon_key c < canon_key d"
proof -
  have body: "map not (numeric_body e ds) < map not (numeric_body f es)"
    if "normal e ds" "normal f es" "magnitude f es < magnitude e ds" for e ds f es
    using numeric_body_less [of f es e ds] numeric_body_prefix [of f es e ds] that
    by (intro complement_reverses) auto
  show ?thesis
    using assms body numeric_body_less
    by (cases c; cases d) (auto dest: magnitude_pos simp: magnitude_signs)
qed

lemma canon_inj:
  assumes "canon_ok c" "canon_ok d" "canon_value c = canon_value d"
  shows "c = d"
  using assms by (cases c; cases d) (auto dest: magnitude_pos magnitude_inj simp: magnitude_signs)

subsection \<open>The encoder produces the canonical key of the value\<close>

lemma digit_val_less: "is_digit c \<Longrightarrow> digit_val c < 10"
  by (auto simp: is_digit_def digit_val_def less_eq_char_def)

lemma takeWhile_zeros:
  "takeWhile (\<lambda>d. d = 0) ds = replicate (length (takeWhile (\<lambda>d. d = 0) ds)) (0 :: nat)"
  by (induction ds) auto

lemma pop_zeros_split: "\<exists>n. ds = pop_zeros ds @ replicate n 0"
proof -
  define n where "n = length (takeWhile (\<lambda>d. d = 0) (rev ds))"
  have "rev ds = replicate n 0 @ dropWhile (\<lambda>d. d = 0) (rev ds)"
    using takeWhile_dropWhile_id [of "\<lambda>d. d = 0" "rev ds"] takeWhile_zeros [of "rev ds"]
    by (simp add: n_def)
  then have "rev (rev ds) = pop_zeros ds @ replicate n 0"
    unfolding pop_zeros_def by (metis rev_append rev_replicate)
  then show ?thesis
    by auto
qed

lemma pop_zeros_no_trailing: "no_trailing (pop_zeros ds)"
  using hd_dropWhile [of "\<lambda>d. d = 0" "rev ds"]
  by (auto simp: no_trailing_def pop_zeros_def last_rev)

lemma strip_leading:
  "ds = replicate (length (takeWhile (\<lambda>d. d = 0) ds)) 0
        @ drop (length (takeWhile (\<lambda>d. d = 0) ds)) ds" for ds :: "nat list"
proof -
  have "ds = takeWhile (\<lambda>d. d = 0) ds @ drop (length (takeWhile (\<lambda>d. d = 0) ds)) ds"
    by (simp add: dropWhile_eq_drop [symmetric])
  then show ?thesis
    using takeWhile_zeros [of ds] by simp
qed

lemma significant_digits:
  assumes ok: "digits_ok ds"
    and lz: "lz = length (takeWhile (\<lambda>d. d = 0) ds)" and ne: "lz \<noteq> length ds"
  defines "sig \<equiv> pop_zeros (drop lz ds)"
  shows "digits_ok sig" "sig \<noteq> []" "hd sig \<noteq> 0" "no_trailing sig"
    "digit_frac ds = digit_frac sig / 10 ^ lz"
proof -
  obtain n where n: "drop lz ds = sig @ replicate n 0"
    using pop_zeros_split sig_def by blast
  have rest: "drop lz ds \<noteq> []" "hd (drop lz ds) \<noteq> 0"
  proof -
    have drop: "drop lz ds = dropWhile (\<lambda>d. d = 0) ds"
      by (simp add: lz dropWhile_eq_drop)
    show "drop lz ds \<noteq> []"
      using ne lz length_takeWhile_le [of "\<lambda>d. d = 0" ds] by simp
    then show "hd (drop lz ds) \<noteq> 0"
      using hd_dropWhile [of "\<lambda>d. d = 0" ds] by (simp add: drop)
  qed
  show "sig \<noteq> []"
  proof
    assume "sig = []"
    with n rest show False
      by (cases n) auto
  qed
  with n rest show "hd sig \<noteq> 0"
    by simp
  show "no_trailing sig"
    by (simp add: sig_def pop_zeros_no_trailing)
  have "set sig \<subseteq> set ds"
    using n set_drop_subset [of lz ds] by auto
  then show "digits_ok sig"
    using ok by (auto simp: digits_ok_def list_all_iff)
  have "digit_frac ds = digit_frac (replicate lz 0 @ drop lz ds)"
    using strip_leading [of ds] lz by simp
  then show "digit_frac ds = digit_frac sig / 10 ^ lz"
    by (simp add: frac_zeros n frac_trailing_zeros)
qed

lemma decimal_value_frac:
  "decimal_value i f = digit_frac (map digit_val (i @ f)) * 10 ^ length i"
  by (simp add: decimal_value_def frac_horner power_add field_simps)

lemma finite_key_canon:
  assumes digits: "list_all is_digit (i @ f)" and key: "numeric_finite_key neg i f = Inr k"
  shows "\<exists>c. canon_ok c \<and> k = canon_key c
           \<and> canon_value c = Fin (if neg then - decimal_value i f else decimal_value i f)"
proof -
  let ?ds = "map digit_val (i @ f)"
  define lz where "lz = length (takeWhile (\<lambda>d. d = 0) ?ds)"
  have ok: "digits_ok ?ds"
    using digits by (auto simp: digits_ok_def list_all_iff digit_val_less)
  show ?thesis
  proof (cases "lz = length ?ds")
    case True
    have "?ds = replicate lz 0"
      using strip_leading [of ?ds] True lz_def by simp
    then have "digit_frac ?ds = 0"
      using frac_zeros [of lz "[]"] by simp
    then have "canon_ok CZero \<and> k = canon_key CZero \<and> canon_value CZero
        = Fin (if neg then - decimal_value i f else decimal_value i f)"
      using key True by (simp add: numeric_finite_key_def Let_def lz_def decimal_value_frac)
    then show ?thesis
      by blast
  next
    case False
    let ?sig = "pop_zeros (drop lz ?ds)" and ?e = "int (length i) - int lz"
    note sig = significant_digits [OF ok lz_def False]
    have bounds: "int (length i) \<le> i32_max" "int lz \<le> i32_max"
      using key False by (auto simp: numeric_finite_key_def Let_def lz_def split: if_splits)
    then have normal: "normal ?e ?sig"
      using sig by (auto simp: normal_def int_ranges)
    have mag: "magnitude ?e ?sig = decimal_value i f"
      using sig(5) by (simp add: decimal_value_frac magnitude_def power_int_diff)
    have "k = canon_key (if neg then CNeg ?e ?sig else CPos ?e ?sig)"
      using key False bounds by (auto simp: numeric_finite_key_def Let_def lz_def)
    then show ?thesis
      using normal mag by (intro exI [of _ "if neg then CNeg ?e ?sig else CPos ?e ?sig"]) auto
  qed
qed

lemma encode_numeric_key_canon:
  assumes "encode_numeric_key text = Inr k"
  obtains c where "canon_ok c" "k = canon_key c" "numeric_value text = canon_value c"
proof -
  consider "trim text = ''NaN''" | "trim text = ''Infinity'' \<or> trim text = ''+Infinity''"
    | "trim text = ''-Infinity''"
    | "trim text \<notin> {''NaN'', ''Infinity'', ''+Infinity'', ''-Infinity''}"
    by auto
  then have "\<exists>c. canon_ok c \<and> k = canon_key c \<and> numeric_value text = canon_value c"
  proof cases
    case 1
    with assms have "canon_ok CNaN \<and> k = canon_key CNaN \<and> numeric_value text = canon_value CNaN"
      by (simp add: encode_numeric_key_def numeric_value_def)
    then show ?thesis by blast
  next
    case 2
    with assms have
      "canon_ok CPosInf \<and> k = canon_key CPosInf \<and> numeric_value text = canon_value CPosInf"
      by (auto simp: encode_numeric_key_def numeric_value_def)
    then show ?thesis by blast
  next
    case 3
    with assms have
      "canon_ok CNegInf \<and> k = canon_key CNegInf \<and> numeric_value text = canon_value CNegInf"
      by (simp add: encode_numeric_key_def numeric_value_def)
    then show ?thesis by blast
  next
    case 4
    obtain neg u where sign: "strip_sign (trim text) = (neg, u)"
      by fastforce
    obtain i f where parts: "split_point u = (i, f)"
      by fastforce
    from 4 assms sign parts have
      "list_all is_digit (i @ f)" "numeric_finite_key neg i f = Inr k"
      by (auto simp: encode_numeric_key_def Let_def split: if_splits)
    then show ?thesis
      using finite_key_canon [of i f neg k] 4 sign parts
      by (auto simp: numeric_value_def Let_def)
  qed
  then show thesis
    using that by blast
qed

lemma encode_numeric_key_order:
  assumes "encode_numeric_key a = Inr ka" and "encode_numeric_key b = Inr kb"
  shows "ka < kb \<longleftrightarrow> numeric_value a < numeric_value b"
    and "ka = kb \<longleftrightarrow> numeric_value a = numeric_value b"
proof -
  obtain c where c: "canon_ok c" "ka = canon_key c" "numeric_value a = canon_value c"
    using encode_numeric_key_canon [OF assms(1)] .
  obtain d where d: "canon_ok d" "kb = canon_key d" "numeric_value b = canon_value d"
    using encode_numeric_key_canon [OF assms(2)] .
  note order = canon_order [OF c(1) d(1)] canon_order [OF d(1) c(1)] canon_inj [OF c(1) d(1)]
  show "ka < kb \<longleftrightarrow> numeric_value a < numeric_value b"
    using order unfolding c(2,3) d(2,3)
    by (cases "canon_value c" "canon_value d" rule: linorder_cases) auto
  show "ka = kb \<longleftrightarrow> numeric_value a = numeric_value b"
    using order unfolding c(2,3) d(2,3)
    by (cases "canon_value c" "canon_value d" rule: linorder_cases) auto
qed

text \<open>C1: the byte order of numeric keys is the numeric order, and two texts share a key exactly
  when they denote the same value (so the scale of \<open>1\<close>, \<open>1.0\<close>, \<open>1.00\<close> is irrelevant).\<close>

theorem numeric_key_order:
  assumes "encode_numeric_key a = Inr ka" and "encode_numeric_key b = Inr kb"
  shows "(ka < kb \<longleftrightarrow> numeric_value a < numeric_value b)
       \<and> (ka = kb \<longleftrightarrow> numeric_value a = numeric_value b)"
  using encode_numeric_key_order [OF assms] by blast

lemmas finite_key_eval = numeric_finite_key_def numeric_body_def digit_val_def pop_zeros_def
  Let_def int_ranges be_bytes_numeral

lemmas numeric_eval = encode_numeric_key_def strip_sign_def split_point_def is_digit_def
  less_eq_char_def trim_plain plain_char_def

lemma key_9_99: "encode_numeric_key ''9.990'' = Inr [0x30, 0x80, 0, 0, 1, 10, 10, 10, 0]"
  by (simp add: numeric_eval) (simp add: finite_key_eval)

lemma key_minus_12_5:
  "encode_numeric_key ''-12.50'' = Inr [0x10, 0x7F, 0xFF, 0xFF, 0xFD, 0xFD, 0xFC, 0xF9, 0xFF]"
  by (simp add: numeric_eval) (simp add: finite_key_eval)

theorem numeric_key_order_witness:
  "([0x10, 0x7F, 0xFF, 0xFF, 0xFD, 0xFD, 0xFC, 0xF9, 0xFF :: u8] < [0x30, 0x80, 0, 0, 1, 10, 10, 10, 0])
   \<and> numeric_value ''-12.50'' < numeric_value ''9.990''"
  using numeric_key_order [OF key_minus_12_5 key_9_99] by simp

end
