(* ===== verification/Json.thy ===== *)
theory Json
  imports Prelude
begin

text \<open>JSON documents as \<open>serde_json::Value\<close> presents them, and its accessors.\<close>

text \<open>The workspace enables \<open>serde_json\<close>'s arbitrary precision, so a number is its decimal text, equality
  of numbers is equality of that text, and the integer accessors parse it.\<close>

type_synonym jnumber = string

datatype json =
    JNull | JBool bool | JNumber jnumber | JString string | JArray "json list"
  | JObject "(string \<times> json) list"

fun as_i64 :: "json \<Rightarrow> int option" where
  "as_i64 (JNumber n) = parse_signed i64_min i64_max n"
| "as_i64 _ = None"

fun as_u64 :: "json \<Rightarrow> nat option" where
  "as_u64 (JNumber n) = parse_unsigned u64_max n"
| "as_u64 _ = None"

fun as_bool :: "json \<Rightarrow> bool option" where
  "as_bool (JBool b) = Some b"
| "as_bool _ = None"

fun as_str :: "json \<Rightarrow> string option" where
  "as_str (JString s) = Some s"
| "as_str _ = None"

definition number_of_int :: "int \<Rightarrow> json" where
  "number_of_int n = JNumber (show_int n)"

lemma as_i64_number_of_int [simp]: "in_i64 n \<Longrightarrow> as_i64 (number_of_int n) = Some n"
  by (simp add: number_of_int_def parse_signed_show_int int_ranges)

subsection \<open>Objects\<close>

text \<open>\<open>serde_json::Map\<close> is an ordered tree here (no \<open>preserve_order\<close>): iteration is in key order.\<close>

fun map_insert :: "string \<Rightarrow> 'a \<Rightarrow> (string \<times> 'a) list \<Rightarrow> (string \<times> 'a) list" where
  "map_insert k v [] = [(k, v)]"
| "map_insert k v ((k', v') # m) =
     (if k < k' then (k, v) # (k', v') # m
      else if k = k' then (k, v) # m
      else (k', v') # map_insert k v m)"

fun as_object :: "json \<Rightarrow> (string \<times> json) list option" where
  "as_object (JObject m) = Some m"
| "as_object _ = None"

lemma map_of_map_insert [simp]: "map_of (map_insert k v m) = (map_of m)(k \<mapsto> v)"
  by (induction k v m rule: map_insert.induct) (auto simp: fun_eq_iff)

lemma map_insert_keys [simp]: "fst ` set (map_insert k v m) = insert k (fst ` set m)"
  by (induction k v m rule: map_insert.induct) auto

lemma map_insert_sorted:
  "sorted_wrt (\<lambda>a b. fst a < fst b) m \<Longrightarrow> sorted_wrt (\<lambda>a b. fst a < fst b) (map_insert k v m)"
proof (induction k v m rule: map_insert.induct)
  case (2 k v k' v' m)
  have "fst ` set (map_insert k v m) = insert k (fst ` set m)"
    by simp
  then have "\<forall>p\<in>set (map_insert k v m). fst p = k \<or> fst p \<in> fst ` set m"
    by (metis image_eqI insert_iff)
  then show ?case
    using 2 by fastforce
qed simp

end
