(* ===== verification/Sort_Key_Encode.thy ===== *)
theory Sort_Key_Encode
  imports Numeric_Key Json
begin

text \<open>
  Encoding and decoding of Sort Key V1 values (\<open>koldstore-sortkey/src/encode.rs\<close>).  The crates
  \<open>storekey\<close>, \<open>uuid\<close> and \<open>chrono\<close> are parameters, collected in the
  record \<open>sort_ext\<close>; everything else is written out.
\<close>

subsection \<open>Parameters\<close>

text \<open>The values \<open>storekey::encode_vec\<close> is applied to, at their Rust types.\<close>

datatype scalar = SBool bool | SI16 int | SI32 int | SI64 int | SUuid bytes

datatype scalar_type = KBool | KI16 | KI32 | KI64 | KUuid

record sort_ext =
  encode_vec :: "scalar \<Rightarrow> string + bytes"
  decode_vec :: "scalar_type \<Rightarrow> bytes \<Rightarrow> string + scalar"
  uuid_parse_str :: "string \<Rightarrow> bytes option"
  uuid_to_string :: "bytes \<Rightarrow> string"
  naive_date_unix_days :: "string \<Rightarrow> int option"
  rfc3339_unix_micros :: "string \<Rightarrow> int option"
  datetime_unix_micros :: "string \<Rightarrow> string \<Rightarrow> int option"
  naive_datetime_unix_micros :: "string \<Rightarrow> string \<Rightarrow> int option"

subsection \<open>Encoding and decoding\<close>

definition map_err :: "('e \<Rightarrow> 'f) \<Rightarrow> 'e + 'a \<Rightarrow> 'f + 'a" where
  "map_err f r = map_sum f id r"

definition encode_sort_key :: "sort_ext \<Rightarrow> SortKeyValue \<Rightarrow> SortKeyError + bytes" where
  "encode_sort_key x v = (case v of
      VBool b \<Rightarrow> map_err Encode (encode_vec x (SBool b))
    | VInt2 n \<Rightarrow> map_err Encode (encode_vec x (SI16 n))
    | VInt4 n \<Rightarrow> map_err Encode (encode_vec x (SI32 n))
    | VInt8 n \<Rightarrow> map_err Encode (encode_vec x (SI64 n))
    | VDate n \<Rightarrow> map_err Encode (encode_vec x (SI32 n))
    | VTimestamp n \<Rightarrow> map_err Encode (encode_vec x (SI64 n))
    | VTimestamptz n \<Rightarrow> map_err Encode (encode_vec x (SI64 n))
    | VUuid u \<Rightarrow> map_err Encode (encode_vec x (SUuid u))
    | VText s \<Rightarrow> Inr (utf8 s)
    | VNumeric s \<Rightarrow> encode_numeric_key s)"

definition decode_one :: "sort_ext \<Rightarrow> scalar_type \<Rightarrow> bytes \<Rightarrow> SortKeyError + scalar" where
  "decode_one x k bs = map_err Decode (decode_vec x k bs)"

fun the_int :: "scalar \<Rightarrow> int" where
  "the_int (SI16 n) = n" | "the_int (SI32 n) = n" | "the_int (SI64 n) = n" | "the_int _ = 0"

fun the_bool :: "scalar \<Rightarrow> bool" where
  "the_bool (SBool b) = b" | "the_bool _ = False"

fun the_uuid :: "scalar \<Rightarrow> bytes" where
  "the_uuid (SUuid u) = u" | "the_uuid _ = []"

definition decode_sort_key :: "sort_ext \<Rightarrow> SortKeyType \<Rightarrow> bytes \<Rightarrow> SortKeyError + SortKeyValue" where
  "decode_sort_key x ty bs = (case ty of
      TBool \<Rightarrow> res_bind (decode_one x KBool bs) (\<lambda>s. Inr (VBool (the_bool s)))
    | TInt2 \<Rightarrow> res_bind (decode_one x KI16 bs) (\<lambda>s. Inr (VInt2 (the_int s)))
    | TInt4 \<Rightarrow> res_bind (decode_one x KI32 bs) (\<lambda>s. Inr (VInt4 (the_int s)))
    | TInt8 \<Rightarrow> res_bind (decode_one x KI64 bs) (\<lambda>s. Inr (VInt8 (the_int s)))
    | TDate \<Rightarrow> res_bind (decode_one x KI32 bs) (\<lambda>s. Inr (VDate (the_int s)))
    | TTimestamp \<Rightarrow> res_bind (decode_one x KI64 bs) (\<lambda>s. Inr (VTimestamp (the_int s)))
    | TTimestamptz \<Rightarrow> res_bind (decode_one x KI64 bs) (\<lambda>s. Inr (VTimestamptz (the_int s)))
    | TUuid \<Rightarrow> res_bind (decode_one x KUuid bs) (\<lambda>s. Inr (VUuid (the_uuid s)))
    | TText \<Rightarrow>
        if valid_utf8 bs then Inr (VText (string_of_bytes bs))
        else Inl (Decode ''invalid utf-8'')
    | TNumeric \<Rightarrow> Inl (Decode ''numeric sort keys cannot be decoded''))"

subsection \<open>JSON literals\<close>

definition try_parse_i64 :: "json \<Rightarrow> int option" where
  "try_parse_i64 v = (case as_i64 v of
      Some n \<Rightarrow> Some n
    | None \<Rightarrow> (case as_u64 v of
          Some n \<Rightarrow> if int n \<le> i64_max then Some (int n) else None
        | None \<Rightarrow> (case as_str v of
              Some s \<Rightarrow> parse_signed i64_min i64_max s
            | None \<Rightarrow> None)))"

definition parse_i64 :: "json \<Rightarrow> string \<Rightarrow> SortKeyError + int" where
  "parse_i64 v expected = ok_or (InvalidJson expected) (try_parse_i64 v)"

definition parse_date_days :: "sort_ext \<Rightarrow> json \<Rightarrow> SortKeyError + int" where
  "parse_date_days x v = (case try_parse_i64 v of
      Some n \<Rightarrow> if in_i32 n then Inr n else Inl (InvalidJson ''date'')
    | None \<Rightarrow>
        res_bind (ok_or (InvalidJson ''date'') (as_str v)) (\<lambda>text.
        res_bind (ok_or (InvalidJson ''date'') (naive_date_unix_days x text)) (\<lambda>unix_days.
          let days = unix_days - PG_EPOCH_DAYS_FROM_UNIX
          in if in_i32 days then Inr days else Inl (InvalidJson ''date''))))"

definition opt_or :: "'a option \<Rightarrow> 'a option \<Rightarrow> 'a option" where
  "opt_or a b = (case a of None \<Rightarrow> b | Some _ \<Rightarrow> a)"

text \<open>The subtraction of the epoch stays within \<open>i64\<close>: the years chrono represents keep a time within
  \<open>8.4e18\<close> microseconds of the Unix epoch, and the shift is below \<open>1e15\<close>.\<close>

definition parse_temporal_string_to_pg_micros ::
    "sort_ext \<Rightarrow> string \<Rightarrow> string \<Rightarrow> SortKeyError + int" where
  "parse_temporal_string_to_pg_micros x text expected =
     res_bind (ok_or (InvalidJson expected)
       (opt_or (rfc3339_unix_micros x text)
       (opt_or (opt_or (datetime_unix_micros x text ''%Y-%m-%d %H:%M:%S%.f%z'')
               (opt_or (datetime_unix_micros x text ''%Y-%m-%d %H:%M:%S%z'')
               (opt_or (datetime_unix_micros x text ''%Y-%m-%d %H:%M:%S%.f%#z'')
                       (datetime_unix_micros x text ''%Y-%m-%d %H:%M:%S%#z''))))
               (opt_or (naive_datetime_unix_micros x text ''%Y-%m-%d %H:%M:%S%.f'')
                       (naive_datetime_unix_micros x text ''%Y-%m-%d %H:%M:%S'')))))
       (\<lambda>unix_micros. Inr (unix_micros - PG_EPOCH_MICROS_FROM_UNIX))"

definition parse_timestamp_micros :: "sort_ext \<Rightarrow> json \<Rightarrow> SortKeyError + int" where
  "parse_timestamp_micros x v = (case try_parse_i64 v of
      Some n \<Rightarrow> Inr n
    | None \<Rightarrow> res_bind (ok_or (InvalidJson ''timestamp'') (as_str v)) (\<lambda>text.
        parse_temporal_string_to_pg_micros x text ''timestamp''))"

definition parse_timestamptz_micros :: "sort_ext \<Rightarrow> json \<Rightarrow> SortKeyError + int" where
  "parse_timestamptz_micros x v = (case try_parse_i64 v of
      Some n \<Rightarrow> Inr n
    | None \<Rightarrow> res_bind (ok_or (InvalidJson ''timestamptz'') (as_str v)) (\<lambda>text.
        parse_temporal_string_to_pg_micros x text ''timestamptz''))"

definition parse_json_value :: "sort_ext \<Rightarrow> SortKeyType \<Rightarrow> json \<Rightarrow> SortKeyError + SortKeyValue" where
  "parse_json_value x ty v = (case ty of
      TBool \<Rightarrow> res_bind (ok_or (InvalidJson ''bool'') (as_bool v)) (\<lambda>b. Inr (VBool b))
    | TInt2 \<Rightarrow> res_bind (parse_i64 v ''int2'') (\<lambda>n.
        if in_i16 n then Inr (VInt2 n) else Inl (InvalidJson ''int2''))
    | TInt4 \<Rightarrow> res_bind (parse_i64 v ''int4'') (\<lambda>n.
        if in_i32 n then Inr (VInt4 n) else Inl (InvalidJson ''int4''))
    | TInt8 \<Rightarrow> res_bind (parse_i64 v ''int8'') (\<lambda>n. Inr (VInt8 n))
    | TDate \<Rightarrow> res_bind (parse_date_days x v) (\<lambda>n. Inr (VDate n))
    | TTimestamp \<Rightarrow> res_bind (parse_timestamp_micros x v) (\<lambda>n. Inr (VTimestamp n))
    | TTimestamptz \<Rightarrow> res_bind (parse_timestamptz_micros x v) (\<lambda>n. Inr (VTimestamptz n))
    | TUuid \<Rightarrow>
        res_bind (ok_or (InvalidJson ''uuid'') (as_str v)) (\<lambda>text.
        res_bind (ok_or (InvalidJson ''uuid'') (uuid_parse_str x text)) (\<lambda>u. Inr (VUuid u)))
    | TText \<Rightarrow> res_bind (ok_or (InvalidJson ''text'') (as_str v)) (\<lambda>text. Inr (VText text))
    | TNumeric \<Rightarrow> (case v of
          JString text \<Rightarrow> Inr (VNumeric text)
        | JNumber number \<Rightarrow> Inr (VNumeric number)
        | _ \<Rightarrow> Inl (InvalidJson ''numeric'')))"

definition encode_sort_key_json :: "sort_ext \<Rightarrow> SortKeyType \<Rightarrow> json \<Rightarrow> SortKeyError + bytes" where
  "encode_sort_key_json x ty v = res_bind (parse_json_value x ty v) (encode_sort_key x)"

definition parse_pg_bool :: "string \<Rightarrow> SortKeyError + bool" where
  "parse_pg_bool text =
     (if text \<in> {''t'', ''true'', ''TRUE'', ''yes'', ''on'', ''1''} then Inr True
      else if text \<in> {''f'', ''false'', ''FALSE'', ''no'', ''off'', ''0''} then Inr False
      else Inl (InvalidJson ''bool''))"

fun ty_name :: "SortKeyType \<Rightarrow> string" where
  "ty_name TBool = ''bool''"
| "ty_name TInt2 = ''int2''"
| "ty_name TInt4 = ''int4''"
| "ty_name TInt8 = ''int8''"
| "ty_name TDate = ''date''"
| "ty_name TTimestamp = ''timestamp''"
| "ty_name TTimestamptz = ''timestamptz''"
| "ty_name TUuid = ''uuid''"
| "ty_name TText = ''text''"
| "ty_name TNumeric = ''numeric''"

definition pg_text_json :: "SortKeyType \<Rightarrow> string \<Rightarrow> SortKeyError + json" where
  "pg_text_json ty text =
     (if ty = TBool then res_bind (parse_pg_bool text) (\<lambda>b. Inr (JBool b))
      else if ty \<in> {TInt2, TInt4, TInt8} then
        res_bind (ok_or (InvalidJson (ty_name ty)) (parse_signed i64_min i64_max text))
          (\<lambda>n. Inr (number_of_int n))
      else Inr (JString text))"

definition encode_sort_key_pg_text :: "sort_ext \<Rightarrow> SortKeyType \<Rightarrow> string \<Rightarrow> SortKeyError + bytes" where
  "encode_sort_key_pg_text x ty text = res_bind (pg_text_json ty text) (encode_sort_key_json x ty)"

fun to_json :: "sort_ext \<Rightarrow> SortKeyValue \<Rightarrow> json" where
  "to_json x (VBool b) = JBool b"
| "to_json x (VInt2 n) = number_of_int n"
| "to_json x (VInt4 n) = number_of_int n"
| "to_json x (VInt8 n) = number_of_int n"
| "to_json x (VDate n) = number_of_int n"
| "to_json x (VTimestamp n) = number_of_int n"
| "to_json x (VTimestamptz n) = number_of_int n"
| "to_json x (VUuid u) = JString (uuid_to_string x u)"
| "to_json x (VText s) = JString s"
| "to_json x (VNumeric s) = JString s"

subsection \<open>What the code relies on of the parameters\<close>

fun kind_of :: "scalar \<Rightarrow> scalar_type" where
  "kind_of (SBool _) = KBool"
| "kind_of (SI16 _) = KI16"
| "kind_of (SI32 _) = KI32"
| "kind_of (SI64 _) = KI64"
| "kind_of (SUuid _) = KUuid"

fun scalar_less :: "scalar \<Rightarrow> scalar \<Rightarrow> bool" where
  "scalar_less (SBool a) (SBool b) = (a < b)"
| "scalar_less (SI16 a) (SI16 b) = (a < b)"
| "scalar_less (SI32 a) (SI32 b) = (a < b)"
| "scalar_less (SI64 a) (SI64 b) = (a < b)"
| "scalar_less (SUuid a) (SUuid b) = (a < b)"
| "scalar_less _ _ = False"

text \<open>Storekey's documented contract: every scalar of a supported type has an encoding, decoding inverts
  encoding, and at one type the byte order of the encodings is the order of the values.  The \<open>uuid\<close> crate
  parses what it prints.\<close>

fun scalar_ok :: "scalar \<Rightarrow> bool" where
  "scalar_ok (SBool b) = True"
| "scalar_ok (SI16 n) = in_i16 n"
| "scalar_ok (SI32 n) = in_i32 n"
| "scalar_ok (SI64 n) = in_i64 n"
| "scalar_ok (SUuid u) = (length u = 16)"

definition storekey_total :: "sort_ext \<Rightarrow> bool" where
  "storekey_total x \<longleftrightarrow> (\<forall>s. scalar_ok s \<longrightarrow> (\<exists>bs. encode_vec x s = Inr bs))"

definition storekey_inverse :: "sort_ext \<Rightarrow> bool" where
  "storekey_inverse x \<longleftrightarrow> (\<forall>s bs. encode_vec x s = Inr bs \<longrightarrow> decode_vec x (kind_of s) bs = Inr s)"

definition storekey_ordered :: "sort_ext \<Rightarrow> bool" where
  "storekey_ordered x \<longleftrightarrow>
     (\<forall>s t ks kt. kind_of s = kind_of t \<longrightarrow> encode_vec x s = Inr ks \<longrightarrow> encode_vec x t = Inr kt
        \<longrightarrow> (ks < kt \<longleftrightarrow> scalar_less s t))"

definition uuid_text_inverse :: "sort_ext \<Rightarrow> bool" where
  "uuid_text_inverse x \<longleftrightarrow>
     (\<forall>u. length u = 16 \<longrightarrow> uuid_parse_str x (uuid_to_string x u) = Some u)"

subsection \<open>Lemmas\<close>

lemma map_err_Inr [res_simps]: "map_err f r = Inr a \<longleftrightarrow> r = Inr a"
  by (cases r) (auto simp: map_err_def)

lemma try_parse_number_of_int: "in_i64 n \<Longrightarrow> try_parse_i64 (number_of_int n) = Some n"
  by (simp add: try_parse_i64_def)

lemma in_i64_weaken: "in_i16 n \<Longrightarrow> in_i64 n" "in_i32 n \<Longrightarrow> in_i64 n"
  by (auto simp: int_ranges)

lemma parse_json_value_to_json:
  assumes "wf_value v" "uuid_text_inverse x"
  shows "parse_json_value x (sort_key_type v) (to_json x v) = Inr v"
  using assms
  by (cases v)
    (simp_all add: parse_json_value_def parse_i64_def parse_date_days_def parse_timestamp_micros_def
      parse_timestamptz_micros_def try_parse_number_of_int in_i64_weaken ok_or_def
      uuid_text_inverse_def)

lemma decode_encode_sort_key:
  assumes "wf_value v" "sort_key_type v \<noteq> TNumeric" "storekey_inverse x"
    and "encode_sort_key x v = Inr k"
  shows "decode_sort_key x (sort_key_type v) k = Inr v"
proof -
  have dec: "decode_one x (kind_of s) bs = Inr s" if "encode_vec x s = Inr bs" for s bs
    using that assms(3) by (simp add: storekey_inverse_def decode_one_def map_err_def)
  show ?thesis
    using assms(1,2,4) dec [of "SBool _"] dec [of "SI16 _"] dec [of "SI32 _"] dec [of "SI64 _"]
      dec [of "SUuid _"]
    by (cases v) (auto simp: encode_sort_key_def decode_sort_key_def res_simps)
qed

lemma encode_sort_key_total:
  assumes "wf_value v" "sort_key_type v \<noteq> TNumeric" "storekey_total x"
  shows "\<exists>k. encode_sort_key x v = Inr k"
proof -
  have enc: "\<exists>bs. encode_vec x s = Inr bs" if "scalar_ok s" for s
    using that assms(3) by (simp add: storekey_total_def)
  show ?thesis
    using assms(1,2) enc [of "SBool _"] enc [of "SI16 _"] enc [of "SI32 _"] enc [of "SI64 _"] enc [of "SUuid _"]
    by (cases v) (simp_all add: encode_sort_key_def res_simps)
qed

text \<open>The order of two values of one type: text by its bytes, numerics by value.\<close>

definition value_less :: "SortKeyValue \<Rightarrow> SortKeyValue \<Rightarrow> bool" where
  "value_less v w = (case v of
      VBool a \<Rightarrow> (case w of VBool b \<Rightarrow> a < b | _ \<Rightarrow> False)
    | VInt2 a \<Rightarrow> (case w of VInt2 b \<Rightarrow> a < b | _ \<Rightarrow> False)
    | VInt4 a \<Rightarrow> (case w of VInt4 b \<Rightarrow> a < b | _ \<Rightarrow> False)
    | VInt8 a \<Rightarrow> (case w of VInt8 b \<Rightarrow> a < b | _ \<Rightarrow> False)
    | VDate a \<Rightarrow> (case w of VDate b \<Rightarrow> a < b | _ \<Rightarrow> False)
    | VTimestamp a \<Rightarrow> (case w of VTimestamp b \<Rightarrow> a < b | _ \<Rightarrow> False)
    | VTimestamptz a \<Rightarrow> (case w of VTimestamptz b \<Rightarrow> a < b | _ \<Rightarrow> False)
    | VUuid a \<Rightarrow> (case w of VUuid b \<Rightarrow> a < b | _ \<Rightarrow> False)
    | VText a \<Rightarrow> (case w of VText b \<Rightarrow> a < b | _ \<Rightarrow> False)
    | VNumeric a \<Rightarrow> (case w of VNumeric b \<Rightarrow> numeric_value a < numeric_value b | _ \<Rightarrow> False))"

lemma same_type_cases:
  assumes "sort_key_type v = sort_key_type w"
  obtains
    (VBool) a b where "v = VBool a" "w = VBool b"
  | (VInt2) a b where "v = VInt2 a" "w = VInt2 b"
  | (VInt4) a b where "v = VInt4 a" "w = VInt4 b"
  | (VInt8) a b where "v = VInt8 a" "w = VInt8 b"
  | (VDate) a b where "v = VDate a" "w = VDate b"
  | (VTimestamp) a b where "v = VTimestamp a" "w = VTimestamp b"
  | (VTimestamptz) a b where "v = VTimestamptz a" "w = VTimestamptz b"
  | (VUuid) a b where "v = VUuid a" "w = VUuid b"
  | (VText) a b where "v = VText a" "w = VText b"
  | (VNumeric) a b where "v = VNumeric a" "w = VNumeric b"
  using assms by (cases v; cases w; simp)

lemma encode_sort_key_less:
  assumes "storekey_ordered x" "sort_key_type v = sort_key_type w"
    and "encode_sort_key x v = Inr kv" "encode_sort_key x w = Inr kw"
  shows "kv < kw \<longleftrightarrow> value_less v w"
proof -
  have scalars: "ks < kt \<longleftrightarrow> scalar_less s t"
    if "encode_vec x s = Inr ks" "encode_vec x t = Inr kt" "kind_of s = kind_of t" for s t ks kt
    using that assms(1) by (simp add: storekey_ordered_def)
  note at_type = scalars [where s = "SBool a" and t = "SBool b" for a b, simplified]
    scalars [where s = "SI16 a" and t = "SI16 b" for a b, simplified]
    scalars [where s = "SI32 a" and t = "SI32 b" for a b, simplified]
    scalars [where s = "SI64 a" and t = "SI64 b" for a b, simplified]
    scalars [where s = "SUuid a" and t = "SUuid b" for a b, simplified]
  show ?thesis
    using assms(2,3,4)
    by (cases rule: same_type_cases)
      (auto simp: encode_sort_key_def value_less_def res_simps encode_numeric_key_order(1) at_type)
qed

subsection \<open>A concrete instance of the parameters\<close>

text \<open>Fixed-width big-endian encodings with the sign bit flipped meet the contract.\<close>

fun sample_encode :: "scalar \<Rightarrow> string + bytes" where
  "sample_encode (SBool b) = Inr [if b then 1 else 0]"
| "sample_encode (SI16 n) = (if in_i16 n then Inr (be_bytes 2 (nat (n - i16_min))) else Inl ''range'')"
| "sample_encode (SI32 n) = (if in_i32 n then Inr (be_bytes 4 (nat (n - i32_min))) else Inl ''range'')"
| "sample_encode (SI64 n) = (if in_i64 n then Inr (be_bytes 8 (nat (n - i64_min))) else Inl ''range'')"
| "sample_encode (SUuid u) = Inr u"

fun sample_decode :: "scalar_type \<Rightarrow> bytes \<Rightarrow> string + scalar" where
  "sample_decode KBool bs = Inr (SBool (bs = [1]))"
| "sample_decode KI16 bs = Inr (SI16 (int (from_be bs) + i16_min))"
| "sample_decode KI32 bs = Inr (SI32 (int (from_be bs) + i32_min))"
| "sample_decode KI64 bs = Inr (SI64 (int (from_be bs) + i64_min))"
| "sample_decode KUuid bs = Inr (SUuid bs)"

definition sample_ext :: sort_ext where
  "sample_ext = \<lparr>encode_vec = sample_encode, decode_vec = sample_decode,
     uuid_parse_str = (\<lambda>s. if length s = 16 then Some (utf8 s) else None),
     uuid_to_string = string_of_bytes,
     naive_date_unix_days = (\<lambda>_. None), rfc3339_unix_micros = (\<lambda>_. None),
     datetime_unix_micros = (\<lambda>_ _. None), naive_datetime_unix_micros = (\<lambda>_ _. None)\<rparr>"

lemma sample_inverse: "storekey_inverse sample_ext"
  unfolding storekey_inverse_def
proof (intro allI impI)
  fix s bs
  assume "encode_vec sample_ext s = Inr bs"
  moreover have "int (from_be (be_bytes 2 (nat (n - i16_min)))) + i16_min = n" if "in_i16 n" for n
    using that by (subst from_be_be_bytes) (auto simp: int_ranges)
  moreover have "int (from_be (be_bytes 4 (nat (n - i32_min)))) + i32_min = n" if "in_i32 n" for n
    using that by (subst from_be_be_bytes) (auto simp: int_ranges)
  moreover have "int (from_be (be_bytes 8 (nat (n - i64_min)))) + i64_min = n" if "in_i64 n" for n
    using that by (subst from_be_be_bytes) (auto simp: int_ranges)
  ultimately show "decode_vec sample_ext (kind_of s) bs = Inr s"
    by (cases s; simp add: sample_ext_def split: if_splits) auto
qed

lemma sample_ordered: "storekey_ordered sample_ext"
  unfolding storekey_ordered_def
proof (intro allI impI)
  fix s t ks kt
  assume "kind_of s = kind_of t" "encode_vec sample_ext s = Inr ks" "encode_vec sample_ext t = Inr kt"
  moreover have "be_bytes 2 (nat (a - i16_min)) < be_bytes 2 (nat (b - i16_min)) \<longleftrightarrow> a < b"
    if "in_i16 a" "in_i16 b" for a b
    using that by (subst be_bytes_less_iff) (auto simp: int_ranges)
  moreover have "be_bytes 4 (nat (a - i32_min)) < be_bytes 4 (nat (b - i32_min)) \<longleftrightarrow> a < b"
    if "in_i32 a" "in_i32 b" for a b
    using that by (subst be_bytes_less_iff) (auto simp: int_ranges)
  moreover have "be_bytes 8 (nat (a - i64_min)) < be_bytes 8 (nat (b - i64_min)) \<longleftrightarrow> a < b"
    if "in_i64 a" "in_i64 b" for a b
    using that by (subst be_bytes_less_iff) (auto simp: int_ranges)
  ultimately show "ks < kt \<longleftrightarrow> scalar_less s t"
    by (cases s; cases t; simp add: sample_ext_def split: if_splits) auto
qed

lemma sample_uuid: "uuid_text_inverse sample_ext"
  by (simp add: uuid_text_inverse_def sample_ext_def) (simp add: string_of_bytes_def)

lemma sample_total: "storekey_total sample_ext"
  unfolding storekey_total_def
proof (intro allI impI)
  fix s
  assume "scalar_ok s"
  then show "\<exists>bs. encode_vec sample_ext s = Inr bs"
    by (cases s) (simp_all add: sample_ext_def)
qed

text \<open>C2: encoding the JSON shape of a value is encoding the value, with the same result or error, at every
  type.  At every type but \<open>numeric\<close> the encoding succeeds and decoding the bytes at that type returns the
  value; \<open>numeric\<close> keys are one-way: decoding any bytes at that type is an error.  Storekey is assumed to
  encode every scalar and to decode what it encodes, and UUIDs to parse what they print.\<close>

theorem sort_key_json_round_trip:
  assumes "wf_value v"
    and "storekey_total x" and "storekey_inverse x" and "uuid_text_inverse x"
  shows "encode_sort_key_json x (sort_key_type v) (to_json x v) = encode_sort_key x v
    \<and> (if sort_key_type v = TNumeric
       then decode_sort_key x (sort_key_type v) bytes = Inl (Decode ''numeric sort keys cannot be decoded'')
       else \<exists>k. encode_sort_key x v = Inr k \<and> decode_sort_key x (sort_key_type v) k = Inr v)"
proof -
  have "\<exists>k. encode_sort_key x v = Inr k \<and> decode_sort_key x (sort_key_type v) k = Inr v"
    if "sort_key_type v \<noteq> TNumeric"
    using encode_sort_key_total [OF assms(1) that assms(2)] decode_encode_sort_key [OF assms(1) that assms(3)] by blast
  then show ?thesis
    using parse_json_value_to_json [OF assms(1,4)] by (simp add: encode_sort_key_json_def decode_sort_key_def)
qed

theorem sort_key_json_round_trip_witness:
  "encode_sort_key_json sample_ext TInt2 (number_of_int (-7)) = Inr [0x7F, 0xF9]
   \<and> decode_sort_key sample_ext TInt2 [0x7F, 0xF9] = Inr (VInt2 (-7))
   \<and> decode_sort_key sample_ext TNumeric [0x20] = Inl (Decode ''numeric sort keys cannot be decoded'')"
proof -
  have "encode_sort_key sample_ext (VInt2 (-7)) = Inr [0x7F, 0xF9]"
    by (simp add: encode_sort_key_def sample_ext_def map_err_def int_ranges be_bytes_numeral)
  moreover have "wf_value (VInt2 (-7))"
    by (simp add: int_ranges)
  ultimately show ?thesis
    using sort_key_json_round_trip [of "VInt2 (-7)" sample_ext "[]"]
      sort_key_json_round_trip [of "VNumeric ''1''" sample_ext "[0x20]"]
      sample_total sample_inverse sample_uuid
    by simp
qed

end
