(* ===== verification/Key_Bounds.thy ===== *)
theory Key_Bounds
  imports Sort_Key_Encode
begin

text \<open>
  Tuple-level bounds of a segment's primary key (\<open>koldstore-parquet/src/key_bounds.rs\<close> and
  \<open>encode_row\<close> of \<open>value_summary.rs\<close>): each key column is encoded, framed so that concatenation
  keeps the lexicographic order, and the smallest and largest tuple of the segment are kept.
\<close>

subsection \<open>Framing\<close>

definition escape :: "bytes \<Rightarrow> bytes" where
  "escape bs = concat (map (\<lambda>b. if b = 0 then [b, 0xFF] else [b]) bs)"

definition frame_component :: "bytes \<Rightarrow> bytes \<Rightarrow> bytes" where
  "frame_component out bs = out @ escape bs @ [0x00, 0x01]"

definition frame_tuple :: "bytes list \<Rightarrow> bytes" where
  "frame_tuple comps = foldl frame_component [] comps"

lemma escape_simps [simp]:
  "escape [] = []" "escape (b # bs) = (if b = 0 then [b, 0xFF] else [b]) @ escape bs"
  by (simp_all add: escape_def)

lemma frame_tuple_simps [simp]:
  "frame_tuple [] = []" "frame_tuple (c # cs) = escape c @ [0, 1] @ frame_tuple cs"
proof -
  have "foldl frame_component out cs = out @ foldl frame_component [] cs" for out cs
    by (induction cs rule: rev_induct) (simp_all add: frame_component_def)
  from this [of "frame_component [] c" cs]
  show "frame_tuple (c # cs) = escape c @ [0, 1] @ frame_tuple cs"
    by (simp add: frame_tuple_def frame_component_def)
qed (simp add: frame_tuple_def)

lemma word_pos_iff: "0 < b \<longleftrightarrow> b \<noteq> 0" for b :: u8
  by (simp add: word_neq_0_conv)

lemma framed_less:
  "escape x @ [0, 1] @ r < escape y @ [0, 1] @ s \<longleftrightarrow> x < y \<or> x = y \<and> r < s"
proof (induction x arbitrary: y)
  case Nil
  then show ?case
    by (cases y) (auto simp: word_pos_iff)
next
  case (Cons a x)
  then show ?case
    by (cases y) (auto simp: word_pos_iff)
qed

lemma frame_tuple_less:
  "length as = length bs \<Longrightarrow> frame_tuple as < frame_tuple bs \<longleftrightarrow> as < bs"
  by (induction as bs rule: list_induct2) (simp_all add: framed_less [simplified])

lemma frame_tuple_inj:
  assumes "length as = length bs" "frame_tuple as = frame_tuple bs"
  shows "as = bs"
  using frame_tuple_less [of as bs] frame_tuple_less [of bs as] assms
  by (cases as bs rule: linorder_cases) auto

subsection \<open>Arrow batches\<close>

text \<open>The Arrow arrays the code reads, a cell being \<open>None\<close> for null; any other type is \<open>AOther\<close>.\<close>

datatype arrow =
    Int16Array "int option list"
  | Int32Array "int option list"
  | Int64Array "int option list"
  | StringArray "string option list"
  | Date32Array "int option list"
  | TimestampMicrosecondArray "int option list"
  | AOther "bool list"

fun is_null :: "arrow \<Rightarrow> nat \<Rightarrow> bool" where
  "is_null (Int16Array xs) i = (xs ! i = None)"
| "is_null (Int32Array xs) i = (xs ! i = None)"
| "is_null (Int64Array xs) i = (xs ! i = None)"
| "is_null (StringArray xs) i = (xs ! i = None)"
| "is_null (Date32Array xs) i = (xs ! i = None)"
| "is_null (TimestampMicrosecondArray xs) i = (xs ! i = None)"
| "is_null (AOther nulls) i = nulls ! i"

record batch =
  columns :: "(string \<times> arrow) list"
  num_rows :: nat

datatype bounds_error =
    Unexpected_arrow_type | Unsupported_type | Codec SortKeyError | Missing_column | Null_key
  | No_columns

definition encode_row ::
    "sort_ext \<Rightarrow> arrow \<Rightarrow> SortKeyType \<Rightarrow> nat \<Rightarrow> bounds_error + bytes option" where
  "encode_row x array ty index =
     (if is_null array index then Inr None
      else let encode = (\<lambda>v. map_err Codec (encode_sort_key x v))
        in res_bind (case ty of
              TInt2 \<Rightarrow> (case array of
                  Int16Array xs \<Rightarrow> encode (VInt2 (the (xs ! index)))
                | _ \<Rightarrow> Inl Unexpected_arrow_type)
            | TInt4 \<Rightarrow> (case array of
                  Int32Array xs \<Rightarrow> encode (VInt4 (the (xs ! index)))
                | _ \<Rightarrow> Inl Unexpected_arrow_type)
            | TInt8 \<Rightarrow> (case array of
                  Int64Array xs \<Rightarrow> encode (VInt8 (the (xs ! index)))
                | _ \<Rightarrow> Inl Unexpected_arrow_type)
            | TUuid \<Rightarrow> (case array of
                  StringArray xs \<Rightarrow> map_err Codec (encode_sort_key_pg_text x TUuid (the (xs ! index)))
                | _ \<Rightarrow> Inl Unexpected_arrow_type)
            | TDate \<Rightarrow> (case array of
                  Date32Array xs \<Rightarrow> encode (VDate (unix_days_to_pg (the (xs ! index))))
                | _ \<Rightarrow> Inl Unexpected_arrow_type)
            | TTimestamp \<Rightarrow> (case array of
                  TimestampMicrosecondArray xs \<Rightarrow>
                    encode (VTimestamp (unix_micros_to_pg (the (xs ! index))))
                | _ \<Rightarrow> Inl Unexpected_arrow_type)
            | TTimestamptz \<Rightarrow> (case array of
                  TimestampMicrosecondArray xs \<Rightarrow>
                    encode (VTimestamptz (unix_micros_to_pg (the (xs ! index))))
                | _ \<Rightarrow> Inl Unexpected_arrow_type)
            | _ \<Rightarrow> Inl Unsupported_type)
           (\<lambda>bs. Inr (Some bs)))"

definition supports_key_bounds :: "SortKeyType \<Rightarrow> bool" where
  "supports_key_bounds ty \<longleftrightarrow> ty \<noteq> TBool"

definition encode_component ::
    "sort_ext \<Rightarrow> arrow \<Rightarrow> SortKeyType \<Rightarrow> nat \<Rightarrow> bounds_error + bytes option" where
  "encode_component x array ty index =
     (if ty = TText \<or> ty = TNumeric then
        if is_null array index then Inr None
        else (case array of
            StringArray xs \<Rightarrow>
              (let text = the (xs ! index)
               in if ty = TNumeric then
                    res_bind (map_err Codec (encode_numeric_key text)) (\<lambda>bs. Inr (Some bs))
                  else Inr (Some (utf8 text)))
          | _ \<Rightarrow> Inl Unexpected_arrow_type)
      else encode_row x array ty index)"

subsection \<open>The builder\<close>

record KeyBoundsBuilder =
  kb_min :: "bytes option"
  kb_max :: "bytes option"
  kb_rows :: nat

definition kb_new :: KeyBoundsBuilder where
  "kb_new = \<lparr>kb_min = None, kb_max = None, kb_rows = 0\<rparr>"

text \<open>The key of one row: the inner loop over the key columns.\<close>

fun row_key ::
    "sort_ext \<Rightarrow> ((string \<times> SortKeyType) \<times> arrow) list \<Rightarrow> nat \<Rightarrow> bytes \<Rightarrow> bounds_error + bytes" where
  "row_key x [] index key = Inr key"
| "row_key x (((name, ty), array) # cols) index key =
     res_bind (encode_component x array ty index) (\<lambda>comp. case comp of
         None \<Rightarrow> Inl Null_key
       | Some bs \<Rightarrow> row_key x cols index (frame_component key bs))"

definition kb_add_key :: "bytes \<Rightarrow> KeyBoundsBuilder \<Rightarrow> KeyBoundsBuilder" where
  "kb_add_key key b =
     (let b1 = (if (case kb_min b of None \<Rightarrow> True | Some m \<Rightarrow> key < m)
                then b\<lparr>kb_min := Some key\<rparr> else b);
          b2 = (if (case kb_max b1 of None \<Rightarrow> True | Some m \<Rightarrow> m < key)
                then b1\<lparr>kb_max := Some key\<rparr> else b1)
      in b2\<lparr>kb_rows := kb_rows b2 + 1\<rparr>)"

text \<open>The row loop returns the builder it has reached together with the outcome.\<close>

fun kb_add_rows ::
    "sort_ext \<Rightarrow> ((string \<times> SortKeyType) \<times> arrow) list \<Rightarrow> nat list \<Rightarrow> KeyBoundsBuilder
     \<Rightarrow> KeyBoundsBuilder \<times> (bounds_error + unit)" where
  "kb_add_rows x cols [] b = (b, Inr ())"
| "kb_add_rows x cols (i # is) b =
     (case row_key x cols i [] of
        Inl e \<Rightarrow> (b, Inl e)
      | Inr key \<Rightarrow> kb_add_rows x cols is (kb_add_key key b))"

definition key_arrays ::
    "batch \<Rightarrow> (string \<times> SortKeyType) list \<Rightarrow> bounds_error + arrow list" where
  "key_arrays bt cols = res_list (\<lambda>(name, _). ok_or Missing_column (map_of (columns bt) name)) cols"

definition kb_add_batch ::
    "sort_ext \<Rightarrow> batch \<Rightarrow> (string \<times> SortKeyType) list \<Rightarrow> KeyBoundsBuilder
     \<Rightarrow> KeyBoundsBuilder \<times> (bounds_error + unit)" where
  "kb_add_batch x bt cols b =
     (if cols = [] then (b, Inl No_columns)
      else case key_arrays bt cols of
          Inl e \<Rightarrow> (b, Inl e)
        | Inr arrays \<Rightarrow> kb_add_rows x (zip cols arrays) [0..<num_rows bt] b)"

definition kb_finish :: "nat \<Rightarrow> KeyBoundsBuilder \<Rightarrow> (bytes \<times> bytes) option" where
  "kb_finish row_count b =
     (if kb_rows b \<noteq> row_count then None
      else case (kb_min b, kb_max b) of (Some mn, Some mx) \<Rightarrow> Some (mn, mx) | _ \<Rightarrow> None)"

text \<open>
  The loop of \<open>rebuild_key_bounds_from_parquet\<close>.  The Parquet reader is a parameter: its schema check
  and the batches (or read errors) it yields.
\<close>

datatype rebuild_error = Cannot_read | Not_in_object | Bounds bounds_error

fun rebuild_loop ::
    "sort_ext \<Rightarrow> (string \<times> SortKeyType) list \<Rightarrow> (unit + batch) list \<Rightarrow> nat \<Rightarrow> KeyBoundsBuilder
     \<Rightarrow> rebuild_error + (nat \<times> KeyBoundsBuilder)" where
  "rebuild_loop x cols [] rows b = Inr (rows, b)"
| "rebuild_loop x cols (Inl _ # rest) rows b = Inl Cannot_read"
| "rebuild_loop x cols (Inr bt # rest) rows b =
     (case kb_add_batch x bt cols b of
        (_, Inl e) \<Rightarrow> Inl (Bounds e)
      | (b', Inr _) \<Rightarrow> rebuild_loop x cols rest (rows + num_rows bt) b')"

definition rebuild_key_bounds_from_parquet ::
    "sort_ext \<Rightarrow> (string \<Rightarrow> bool) \<Rightarrow> (unit + batch) list \<Rightarrow> (string \<times> SortKeyType) list
     \<Rightarrow> rebuild_error + (bytes \<times> bytes) option" where
  "rebuild_key_bounds_from_parquet x in_schema reader cols =
     (if \<not> list_all (\<lambda>(name, _). in_schema name) cols then Inl Not_in_object
      else res_bind (rebuild_loop x cols reader 0 kb_new)
             (\<lambda>(rows, b). Inr (kb_finish rows b)))"

subsection \<open>Order codecs\<close>

text \<open>What a client of an order-preserving encoding relies on: comparing bytes is comparing values.\<close>

locale order_codec =
  fixes valid :: "'a \<Rightarrow> bool" and enc :: "'a \<Rightarrow> bytes" and less :: "'a \<Rightarrow> 'a \<Rightarrow> bool"
  assumes enc_less: "\<lbrakk>valid a; valid b\<rbrakk> \<Longrightarrow> enc a < enc b \<longleftrightarrow> less a b"
begin

lemma separated:
  assumes "list_all valid as" "list_all valid bs" "a \<in> set as" "b \<in> set bs"
    and "Max (enc ` set as) < Min (enc ` set bs)"
  shows "less a b"
proof -
  have "enc a \<le> Max (enc ` set as)" "Min (enc ` set bs) \<le> enc b"
    using assms by auto
  then have "enc a < enc b"
    using assms(5) by order
  then show ?thesis
    using assms(1-4) enc_less [of a b] by (auto simp: list_all_iff)
qed

lemma outside:
  assumes "list_all valid as" "valid v" "a \<in> set as" "enc v < Min (enc ` set as)"
  shows "less v a"
  using separated [of "[v]" as v a] assms by auto

end

interpretation tuple_codec: order_codec "\<lambda>t. length t = n" frame_tuple "(<)" for n
  by unfold_locales (simp add: frame_tuple_less)

interpretation numeric_codec:
  order_codec canon_ok canon_key "\<lambda>c d. canon_value c < canon_value d"
proof
  fix c d
  assume "canon_ok c" "canon_ok d"
  then show "canon_key c < canon_key d \<longleftrightarrow> canon_value c < canon_value d"
    using canon_order [of c d] canon_order [of d c] canon_inj [of c d]
    by (cases "canon_value c" "canon_value d" rule: linorder_cases) auto
qed

subsection \<open>The builder keeps the extremes\<close>

definition kb_holds :: "bytes list \<Rightarrow> KeyBoundsBuilder \<Rightarrow> bool" where
  "kb_holds ks b \<longleftrightarrow> kb_rows b = length ks
     \<and> kb_min b = (if ks = [] then None else Some (Min (set ks)))
     \<and> kb_max b = (if ks = [] then None else Some (Max (set ks)))"

lemma kb_holds_new [simp]: "kb_holds [] kb_new"
  by (simp add: kb_holds_def kb_new_def)

lemma kb_add_key_sel:
  "kb_min (kb_add_key k b) = Some (case kb_min b of None \<Rightarrow> k | Some m \<Rightarrow> min k m)"
  "kb_max (kb_add_key k b) = Some (case kb_max b of None \<Rightarrow> k | Some m \<Rightarrow> max k m)"
  "kb_rows (kb_add_key k b) = Suc (kb_rows b)"
  by (auto simp: kb_add_key_def Let_def min_def max_def split: option.splits)

lemma kb_holds_add: "kb_holds ks b \<Longrightarrow> kb_holds (ks @ [k]) (kb_add_key k b)"
  by (cases "ks = []") (simp_all add: kb_holds_def kb_add_key_sel)

text \<open>The tuple of components of a row, which \<open>row_key\<close> frames.\<close>

definition row_tuple ::
    "sort_ext \<Rightarrow> ((string \<times> SortKeyType) \<times> arrow) list \<Rightarrow> nat \<Rightarrow> bounds_error + bytes list" where
  "row_tuple x cols index =
     res_list (\<lambda>((_, ty), array). res_bind (encode_component x array ty index) (ok_or Null_key)) cols"

lemma row_key_tuple:
  "row_key x cols index key = res_bind (row_tuple x cols index) (\<lambda>t. Inr (key @ frame_tuple t))"
proof (induction x cols index key rule: row_key.induct)
  case (2 x name ty array cols index key)
  show ?case
  proof (cases "encode_component x array ty index")
    case (Inr c)
    then show ?thesis
      using 2 by (cases c; cases "row_tuple x cols index")
        (auto simp: row_tuple_def ok_or_def frame_component_def)
  qed (simp add: row_tuple_def)
qed (simp add: row_tuple_def)

lemma row_tuple_length: "row_tuple x cols index = Inr t \<Longrightarrow> length t = length cols"
  by (auto simp: row_tuple_def res_list_Inr_iff dest: list_all2_lengthD)

lemma kb_add_rows_holds:
  assumes "kb_add_rows x cols is b = (b', Inr ())" "kb_holds (map frame_tuple ts) b"
    and "list_all (\<lambda>t. length t = length cols) ts"
  shows "\<exists>us. length us = length is \<and> list_all (\<lambda>t. length t = length cols) us
           \<and> list_all2 (\<lambda>i u. row_tuple x cols i = Inr u) is us
           \<and> kb_holds (map frame_tuple (ts @ us)) b'"
  using assms
proof (induction x cols "is" b arbitrary: ts rule: kb_add_rows.induct)
  case (2 x cols i "is" b)
  then obtain t where t: "row_tuple x cols i = Inr t" "row_key x cols i [] = Inr (frame_tuple t)"
    by (auto simp: row_key_tuple split: sum.splits elim: res_bind.elims)
  obtain us where "length us = length is" "list_all (\<lambda>t. length t = length cols) us"
    "list_all2 (\<lambda>i u. row_tuple x cols i = Inr u) is us"
    "kb_holds (map frame_tuple ((ts @ [t]) @ us)) b'"
    using 2(1) [OF t(2), of "ts @ [t]"] 2(2-4) t kb_holds_add row_tuple_length [OF t(1)] by auto
  then show ?case
    using t row_tuple_length [OF t(1)] by (intro exI [of _ "t # us"]) auto
qed auto

subsection \<open>Bounds of a segment\<close>

text \<open>The reference: the component tuples of all rows of a segment, in order.\<close>

fun segment_tuples ::
    "sort_ext \<Rightarrow> (string \<times> SortKeyType) list \<Rightarrow> batch list \<Rightarrow> bounds_error + bytes list list" where
  "segment_tuples x cols [] = Inr []"
| "segment_tuples x cols (bt # rest) =
     res_bind (key_arrays bt cols) (\<lambda>arrays.
     res_bind (res_list (row_tuple x (zip cols arrays)) [0..<num_rows bt]) (\<lambda>us.
     res_bind (segment_tuples x cols rest) (\<lambda>ts. Inr (us @ ts))))"

lemma key_arrays_length: "key_arrays bt cols = Inr arrays \<Longrightarrow> length arrays = length cols"
  by (auto simp: key_arrays_def res_list_Inr_iff dest: list_all2_lengthD)

lemma kb_add_batch_holds:
  assumes "kb_add_batch x bt cols b = (b', Inr ())" "kb_holds (map frame_tuple ts) b"
    and "list_all (\<lambda>t. length t = length cols) ts"
  shows "\<exists>arrays us. key_arrays bt cols = Inr arrays
           \<and> res_list (row_tuple x (zip cols arrays)) [0..<num_rows bt] = Inr us
           \<and> list_all (\<lambda>t. length t = length cols) us
           \<and> kb_holds (map frame_tuple (ts @ us)) b' \<and> length us = num_rows bt"
proof -
  obtain arrays where arrays: "key_arrays bt cols = Inr arrays"
    and add: "kb_add_rows x (zip cols arrays) [0..<num_rows bt] b = (b', Inr ())"
    using assms(1) by (auto simp: kb_add_batch_def split: if_splits sum.splits)
  have "length (zip cols arrays) = length cols"
    using key_arrays_length [OF arrays] by simp
  then show ?thesis
    using kb_add_rows_holds [OF add assms(2)] assms(3) arrays by (auto simp: res_list_Inr_iff)
qed

lemma rebuild_loop_holds:
  assumes "rebuild_loop x cols (map Inr bts) rows b = Inr (n, b')" "kb_holds (map frame_tuple ts) b"
    and "list_all (\<lambda>t. length t = length cols) ts" "rows = length ts"
  shows "\<exists>us. segment_tuples x cols bts = Inr us \<and> list_all (\<lambda>t. length t = length cols) (ts @ us)
           \<and> kb_holds (map frame_tuple (ts @ us)) b' \<and> n = length (ts @ us)"
  using assms
proof (induction bts arbitrary: rows b ts)
  case (Cons bt bts)
  obtain b1 where b1: "kb_add_batch x bt cols b = (b1, Inr ())"
    and rest: "rebuild_loop x cols (map Inr bts) (rows + num_rows bt) b1 = Inr (n, b')"
    using Cons.prems(1) by (auto split: prod.splits sum.splits)
  obtain arrays us where us: "key_arrays bt cols = Inr arrays"
    "res_list (row_tuple x (zip cols arrays)) [0..<num_rows bt] = Inr us"
    "list_all (\<lambda>t. length t = length cols) us" "kb_holds (map frame_tuple (ts @ us)) b1"
    "length us = num_rows bt"
    using kb_add_batch_holds [OF b1 Cons.prems(2,3)] by blast
  show ?case
    using Cons.IH [OF rest us(4)] us Cons.prems(3,4) by auto
qed auto

lemma rebuild_tuples:
  assumes "rebuild_key_bounds_from_parquet x in_schema (map Inr bts) cols = Inr r"
  shows "\<exists>ts. segment_tuples x cols bts = Inr ts \<and> list_all (\<lambda>t. length t = length cols) ts
           \<and> r = (if ts = [] then None
                  else Some (Min (frame_tuple ` set ts), Max (frame_tuple ` set ts)))"
proof -
  obtain n b where "rebuild_loop x cols (map Inr bts) 0 kb_new = Inr (n, b)"
    and r: "r = kb_finish n b"
    using assms by (auto simp: rebuild_key_bounds_from_parquet_def res_simps split: if_splits)
  then obtain ts where "segment_tuples x cols bts = Inr ts" "list_all (\<lambda>t. length t = length cols) ts"
    "kb_holds (map frame_tuple ts) b" "n = length ts"
    using rebuild_loop_holds [of x cols bts 0 kb_new n b "[]"] by auto
  then show ?thesis
    using r by (auto simp: kb_finish_def kb_holds_def)
qed

lemma frame_tuple_extremes:
  assumes "list_all (\<lambda>t. length t = n) ts" "ts \<noteq> []"
  shows "Min (frame_tuple ` set ts) = frame_tuple (Min (set ts))"
    and "Max (frame_tuple ` set ts) = frame_tuple (Max (set ts))"
proof -
  have le: "frame_tuple t \<le> frame_tuple u \<longleftrightarrow> t \<le> u" if "t \<in> set ts" "u \<in> set ts" for t u
    using that assms(1) frame_tuple_less [of u t] by (auto simp: list_all_iff not_less [symmetric])
  have in_ts: "Min (set ts) \<in> set ts" "Max (set ts) \<in> set ts"
    using assms(2) by auto
  show "Min (frame_tuple ` set ts) = frame_tuple (Min (set ts))"
    using in_ts le by (intro Min_eqI) auto
  show "Max (frame_tuple ` set ts) = frame_tuple (Max (set ts))"
    using in_ts le by (intro Max_eqI) auto
qed

text \<open>C4: the recomputed bounds of a segment are the framed smallest and largest key tuples of its
  rows in lexicographic order, and there are none exactly for a segment without rows.\<close>

theorem key_bounds_exact:
  assumes "rebuild_key_bounds_from_parquet x in_schema (map Inr bts) cols = Inr r"
  shows "\<exists>ts. segment_tuples x cols bts = Inr ts
           \<and> r = (if ts = [] then None
                  else Some (frame_tuple (Min (set ts)), frame_tuple (Max (set ts))))"
  using rebuild_tuples [OF assms] frame_tuple_extremes by auto

text \<open>C5: with tuple bounds the disjointness test is exact: the largest key of one segment is below the
  smallest of another, as bytes, iff every key tuple of the one precedes every key tuple of the other.\<close>

theorem key_bounds_separate:
  assumes "rebuild_key_bounds_from_parquet x s1 (map Inr as) cols = Inr (Some (mn1, mx1))"
    and "rebuild_key_bounds_from_parquet x s2 (map Inr bs) cols = Inr (Some (mn2, mx2))"
    and "segment_tuples x cols as = Inr ts" and "segment_tuples x cols bs = Inr us"
  shows "mx1 < mn2 \<longleftrightarrow> (\<forall>t\<in>set ts. \<forall>u\<in>set us. t < u)"
proof -
  have ts: "list_all (\<lambda>t. length t = length cols) ts" "ts \<noteq> []" "mx1 = Max (frame_tuple ` set ts)"
    using rebuild_tuples [OF assms(1)] assms(3) by (auto split: if_splits)
  have us: "list_all (\<lambda>t. length t = length cols) us" "us \<noteq> []" "mn2 = Min (frame_tuple ` set us)"
    using rebuild_tuples [OF assms(2)] assms(4) by (auto split: if_splits)
  have "mx1 < mn2" if all: "\<forall>t\<in>set ts. \<forall>u\<in>set us. t < u"
  proof -
    have "mx1 \<in> frame_tuple ` set ts" "mn2 \<in> frame_tuple ` set us"
      unfolding ts(3) us(3) by (rule Max_in Min_in; use ts(2) us(2) in simp)+
    then obtain t u where "t \<in> set ts" "mx1 = frame_tuple t" "u \<in> set us" "mn2 = frame_tuple u"
      by blast
    then show ?thesis
      using all ts(1) us(1) frame_tuple_less [of t u] by (auto simp: list_all_iff)
  qed
  then show ?thesis
    using tuple_codec.separated [OF ts(1) us(1)] ts(3) us(3) by blast
qed

text \<open>A composite key (an \<open>integer\<close> tenant and a \<open>bigint\<close> id), with small concrete segments.\<close>

definition sample_cols :: "(string \<times> SortKeyType) list" where
  "sample_cols = [(''tenant'', TInt4), (''id'', TInt8)]"

definition sample_batch :: "int list \<Rightarrow> int list \<Rightarrow> batch" where
  "sample_batch tenants ids =
     \<lparr>columns = [(''tenant'', Int32Array (map Some tenants)), (''id'', Int64Array (map Some ids))],
      num_rows = length ids\<rparr>"

lemmas sample_eval = rebuild_key_bounds_from_parquet_def sample_cols_def sample_batch_def
  kb_add_batch_def key_arrays_def kb_new_def kb_add_key_def kb_finish_def encode_component_def
  encode_row_def encode_sort_key_def sample_ext_def map_err_def ok_or_def row_tuple_def
  int_ranges be_bytes_numeral frame_component_def

lemma sample_low:
  "rebuild_key_bounds_from_parquet sample_ext (\<lambda>_. True) (map Inr [sample_batch [3] [49]]) sample_cols
   = Inr (Some ([0x80, 0, 255, 0, 255, 3, 0, 1, 0x80, 0, 255, 0, 255, 0, 255, 0, 255, 0, 255, 0, 255, 49, 0, 1],
                [0x80, 0, 255, 0, 255, 3, 0, 1, 0x80, 0, 255, 0, 255, 0, 255, 0, 255, 0, 255, 0, 255, 49, 0, 1]))"
  by (simp add: sample_eval)

lemma sample_high:
  "rebuild_key_bounds_from_parquet sample_ext (\<lambda>_. True) (map Inr [sample_batch [3] [50]]) sample_cols
   = Inr (Some ([0x80, 0, 255, 0, 255, 3, 0, 1, 0x80, 0, 255, 0, 255, 0, 255, 0, 255, 0, 255, 0, 255, 50, 0, 1],
                [0x80, 0, 255, 0, 255, 3, 0, 1, 0x80, 0, 255, 0, 255, 0, 255, 0, 255, 0, 255, 0, 255, 50, 0, 1]))"
  by (simp add: sample_eval)

lemma sample_low_tuples:
  "segment_tuples sample_ext sample_cols [sample_batch [3] [49]]
   = Inr [[[0x80, 0, 0, 3], [0x80, 0, 0, 0, 0, 0, 0, 49]]]"
  by (simp add: sample_eval)

lemma sample_high_tuples:
  "segment_tuples sample_ext sample_cols [sample_batch [3] [50]]
   = Inr [[[0x80, 0, 0, 3], [0x80, 0, 0, 0, 0, 0, 0, 50]]]"
  by (simp add: sample_eval)

theorem key_bounds_exact_witness:
  "\<exists>ts. segment_tuples sample_ext sample_cols [sample_batch [3] [49]] = Inr ts \<and> ts \<noteq> []
    \<and> frame_tuple (Min (set ts))
        = [0x80, 0, 255, 0, 255, 3, 0, 1, 0x80, 0, 255, 0, 255, 0, 255, 0, 255, 0, 255, 0, 255, 49, 0, 1]"
  using key_bounds_exact [OF sample_low] by (auto split: if_splits)

theorem key_bounds_separate_witness:
  "[0x80, 0, 255, 0, 255, 3, 0, 1, 0x80, 0, 255, 0, 255, 0, 255, 0, 255, 0, 255, 0, 255, 49, 0, 1]
     < [0x80, 0, 255, 0, 255, 3, 0, 1, 0x80, 0, 255, 0, 255, 0, 255, 0, 255, 0, 255, 0, 255, 50, 0, 1 :: u8]
   \<and> [[0x80, 0, 0, 3], [0x80, 0, 0, 0, 0, 0, 0, 49]]
     < [[0x80, 0, 0, 3], [0x80, 0, 0, 0, 0, 0, 0, 50 :: u8]]"
  using key_bounds_separate [OF sample_low sample_high sample_low_tuples sample_high_tuples] by simp

end
