(* ===== verification/Value_Summary.thy ===== *)
theory Value_Summary
  imports Key_Bounds
begin

text \<open>
  Value summaries (\<open>koldstore-sortkey/src/summary.rs\<close>): a one-hash membership bitmap over encoded
  values, and its construction from the key columns of a segment
  (\<open>koldstore-parquet/src/value_summary.rs\<close>).  The contract is that a probe never misses a value
  that was inserted.
\<close>

unbundle bit_operations_syntax

subsection \<open>Hash\<close>

definition SUMMARY_MAX_BYTES :: nat where "SUMMARY_MAX_BYTES = 8 * 1024"
definition SUMMARY_MAX_ROWS :: nat where "SUMMARY_MAX_ROWS = SUMMARY_MAX_BYTES * 8 div 2"
definition BITS_PER_ROW :: nat where "BITS_PER_ROW = 16"
definition MIN_BITS :: nat where "MIN_BITS = 64"

lemmas summary_consts = SUMMARY_MAX_BYTES_def SUMMARY_MAX_ROWS_def BITS_PER_ROW_def MIN_BITS_def

definition fnv1a :: "bytes \<Rightarrow> u64" where
  "fnv1a encoded =
     foldl (\<lambda>hash byte. (hash XOR ucast byte) * 0x00000100000001b3) 0xcbf29ce484222325 encoded"

definition splitmix :: "u64 \<Rightarrow> u64" where
  "splitmix hash0 =
     (let hash1 = hash0 + 0x9e3779b97f4a7c15;
          hash2 = (hash1 XOR drop_bit 30 hash1) * 0xbf58476d1ce4e5b9;
          hash3 = (hash2 XOR drop_bit 27 hash2) * 0x94d049bb133111eb
      in drop_bit 1 (hash3 XOR drop_bit 31 hash3))"

definition summary_hash :: "bytes \<Rightarrow> u64" where
  "summary_hash encoded = splitmix (fnv1a encoded)"

subsection \<open>Builder\<close>

record ValueSummaryBuilder =
  hashes :: "u64 list"
  overflowed :: bool

definition vsb_new :: ValueSummaryBuilder where
  "vsb_new = \<lparr>hashes = [], overflowed = False\<rparr>"

definition vsb_insert :: "bytes \<Rightarrow> ValueSummaryBuilder \<Rightarrow> ValueSummaryBuilder" where
  "vsb_insert encoded b =
     (if overflowed b then b
      else if SUMMARY_MAX_ROWS \<le> length (hashes b) then b\<lparr>overflowed := True, hashes := []\<rparr>
      else b\<lparr>hashes := hashes b @ [summary_hash encoded]\<rparr>)"

definition vsb_insert_hash :: "u64 \<Rightarrow> ValueSummaryBuilder \<Rightarrow> ValueSummaryBuilder" where
  "vsb_insert_hash hash b =
     (if overflowed b then b
      else if SUMMARY_MAX_ROWS \<le> length (hashes b) then b\<lparr>overflowed := True, hashes := []\<rparr>
      else b\<lparr>hashes := hashes b @ [hash]\<rparr>)"

definition vsb_len :: "ValueSummaryBuilder \<Rightarrow> nat" where
  "vsb_len b = length (hashes b)"

definition vsb_is_empty :: "ValueSummaryBuilder \<Rightarrow> bool" where
  "vsb_is_empty b \<longleftrightarrow> hashes b = []"

definition next_multiple_of :: "nat \<Rightarrow> nat \<Rightarrow> nat" where
  "next_multiple_of n k = (if n mod k = 0 then n else n + (k - n mod k))"

definition clamp :: "nat \<Rightarrow> nat \<Rightarrow> nat \<Rightarrow> nat" where
  "clamp lo hi n = max lo (min hi n)"

definition summary_bits :: "nat \<Rightarrow> nat" where
  "summary_bits rows = clamp MIN_BITS (SUMMARY_MAX_BYTES * 8) (next_multiple_of (rows * BITS_PER_ROW) 8)"

definition set_summary_bit :: "nat \<Rightarrow> bytes \<Rightarrow> bytes" where
  "set_summary_bit n s = s[n div 8 := s ! (n div 8) OR push_bit (n mod 8) 1]"

definition vsb_finish :: "ValueSummaryBuilder \<Rightarrow> bytes option" where
  "vsb_finish b =
     (let rows = length (hashes b)
      in if overflowed b \<or> rows = 0 then None
         else let bits = summary_bits rows
              in Some (foldl (\<lambda>s hash. set_summary_bit (unat hash mod bits) s)
                         (replicate (bits div 8) 0) (hashes b)))"

definition test_summary_bit :: "bytes \<Rightarrow> nat \<Rightarrow> bool" where
  "test_summary_bit s n \<longleftrightarrow> s ! (n div 8) AND push_bit (n mod 8) 1 \<noteq> 0"

definition summary_may_contain :: "bytes \<Rightarrow> bytes \<Rightarrow> bool" where
  "summary_may_contain summary encoded =
     (if summary = [] then True
      else let bits = length summary * 8
           in test_summary_bit summary (unat (summary_hash encoded) mod bits))"

subsection \<open>Key columns of a segment\<close>

fun supports_value_summary :: "SortKeyType \<Rightarrow> bool" where
  "supports_value_summary TInt2 = True"
| "supports_value_summary TInt4 = True"
| "supports_value_summary TInt8 = True"
| "supports_value_summary TUuid = True"
| "supports_value_summary TDate = True"
| "supports_value_summary TTimestamp = True"
| "supports_value_summary TTimestamptz = True"
| "supports_value_summary _ = False"

text \<open>The concatenated key of a row, or \<open>None\<close> when a column is null (the labelled \<open>continue\<close>).\<close>

fun summary_row_key ::
    "sort_ext \<Rightarrow> ((string \<times> SortKeyType) \<times> arrow) list \<Rightarrow> nat \<Rightarrow> bytes \<Rightarrow> bounds_error + bytes option" where
  "summary_row_key x [] index key = Inr (Some key)"
| "summary_row_key x (((name, ty), array) # cols) index key =
     res_bind (encode_row x array ty index) (\<lambda>comp. case comp of
         Some bs \<Rightarrow> summary_row_key x cols index (key @ bs)
       | None \<Rightarrow> Inr None)"

fun summary_rows ::
    "sort_ext \<Rightarrow> ((string \<times> SortKeyType) \<times> arrow) list \<Rightarrow> nat list \<Rightarrow> ValueSummaryBuilder
     \<Rightarrow> ValueSummaryBuilder \<times> (bounds_error + unit)" where
  "summary_rows x cols [] b = (b, Inr ())"
| "summary_rows x cols (i # is) b =
     (case summary_row_key x cols i [] of
        Inl e \<Rightarrow> (b, Inl e)
      | Inr None \<Rightarrow> summary_rows x cols is b
      | Inr (Some key) \<Rightarrow> summary_rows x cols is (vsb_insert key b))"

definition add_key_columns_to_value_summary ::
    "sort_ext \<Rightarrow> ValueSummaryBuilder \<Rightarrow> batch \<Rightarrow> (string \<times> SortKeyType) list
     \<Rightarrow> ValueSummaryBuilder \<times> (bounds_error + unit)" where
  "add_key_columns_to_value_summary x b bt cols =
     (if cols = [] then (b, Inl No_columns)
      else case key_arrays bt cols of
          Inl e \<Rightarrow> (b, Inl e)
        | Inr arrays \<Rightarrow> summary_rows x (zip cols arrays) [0..<num_rows bt] b)"

definition add_column_to_value_summary ::
    "sort_ext \<Rightarrow> ValueSummaryBuilder \<Rightarrow> batch \<Rightarrow> string \<Rightarrow> SortKeyType
     \<Rightarrow> ValueSummaryBuilder \<times> (bounds_error + unit)" where
  "add_column_to_value_summary x b bt column ty =
     add_key_columns_to_value_summary x b bt [(column, ty)]"

record RebuiltSummary =
  rs_summary :: "bytes option"
  rs_rows :: nat

datatype summary_error = Summary_cannot_read | Summary_not_in_object | Summary_key bounds_error
  | Partial_summary

fun summary_loop ::
    "sort_ext \<Rightarrow> (string \<times> SortKeyType) list \<Rightarrow> (unit + batch) list \<Rightarrow> nat \<Rightarrow> ValueSummaryBuilder
     \<Rightarrow> summary_error + (nat \<times> ValueSummaryBuilder)" where
  "summary_loop x cols [] rows b = Inr (rows, b)"
| "summary_loop x cols (Inl _ # rest) rows b = Inl Summary_cannot_read"
| "summary_loop x cols (Inr bt # rest) rows b =
     (case add_key_columns_to_value_summary x b bt cols of
        (_, Inl e) \<Rightarrow> Inl (Summary_key e)
      | (b', Inr _) \<Rightarrow> summary_loop x cols rest (rows + num_rows bt) b')"

definition rebuild_value_summary_from_parquet ::
    "sort_ext \<Rightarrow> (string \<Rightarrow> bool) \<Rightarrow> (unit + batch) list \<Rightarrow> (string \<times> SortKeyType) list
     \<Rightarrow> summary_error + RebuiltSummary" where
  "rebuild_value_summary_from_parquet x in_schema reader cols =
     (if \<not> list_all (\<lambda>(name, _). in_schema name) cols then Inl Summary_not_in_object
      else res_bind (summary_loop x cols reader 0 vsb_new) (\<lambda>(rows, b).
        if vsb_len b \<noteq> 0 \<and> vsb_len b \<noteq> rows then Inl Partial_summary
        else Inr \<lparr>rs_summary = vsb_finish b, rs_rows = rows\<rparr>))"

subsection \<open>The bitmap\<close>

lemma byte_bit_test: "(b AND 2 ^ k \<noteq> 0) \<longleftrightarrow> bit b k" if "k < 8" for b :: u8
proof -
  have "b AND 2 ^ k = (if bit b k then 2 ^ k else 0)"
    by (rule bit_word_eqI) (auto simp: bit_and_iff bit_exp_iff)
  moreover have "bit (2 ^ k :: u8) k"
    using that by (simp add: bit_exp_iff)
  ultimately show ?thesis
    using that by auto
qed

lemma test_summary_bit_eq: "test_summary_bit s n \<longleftrightarrow> bit (s ! (n div 8)) (n mod 8)"
  by (simp add: test_summary_bit_def byte_bit_test)

lemma test_set_summary_bit:
  assumes "n < length s * 8" "m < length s * 8"
  shows "test_summary_bit (set_summary_bit n s) m \<longleftrightarrow> m = n \<or> test_summary_bit s m"
proof -
  have "m = n \<longleftrightarrow> m div 8 = n div 8 \<and> m mod 8 = n mod 8"
    by (metis div_mult_mod_eq)
  moreover have "n div 8 < length s" "m div 8 < length s"
    using assms by auto
  ultimately show ?thesis
    by (auto simp: test_summary_bit_eq set_summary_bit_def nth_list_update bit_or_iff
        bit_exp_iff)
qed

lemma length_set_summary_bit [simp]: "length (set_summary_bit n s) = length s"
  by (simp add: set_summary_bit_def)

lemma test_fold_bits:
  assumes "\<forall>n\<in>set ns. n < length s * 8" "m < length s * 8"
  shows "test_summary_bit (foldl (\<lambda>s n. set_summary_bit n s) s ns) m
           \<longleftrightarrow> m \<in> set ns \<or> test_summary_bit s m"
  using assms
  by (induction ns arbitrary: s) (auto simp: test_set_summary_bit)

lemma length_fold_bits [simp]:
  "length (foldl (\<lambda>s n. set_summary_bit n s) s ns) = length s"
  by (induction ns arbitrary: s) auto

lemma summary_bits_props: "8 dvd summary_bits rows" "64 \<le> summary_bits rows" "summary_bits rows \<le> 65536"
proof -
  have "next_multiple_of (rows * BITS_PER_ROW) 8 = rows * 16"
    by (simp add: next_multiple_of_def BITS_PER_ROW_def)
  then have bits: "summary_bits rows = max 64 (min 65536 (rows * 16))"
    by (simp add: summary_bits_def clamp_def summary_consts)
  have "8 dvd (64 :: nat)" "8 dvd (65536 :: nat)" "8 dvd rows * 16"
    by simp_all
  then show "8 dvd summary_bits rows"
    unfolding bits by (simp only: max_def min_def split: if_split) blast
  show "64 \<le> summary_bits rows" "summary_bits rows \<le> 65536"
    by (simp_all add: bits)
qed

lemma summary_hash_bound: "unat (summary_hash encoded) < 2 ^ 63"
proof -
  have "unat (drop_bit 1 w) < 2 ^ 63" for w :: u64
    using unsigned_less [of w, where 'a = nat] by (simp add: drop_bit_eq_div unat_div)
  then show ?thesis
    unfolding summary_hash_def splitmix_def Let_def .
qed

text \<open>The persisted hash values of the frozen format.\<close>

lemma frozen_hashes:
  "summary_hash [] = 7043838727467204504"
  "summary_hash (utf8 ''koldstore'') = 5495628202174716924"
  "summary_hash [0x80, 0, 0, 0, 0, 0, 0, 42] = 8093551759240755733"
  by (simp_all add: summary_hash_def fnv1a_def splitmix_def utf8_def byte_of_def)

subsection \<open>Membership filters\<close>

text \<open>What a planner relies on of a segment filter: a value that went in is never ruled out.  A probe
  is a conjunction of clauses, each a disjunction of values.\<close>

locale membership_filter =
  fixes build :: "'v list \<Rightarrow> 's option" and may :: "'s \<Rightarrow> 'v \<Rightarrow> bool"
  assumes complete: "\<lbrakk>build vs = Some s; v \<in> set vs\<rbrakk> \<Longrightarrow> may s v"
begin

lemma clause_kept:
  "\<lbrakk>build vs = Some s; v \<in> set clause; v \<in> set vs\<rbrakk> \<Longrightarrow> list_ex (may s) clause"
  using complete by (auto simp: list_ex_iff)

lemma cnf_kept:
  assumes "build vs = Some s" "list_all (list_ex (\<lambda>v. v \<in> set vs)) clauses"
  shows "list_all (list_ex (may s)) clauses"
  using assms clause_kept by (auto simp: list_all_iff list_ex_iff)

end

definition insert_all :: "bytes list \<Rightarrow> ValueSummaryBuilder \<Rightarrow> ValueSummaryBuilder" where
  "insert_all es b = foldl (\<lambda>b e. vsb_insert e b) b es"

definition insert_hashes :: "u64 list \<Rightarrow> ValueSummaryBuilder \<Rightarrow> ValueSummaryBuilder" where
  "insert_hashes hs b = foldl (\<lambda>b h. vsb_insert_hash h b) b hs"

lemma vsb_insert_via_hash: "vsb_insert e b = vsb_insert_hash (summary_hash e) b"
  by (simp add: vsb_insert_def vsb_insert_hash_def)

lemma insert_all_via_hashes: "insert_all es b = insert_hashes (map summary_hash es) b"
  by (simp add: insert_all_def insert_hashes_def vsb_insert_via_hash foldl_map)

lemma insert_hashes_new:
  "insert_hashes hs vsb_new =
     (if length hs \<le> SUMMARY_MAX_ROWS then \<lparr>hashes = hs, overflowed = False\<rparr>
      else \<lparr>hashes = [], overflowed = True\<rparr>)"
  by (induction hs rule: rev_induct)
    (auto simp: insert_hashes_def vsb_new_def vsb_insert_hash_def)

definition bitmap_of :: "u64 list \<Rightarrow> bytes option" where
  "bitmap_of hs = vsb_finish (insert_hashes hs vsb_new)"

definition bitmap_has :: "bytes \<Rightarrow> u64 \<Rightarrow> bool" where
  "bitmap_has s h \<longleftrightarrow> (s = [] \<or> test_summary_bit s (unat h mod (length s * 8)))"

lemma bitmap_of_Some:
  assumes "bitmap_of hs = Some s"
  shows "0 < length hs" "length hs \<le> SUMMARY_MAX_ROWS" "length s * 8 = summary_bits (length hs)"
    and "s = foldl (\<lambda>s n. set_summary_bit n s) (replicate (length s) 0)
               (map (\<lambda>h. unat h mod (length s * 8)) hs)"
proof -
  let ?bits = "summary_bits (length hs)"
  have fits: "length hs \<le> SUMMARY_MAX_ROWS"
    using assms by (auto simp: bitmap_of_def insert_hashes_new vsb_finish_def Let_def split: if_splits)
  then show "length hs \<le> SUMMARY_MAX_ROWS" "0 < length hs"
    using assms by (auto simp: bitmap_of_def insert_hashes_new vsb_finish_def Let_def split: if_splits)
  have s: "s = foldl (\<lambda>s n. set_summary_bit n s) (replicate (?bits div 8) 0)
                 (map (\<lambda>h. unat h mod ?bits) hs)"
    using assms fits
    by (auto simp: bitmap_of_def insert_hashes_new vsb_finish_def Let_def foldl_map split: if_splits)
  then have "length s = ?bits div 8"
    by simp
  then show len: "length s * 8 = ?bits"
    using summary_bits_props(1) [of "length hs"] by simp
  show "s = foldl (\<lambda>s n. set_summary_bit n s) (replicate (length s) 0)
               (map (\<lambda>h. unat h mod (length s * 8)) hs)"
    using s \<open>length s = ?bits div 8\<close> len by simp
qed

lemma bitmap_has_inserted:
  assumes "bitmap_of hs = Some s" "h \<in> set hs"
  shows "bitmap_has s h"
proof -
  have pos: "0 < length s * 8"
    using bitmap_of_Some(3) [OF assms(1)] summary_bits_props(2) [of "length hs"] by simp
  have "test_summary_bit s (unat h mod (length s * 8))"
    by (subst bitmap_of_Some(4) [OF assms(1)], subst test_fold_bits)
      (use pos assms(2) in auto)
  then show ?thesis
    by (simp add: bitmap_has_def)
qed

lemma bitmap_has_may_contain: "bitmap_has s (summary_hash e) = summary_may_contain s e"
  by (simp add: bitmap_has_def summary_may_contain_def Let_def)

interpretation hash_filter: membership_filter bitmap_of bitmap_has
  by unfold_locales (rule bitmap_has_inserted)

interpretation value_filter:
  membership_filter "\<lambda>es. vsb_finish (insert_all es vsb_new)" summary_may_contain
proof
  fix es s e
  assume "vsb_finish (insert_all es vsb_new) = Some s" "e \<in> set es"
  then show "summary_may_contain s e"
    using bitmap_has_inserted [of "map summary_hash es" s "summary_hash e"]
    by (simp add: bitmap_of_def insert_all_via_hashes bitmap_has_may_contain)
qed

text \<open>C6: a summary never rules out a value it was built from, it exists exactly for one up to
  \<open>SUMMARY_MAX_ROWS\<close> values, takes between 8 and \<open>SUMMARY_MAX_BYTES\<close> bytes, and the hash fits a
  non-negative \<open>bigint\<close>.\<close>

theorem summary_no_false_negatives:
  shows "(\<exists>s. vsb_finish (insert_all es vsb_new) = Some s)
           = (0 < length es \<and> length es \<le> SUMMARY_MAX_ROWS)
    \<and> (vsb_finish (insert_all es vsb_new) = Some s \<longrightarrow>
         list_all (summary_may_contain s) es \<and> 8 \<le> length s \<and> length s \<le> SUMMARY_MAX_BYTES)
    \<and> unat (summary_hash e) < 2 ^ 63"
proof -
  have "list_all (summary_may_contain s) es \<and> 8 \<le> length s \<and> length s \<le> SUMMARY_MAX_BYTES"
    if s: "vsb_finish (insert_all es vsb_new) = Some s"
    using value_filter.complete [OF s] summary_bits_props [of "length es"]
      bitmap_of_Some(3) [of "map summary_hash es" s] s
    by (auto simp: list_all_iff bitmap_of_def insert_all_via_hashes SUMMARY_MAX_BYTES_def)
  moreover have "(\<exists>s. vsb_finish (insert_all es vsb_new) = Some s)
      = (0 < length es \<and> length es \<le> SUMMARY_MAX_ROWS)"
    by (auto simp: insert_all_via_hashes insert_hashes_new vsb_finish_def Let_def)
  ultimately show ?thesis
    using summary_hash_bound by blast
qed

lemmas summary_eval = insert_all_def vsb_new_def vsb_insert_def vsb_finish_def summary_consts
  vsb_len_def summary_hash_def fnv1a_def splitmix_def summary_bits_def clamp_def next_multiple_of_def
  set_summary_bit_def

lemma summary_42: "vsb_finish (insert_all [be_bytes 8 42] vsb_new) = Some [0, 32, 0, 0, 0, 0, 0, 0]"
  by (simp add: summary_eval be_bytes_numeral) (simp add: numeral_eq_Suc)

theorem summary_no_false_negatives_witness:
  "summary_may_contain [0, 32, 0, 0, 0, 0, 0, 0] (be_bytes 8 42)"
  using summary_no_false_negatives [of "[be_bytes 8 42]" "[0, 32, 0, 0, 0, 0, 0, 0]"] summary_42
  by simp

subsection \<open>Rebuilding the summary of a segment\<close>

text \<open>The reference: for every row of the segment its key, or \<open>None\<close> for a row with a null.\<close>

fun summary_segment ::
    "sort_ext \<Rightarrow> (string \<times> SortKeyType) list \<Rightarrow> batch list \<Rightarrow> bounds_error + bytes option list" where
  "summary_segment x cols [] = Inr []"
| "summary_segment x cols (bt # rest) =
     res_bind (key_arrays bt cols) (\<lambda>arrays.
     res_bind (res_list (\<lambda>i. summary_row_key x (zip cols arrays) i []) [0..<num_rows bt]) (\<lambda>us.
     res_bind (summary_segment x cols rest) (\<lambda>ts. Inr (us @ ts))))"

definition somes :: "'a option list \<Rightarrow> 'a list" where
  "somes xs = List.map_filter id xs"

lemma somes_simps [simp]:
  "somes [] = []" "somes (None # xs) = somes xs" "somes (Some a # xs) = a # somes xs"
  "somes (xs @ ys) = somes xs @ somes ys"
  by (simp_all add: somes_def map_filter_def)

lemma somes_le: "length (somes xs) \<le> length xs"
  by (simp add: somes_def map_filter_def)

lemma somes_full: "length (somes xs) = length xs \<Longrightarrow> xs = map Some (somes xs)"
proof (induction xs)
  case (Cons a xs)
  then show ?case
    using somes_le [of xs] by (cases a) auto
qed simp

lemma insert_all_append: "insert_all (as @ bs) b = insert_all bs (insert_all as b)"
  by (simp add: insert_all_def)

lemma summary_rows_inserts:
  "summary_rows x cols is b = (b', Inr ()) \<Longrightarrow>
     \<exists>ks. res_list (\<lambda>i. summary_row_key x cols i []) is = Inr ks \<and> b' = insert_all (somes ks) b"
proof (induction x cols "is" b rule: summary_rows.induct)
  case (2 x cols i "is" b)
  then show ?case
    by (cases "summary_row_key x cols i []")
      (auto split: option.splits simp: insert_all_def)
qed (simp add: insert_all_def)

lemma summary_loop_inserts:
  "summary_loop x cols (map Inr bts) rows b = Inr (n, b') \<Longrightarrow>
     \<exists>ks. summary_segment x cols bts = Inr ks \<and> b' = insert_all (somes ks) b \<and> n = rows + length ks"
proof (induction bts arbitrary: rows b)
  case (Cons bt bts)
  obtain b1 where b1: "add_key_columns_to_value_summary x b bt cols = (b1, Inr ())"
    and rest: "summary_loop x cols (map Inr bts) (rows + num_rows bt) b1 = Inr (n, b')"
    using Cons.prems by (auto split: prod.splits sum.splits)
  obtain arrays where arrays: "key_arrays bt cols = Inr arrays"
    and add: "summary_rows x (zip cols arrays) [0..<num_rows bt] b = (b1, Inr ())"
    using b1 by (auto simp: add_key_columns_to_value_summary_def split: if_splits sum.splits)
  obtain us where us: "res_list (\<lambda>i. summary_row_key x (zip cols arrays) i []) [0..<num_rows bt] = Inr us"
    "b1 = insert_all (somes us) b"
    using summary_rows_inserts [OF add] by blast
  then have "length us = num_rows bt"
    by (auto simp: res_list_Inr_iff dest: list_all2_lengthD)
  then show ?case
    using Cons.IH [OF rest] arrays us by (auto simp: insert_all_append)
qed (simp add: insert_all_def)

text \<open>C7: when a rebuilt segment carries a summary, every row of the segment has a key and the summary
  admits all of them; a segment in which only some rows have a key is refused, never summarised.\<close>

theorem rebuilt_summary_covers_segment:
  assumes "rebuild_value_summary_from_parquet x in_schema (map Inr bts) cols = Inr r"
    and "rs_summary r = Some s"
  shows "\<exists>ks. summary_segment x cols bts = Inr (map Some ks) \<and> rs_rows r = length ks
           \<and> list_all (summary_may_contain s) ks"
proof -
  obtain n b where loop: "summary_loop x cols (map Inr bts) 0 vsb_new = Inr (n, b)"
    and whole: "vsb_len b = 0 \<or> vsb_len b = n"
    and r: "r = \<lparr>rs_summary = vsb_finish b, rs_rows = n\<rparr>"
    using assms(1)
    by (auto simp: rebuild_value_summary_from_parquet_def res_simps split: if_splits)
  obtain ks where ks: "summary_segment x cols bts = Inr ks" "b = insert_all (somes ks) vsb_new"
    "n = length ks"
    using summary_loop_inserts [OF loop] by auto
  have "length (somes ks) = length ks"
    using whole assms(2) r ks(2,3)
    by (auto simp: vsb_finish_def Let_def insert_all_via_hashes insert_hashes_new vsb_len_def
        split: if_splits)
  then have "ks = map Some (somes ks)"
    by (rule somes_full)
  moreover have "list_all (summary_may_contain s) (somes ks)"
    using value_filter.complete assms(2) r ks(2) by (auto simp: list_all_iff)
  ultimately show ?thesis
    using ks r by (metis RebuiltSummary.select_convs(2) length_map)
qed

lemma sample_summary:
  "rebuild_value_summary_from_parquet sample_ext (\<lambda>_. True) (map Inr [sample_batch [3] [49]]) sample_cols
   = Inr \<lparr>rs_summary = Some [0, 0, 4, 0, 0, 0, 0, 0], rs_rows = 1\<rparr>"
  by (simp add: rebuild_value_summary_from_parquet_def add_key_columns_to_value_summary_def sample_eval
      summary_eval) (simp add: numeral_eq_Suc)

theorem rebuilt_summary_covers_segment_witness:
  "\<exists>ks. summary_segment sample_ext sample_cols [sample_batch [3] [49]] = Inr (map Some ks)
     \<and> length ks = 1 \<and> list_all (summary_may_contain [0, 0, 4, 0, 0, 0, 0, 0]) ks"
  using rebuilt_summary_covers_segment [OF sample_summary, of "[0, 0, 4, 0, 0, 0, 0, 0]"] by auto

end
