(* ===== verification/Term_Text.thy ===== *)
theory Term_Text
  imports Json
begin

text \<open>
  The text forms a term filter reads (\<open>koldstore-parquet/src/term_filter.rs\<close>): \<open>tsvector\<close> and
  \<open>tsquery\<close> text and one-dimensional \<open>text[]\<close> literals.  The scanners walk Unicode characters; all
  characters they test for are ASCII, so on the UTF-8 bytes they take the same decisions and copy the
  remaining bytes of a multi-byte character one by one.  A position in the source's character vector
  is the suffix that starts there.
\<close>

subsection \<open>Quoted lexemes\<close>

fun read_quoted :: "string \<Rightarrow> (string \<times> string) option" where
  "read_quoted [] = None"
| "read_quoted (c # r) =
     (if c = CHR 0x5C then
        (case r of
           [] \<Rightarrow> None
         | d # r2 \<Rightarrow> map_option (\<lambda>(out, rest). (d # out, rest)) (read_quoted r2))
      else if c = CHR 0x27 then
        (case r of
           d # r2 \<Rightarrow> if d = CHR 0x27
                     then map_option (\<lambda>(out, rest). (CHR 0x27 # out, rest)) (read_quoted r2)
                     else Some ([], r)
         | [] \<Rightarrow> Some ([], r))
      else map_option (\<lambda>(out, rest). (c # out, rest)) (read_quoted r))"

lemma read_quoted_length: "read_quoted s = Some (out, rest) \<Longrightarrow> length rest < length s"
proof (induction s arbitrary: out rest rule: read_quoted.induct)
  case (2 c r)
  then show ?case
    by (fastforce split: if_splits list.splits)
qed simp

text \<open>Positions and weights after a lexeme run up to the next space.\<close>

definition skip_positions :: "string \<Rightarrow> string" where
  "skip_positions s =
     (if s \<noteq> [] \<and> hd s = CHR '':'' then dropWhile (\<lambda>c. c \<noteq> CHR '' '') s else s)"

lemma skip_positions_length: "length (skip_positions s) \<le> length s"
  by (simp add: skip_positions_def length_dropWhile_le)

function parse_tsvector_lexemes :: "string \<Rightarrow> string list option" where
  "parse_tsvector_lexemes s = (case s of
      [] \<Rightarrow> Some []
    | c # r \<Rightarrow>
        if c = CHR '' '' then parse_tsvector_lexemes r
        else if c = CHR 0x27 then
          (case read_quoted r of
             None \<Rightarrow> None
           | Some (lexeme, next) \<Rightarrow>
               map_option ((#) lexeme) (parse_tsvector_lexemes (skip_positions next)))
        else None)"
  by auto
termination
proof (relation "measure length")
  fix s c r x lexeme rest
  assume "s = c # r" "read_quoted r = Some x" "(lexeme, rest) = x"
  then show "(skip_positions rest, s) \<in> measure length"
    using read_quoted_length [of r lexeme rest] skip_positions_length [of rest] by auto
qed auto

declare parse_tsvector_lexemes.simps [simp del]

subsection \<open>Text arrays\<close>

definition trim_start :: "string \<Rightarrow> string" where
  "trim_start s = strip_front white_space s"

definition trim_end :: "string \<Rightarrow> string" where
  "trim_end s = rev (strip_front (map rev white_space) (rev s))"

definition is_bound :: "string \<Rightarrow> bool" where
  "is_bound part =
     (let digits = (if part \<noteq> [] \<and> hd part = CHR ''-'' then tl part else part)
      in digits \<noteq> [] \<and> list_all is_digit digits)"

fun split_once :: "string \<Rightarrow> string \<Rightarrow> (string \<times> string) option" where
  "split_once sep [] = (if sep = [] then Some ([], []) else None)"
| "split_once sep (c # r) =
     (if prefix sep (c # r) then Some ([], drop (length sep) (c # r))
      else map_option (\<lambda>(a, b). (c # a, b)) (split_once sep r))"

definition strip_dimension_prefix :: "string \<Rightarrow> string" where
  "strip_dimension_prefix text =
     (if text \<noteq> [] \<and> hd text = CHR ''['' then
        (case split_once '']='' (tl text) of
           None \<Rightarrow> text
         | Some (bounds, tail) \<Rightarrow>
             (case split_once '':'' bounds of
                Some (low, high) \<Rightarrow> if is_bound low \<and> is_bound high then tail else text
              | None \<Rightarrow> text))
      else text)"

fun read_dquoted :: "string \<Rightarrow> (string \<times> string) option" where
  "read_dquoted [] = None"
| "read_dquoted (c # r) =
     (if c = CHR 0x5C then
        (case r of
           [] \<Rightarrow> None
         | d # r2 \<Rightarrow> map_option (\<lambda>(v, rest). (d # v, rest)) (read_dquoted r2))
      else if c = CHR 0x22 then Some ([], r)
      else map_option (\<lambda>(v, rest). (c # v, rest)) (read_dquoted r))"

fun read_unquoted :: "string \<Rightarrow> (string \<times> string) option" where
  "read_unquoted [] = Some ([], [])"
| "read_unquoted (c # r) =
     (if c = CHR '','' then Some ([], c # r)
      else if c = CHR 0x5C then
        (case r of
           [] \<Rightarrow> None
         | d # r2 \<Rightarrow> map_option (\<lambda>(v, rest). (d # v, rest)) (read_unquoted r2))
      else map_option (\<lambda>(v, rest). (c # v, rest)) (read_unquoted r))"

lemma read_dquoted_length: "read_dquoted s = Some (v, rest) \<Longrightarrow> length rest < length s"
proof (induction s arbitrary: v rest rule: read_dquoted.induct)
  case (2 c r)
  then show ?case
    by (fastforce split: if_splits list.splits)
qed simp

lemma read_unquoted_length: "read_unquoted s = Some (v, rest) \<Longrightarrow> length rest \<le> length s"
proof (induction s arbitrary: v rest rule: read_unquoted.induct)
  case (2 c r)
  then show ?case
    by (fastforce split: if_splits list.splits)
qed simp

lemma strip_front_length: "length (strip_front ws s) \<le> length s"
proof (induction ws s rule: strip_front.induct)
  case (1 ws s)
  then show ?case
    by (subst strip_front.simps) (auto split: option.splits dest: order_trans)
qed

definition ascii_lower :: "char \<Rightarrow> char" where
  "ascii_lower c = (if CHR ''A'' \<le> c \<and> c \<le> CHR ''Z'' then char_of (of_char c + (32 :: nat)) else c)"

text \<open>One array element: its value, whether it was quoted, and what follows it.\<close>

definition read_element :: "string \<Rightarrow> (string option \<times> string) option" where
  "read_element s =
     (let s1 = trim_start s in
      case s1 of
        c # r \<Rightarrow>
          if c = CHR 0x7B then None
          else if c = CHR 0x22 then
            map_option (\<lambda>(v, rest). (Some v, trim_start rest)) (read_dquoted r)
          else map_option (\<lambda>(v, rest).
                 (let value = trim_end v
                  in (if map ascii_lower value = ''null'' then None else Some value, trim_start rest)))
               (read_unquoted s1)
      | [] \<Rightarrow> Some (Some [], []))"

lemma trim_start_length: "length (trim_start s) \<le> length s"
  by (simp add: trim_start_def strip_front_length)

lemma read_element_length:
  assumes "read_element s = Some (e, rest)"
  shows "length rest \<le> length s"
proof (cases "trim_start s")
  case Nil
  then show ?thesis
    using assms by (simp add: read_element_def)
next
  case (Cons c r)
  then obtain v rest' where rest: "rest = trim_start rest'"
    and read: "read_dquoted r = Some (v, rest') \<or> read_unquoted (c # r) = Some (v, rest')"
    using assms by (auto simp: read_element_def Let_def split: if_splits)
  have "length rest' \<le> length (c # r)"
    using read read_dquoted_length [of r v rest'] read_unquoted_length [of "c # r" v rest'] by auto
  then show ?thesis
    using rest Cons trim_start_length [of s] trim_start_length [of rest'] by simp
qed

function parse_elements :: "string \<Rightarrow> string option list option" where
  "parse_elements s = (case read_element s of
      None \<Rightarrow> None
    | Some (item, rest) \<Rightarrow>
        (case rest of
           [] \<Rightarrow> Some [item]
         | c # r \<Rightarrow> if c = CHR '','' then map_option ((#) item) (parse_elements r) else None))"
  by auto
termination
proof (relation "measure length")
  fix s x item rest c r
  assume "read_element s = Some x" "(item, rest) = x" "rest = c # r"
  then show "(r, s) \<in> measure length"
    using read_element_length [of s item rest] by auto
qed auto

declare parse_elements.simps [simp del]

text \<open>The JSON parser and printer of \<open>serde_json\<close> are parameters.\<close>

fun json_item :: "(json \<Rightarrow> string) \<Rightarrow> json \<Rightarrow> string option" where
  "json_item json_to_string JNull = None"
| "json_item json_to_string (JString text) = Some text"
| "json_item json_to_string other = Some (json_to_string other)"

definition parse_text_array ::
    "(string \<Rightarrow> json option) \<Rightarrow> (json \<Rightarrow> string) \<Rightarrow> string \<Rightarrow> string option list option" where
  "parse_text_array from_str json_to_string text =
     (let trimmed = strip_dimension_prefix (trim text) in
      if trimmed \<noteq> [] \<and> hd trimmed = CHR ''['' then
        (case from_str trimmed of
           Some (JArray items) \<Rightarrow> Some (map (json_item json_to_string) items)
         | _ \<Rightarrow> None)
      else if trimmed \<noteq> [] \<and> hd trimmed = CHR 0x7B \<and> tl trimmed \<noteq> [] \<and> last trimmed = CHR 0x7D then
        (let inner = butlast (tl trimmed)
         in if trim inner = [] then Some [] else parse_elements inner)
      else None)"

subsection \<open>Text search queries\<close>

datatype QueryNode = Lexeme string | Unknown | And "QueryNode list" | Or "QueryNode list"

definition skip_ws :: "string \<Rightarrow> string" where
  "skip_ws s = dropWhile (\<lambda>c. c = CHR '' '') s"

definition eat :: "char \<Rightarrow> string \<Rightarrow> bool \<times> string" where
  "eat c s = (case skip_ws s of
      d # r \<Rightarrow> if d = c then (True, r) else (False, d # r)
    | [] \<Rightarrow> (False, []))"

text \<open>
  The recursive-descent parser.  Its result says whether the query is malformed (\<open>Fail\<close>, the source's
  \<open>None\<close>) or the fuel that bounds the recursion ran out, which \<open>parse_query_total\<close> rules out.
\<close>

datatype 'a parse = Out_of_fuel | Fail | Done 'a string

fun parse_bind :: "'a parse \<Rightarrow> ('a \<Rightarrow> string \<Rightarrow> 'b parse) \<Rightarrow> 'b parse" where
  "parse_bind Out_of_fuel f = Out_of_fuel"
| "parse_bind Fail f = Fail"
| "parse_bind (Done a r) f = f a r"

definition single_or :: "(QueryNode list \<Rightarrow> QueryNode) \<Rightarrow> QueryNode list \<Rightarrow> QueryNode" where
  "single_or f nodes = (if length nodes = 1 then hd nodes else f nodes)"

definition skip_operator :: "string \<Rightarrow> string" where
  "skip_operator s = drop 1 (dropWhile (\<lambda>c. c \<noteq> CHR ''>'') s)"

definition weight_char :: "char \<Rightarrow> bool" where
  "weight_char c \<longleftrightarrow> c = CHR ''*'' \<or> CHR ''A'' \<le> c \<and> c \<le> CHR ''D'' \<or> CHR ''a'' \<le> c \<and> c \<le> CHR ''d''"

definition read_operand :: "string \<Rightarrow> QueryNode parse" where
  "read_operand s =
     (if s = [] \<or> hd s \<noteq> CHR 0x27 then Fail
      else case read_quoted (tl s) of
          None \<Rightarrow> Fail
        | Some (lexeme, next) \<Rightarrow>
            if next \<noteq> [] \<and> hd next = CHR '':'' then
              (let flags = takeWhile weight_char (tl next);
                   rest = dropWhile weight_char (tl next)
               in Done (if CHR ''*'' \<in> set flags then Unknown else Lexeme lexeme) rest)
            else Done (Lexeme lexeme) next)"

text \<open>The methods \<open>or\<close>, \<open>and\<close>, \<open>phrase\<close> and \<open>unary\<close>, and the loops of the first three with the nodes
  collected so far.\<close>

datatype parser_step =
    Or_method | Or_loop "QueryNode list"
  | And_method | And_loop "QueryNode list"
  | Phrase_method | Phrase_loop "QueryNode list"
  | Unary_method

primrec run_parser :: "nat \<Rightarrow> parser_step \<Rightarrow> string \<Rightarrow> QueryNode parse" where
  "run_parser 0 m s = Out_of_fuel"
| "run_parser (Suc n) m s = (case m of
      Or_method \<Rightarrow> parse_bind (run_parser n And_method s) (\<lambda>node r. run_parser n (Or_loop [node]) r)
    | Or_loop nodes \<Rightarrow>
        (let (more, r) = eat CHR 0x7C s
         in if more then
              parse_bind (run_parser n And_method r)
                (\<lambda>node r2. run_parser n (Or_loop (nodes @ [node])) r2)
            else Done (single_or Or nodes) r)
    | And_method \<Rightarrow>
        parse_bind (run_parser n Phrase_method s) (\<lambda>node r. run_parser n (And_loop [node]) r)
    | And_loop nodes \<Rightarrow>
        (let (more, r) = eat CHR ''&'' s
         in if more then
              parse_bind (run_parser n Phrase_method r)
                (\<lambda>node r2. run_parser n (And_loop (nodes @ [node])) r2)
            else Done (single_or And nodes) r)
    | Phrase_method \<Rightarrow>
        parse_bind (run_parser n Unary_method s) (\<lambda>node r. run_parser n (Phrase_loop [node]) r)
    | Phrase_loop nodes \<Rightarrow>
        (let s1 = skip_ws s
         in if s1 = [] \<or> hd s1 \<noteq> CHR ''<'' then Done (single_or And nodes) s1
            else parse_bind (run_parser n Unary_method (skip_operator s1))
                   (\<lambda>node r. run_parser n (Phrase_loop (nodes @ [node])) r))
    | Unary_method \<Rightarrow>
        (let (negated, s1) = eat CHR ''!'' s
         in if negated then parse_bind (run_parser n Unary_method s1) (\<lambda>_ r. Done Unknown r)
            else let (grouped, s2) = eat CHR ''('' s1
                 in if grouped then
                      parse_bind (run_parser n Or_method s2) (\<lambda>node r.
                        let (closed, r2) = eat CHR '')'' r in if closed then Done node r2 else Fail)
                    else read_operand (skip_ws s2)))"

definition query_fuel :: "string \<Rightarrow> nat" where
  "query_fuel text = 4 * length text + 4"

definition parse_query :: "string \<Rightarrow> QueryNode option" where
  "parse_query text = (case run_parser (query_fuel text) Or_method text of
      Done node r \<Rightarrow> if skip_ws r = [] then Some node else None
    | _ \<Rightarrow> None)"

subsection \<open>The parser always answers\<close>

text \<open>Every parser step consumes at least one character, the loops none at worst; four units of fuel per
  character and the depth of the call chain are enough.\<close>

primrec consumes :: "parser_step \<Rightarrow> nat" where
  "consumes Or_method = 1" | "consumes (Or_loop _) = 0"
| "consumes And_method = 1" | "consumes (And_loop _) = 0"
| "consumes Phrase_method = 1" | "consumes (Phrase_loop _) = 0"
| "consumes Unary_method = 1"

primrec depth :: "parser_step \<Rightarrow> nat" where
  "depth Or_method = 4" | "depth (Or_loop _) = 1"
| "depth And_method = 3" | "depth (And_loop _) = 1"
| "depth Phrase_method = 2" | "depth (Phrase_loop _) = 1"
| "depth Unary_method = 1"

lemma skip_ws_length: "length (skip_ws s) \<le> length s"
  by (simp add: skip_ws_def length_dropWhile_le)

lemma eat_length: "eat c s = (b, r) \<Longrightarrow> length r + (if b then 1 else 0) \<le> length s"
  using skip_ws_length [of s] unfolding eat_def
  by (cases "skip_ws s") (auto simp: skip_ws_length split: if_splits)

lemma skip_operator_length: "s \<noteq> [] \<Longrightarrow> length (skip_operator s) < length s"
  using length_dropWhile_le [of "\<lambda>c. c \<noteq> CHR ''>''" s]
  by (cases s) (auto simp: skip_operator_def le_diff_conv)

lemma read_operand_length:
  assumes "read_operand s = Done node r"
  shows "length r < length s"
proof -
  obtain lexeme rest where rest: "read_quoted (tl s) = Some (lexeme, rest)" "s \<noteq> []"
    using assms by (auto simp: read_operand_def split: if_splits option.splits)
  have "length r \<le> length rest"
    using assms rest length_dropWhile_le [of weight_char "tl rest"]
    by (auto simp: read_operand_def Let_def split: if_splits)
  then show ?thesis
    using read_quoted_length [OF rest(1)] by simp
qed

lemma parse_bind_Done: "parse_bind p f = Done b r \<longleftrightarrow> (\<exists>a q. p = Done a q \<and> f a q = Done b r)"
  by (cases p) auto

lemma run_parser_consumes:
  "run_parser n m s = Done node r \<Longrightarrow> length r + consumes m \<le> length s"
proof (induction n arbitrary: m s node r)
  case (Suc n)
  have step: thesis
    if "parse_bind (run_parser n m' s') f = Done b q"
      and "\<And>a r'. \<lbrakk>length r' + consumes m' \<le> length s'; f a r' = Done b q\<rbrakk> \<Longrightarrow> thesis"
    for m' s' b q thesis and f :: "QueryNode \<Rightarrow> string \<Rightarrow> QueryNode parse"
    using that Suc.IH unfolding parse_bind_Done by blast
  show ?case
  proof (cases m)
    case (Or_loop nodes)
    obtain b r1 where e: "eat CHR 0x7C s = (b, r1)" by fastforce
    show ?thesis
      using Suc.prems eat_length [OF e]
      by (auto simp: Or_loop e split: if_splits elim!: step dest!: Suc.IH)
  next
    case (And_loop nodes)
    obtain b r1 where e: "eat CHR ''&'' s = (b, r1)" by fastforce
    show ?thesis
      using Suc.prems eat_length [OF e]
      by (auto simp: And_loop e split: if_splits elim!: step dest!: Suc.IH)
  next
    case (Phrase_loop nodes)
    then show ?thesis
      using Suc.prems skip_ws_length [of s] skip_operator_length [of "skip_ws s"]
      by (auto simp: Let_def split: if_splits elim!: step dest!: Suc.IH)
  next
    case Unary_method
    obtain b1 s1 where e1: "eat CHR ''!'' s = (b1, s1)" by fastforce
    obtain b2 s2 where e2: "eat CHR ''('' s1 = (b2, s2)" by fastforce
    show ?thesis
      using Suc.prems eat_length [OF e1] eat_length [OF e2] skip_ws_length [of s2]
      by (auto simp: Unary_method e1 e2 split: if_splits prod.splits elim!: step
          dest!: read_operand_length eat_length)
  qed (use Suc.prems in \<open>auto elim!: step dest!: Suc.IH\<close>)
qed simp

definition answers :: "'a parse \<Rightarrow> bool" where
  "answers p \<longleftrightarrow> p \<noteq> Out_of_fuel"

lemma answers_simps [simp]: "answers Fail" "answers (Done a r)" "answers (read_operand s)"
  by (auto simp: answers_def read_operand_def Let_def split: option.splits)

lemma answers_bind:
  "\<lbrakk>answers p; \<And>a r. p = Done a r \<Longrightarrow> answers (f a r)\<rbrakk> \<Longrightarrow> answers (parse_bind p f)"
  by (cases p) (auto simp: answers_def)

lemma run_parser_answers: "4 * length s + depth m \<le> n \<Longrightarrow> answers (run_parser n m s)"
proof (induction n arbitrary: m s)
  case 0
  then show ?case by (cases m) auto
next
  case (Suc n)
  have step: "answers (parse_bind (run_parser n m' s') f)"
    if "4 * length s' + depth m' \<le> n"
      and "\<And>a r. length r + consumes m' \<le> length s' \<Longrightarrow> answers (f a r)" for m' s' and f :: "_ \<Rightarrow> _ \<Rightarrow> QueryNode parse"
    using that Suc.IH run_parser_consumes by (intro answers_bind) blast+
  show ?case
  proof (cases m)
    case (Or_loop nodes)
    obtain b r where e: "eat CHR 0x7C s = (b, r)" by fastforce
    show ?thesis
      using Suc.prems eat_length [OF e] by (auto simp: Or_loop e intro!: step Suc.IH)
  next
    case (And_loop nodes)
    obtain b r where e: "eat CHR ''&'' s = (b, r)" by fastforce
    show ?thesis
      using Suc.prems eat_length [OF e] by (auto simp: And_loop e intro!: step Suc.IH)
  next
    case (Phrase_loop nodes)
    then show ?thesis
      using Suc.prems skip_ws_length [of s] skip_operator_length [of "skip_ws s"]
      by (auto simp: Let_def intro!: step Suc.IH)
  next
    case Unary_method
    obtain b1 s1 where e1: "eat CHR ''!'' s = (b1, s1)" by fastforce
    obtain b2 s2 where e2: "eat CHR ''('' s1 = (b2, s2)" by fastforce
    show ?thesis
      using Suc.prems eat_length [OF e1] eat_length [OF e2]
      by (auto simp: Unary_method e1 e2 split: prod.splits intro!: step)
  qed (use Suc.prems in \<open>auto intro!: step Suc.IH\<close>)
qed

lemma parse_query_total: "run_parser (query_fuel s) Or_method s \<noteq> Out_of_fuel"
  using run_parser_answers [of s Or_method] by (simp add: query_fuel_def answers_def)

subsection \<open>Text arrays survive the flush\<close>

text \<open>The literal the flush writes for a \<open>text[]\<close> value (\<open>text_array_literal\<close> in
  \<open>pg_koldstore/src/sql/flush/mirror_fetch.rs\<close>).\<close>

definition escape_dquoted :: "string \<Rightarrow> string" where
  "escape_dquoted s = concat (map (\<lambda>c. if c = CHR 0x22 \<or> c = CHR 0x5C then [CHR 0x5C, c] else [c]) s)"

fun literal_item :: "string option \<Rightarrow> string" where
  "literal_item None = ''NULL''"
| "literal_item (Some s) = [CHR 0x22] @ escape_dquoted s @ [CHR 0x22]"

fun literal_items :: "string option list \<Rightarrow> string" where
  "literal_items [] = []"
| "literal_items [i] = literal_item i"
| "literal_items (i # is) = literal_item i @ [CHR '',''] @ literal_items is"

definition text_array_literal :: "string option list \<Rightarrow> int \<Rightarrow> string" where
  "text_array_literal items lower_bound =
     (if lower_bound \<noteq> 1 \<and> items \<noteq> [] then
        (let upper = lower_bound + int (length items) - 1
         in [CHR ''[''] @ show_int lower_bound @ [CHR '':''] @ show_int upper @ '']='')
      else [])
     @ [CHR 0x7B] @ literal_items items @ [CHR 0x7D]"

lemma escape_dquoted_simps [simp]:
  "escape_dquoted [] = []"
  "escape_dquoted (c # s)
     = (if c = CHR 0x22 \<or> c = CHR 0x5C then [CHR 0x5C, c] else [c]) @ escape_dquoted s"
  by (simp_all add: escape_dquoted_def)

lemma read_dquoted_escape:
  "read_dquoted (escape_dquoted s @ CHR 0x22 # rest) = Some (s, rest)"
  by (induction s) auto

lemma trim_start_plain: "s = [] \<or> plain_char (hd s) \<Longrightarrow> trim_start s = s"
  by (simp add: trim_start_def strip_front_white_space)

lemma plain_punctuation [simp]:
  "plain_char CHR 0x22" "plain_char CHR '',''" "plain_char CHR ''N''" "plain_char CHR ''L''"
  "plain_char CHR 0x7B" "plain_char CHR 0x7D" "plain_char CHR ''[''"
  by (simp_all add: plain_char_def)

definition item_end :: "string \<Rightarrow> bool" where
  "item_end rest \<longleftrightarrow> rest = [] \<or> hd rest = CHR '',''"

lemma read_element_item:
  assumes "item_end rest"
  shows "read_element (literal_item i @ rest) = Some (i, rest)"
proof (cases i)
  case None
  have "read_unquoted (''NULL'' @ rest) = Some (''NULL'', rest)"
    using assms by (cases rest) (auto simp: item_end_def)
  moreover have "trim_end ''NULL'' = ''NULL''"
    by (simp add: trim_end_def strip_front_white_space)
  moreover have "map ascii_lower ''NULL'' = ''null''"
    by code_simp
  ultimately show ?thesis
    using None assms
    by (auto simp: read_element_def item_end_def trim_start_plain Let_def simp del: list.map)
next
  case (Some s)
  then show ?thesis
    using assms
    by (auto simp: read_element_def item_end_def trim_start_plain read_dquoted_escape Let_def)
qed

lemma literal_item_nonempty: "literal_item i \<noteq> []" "plain_char (hd (literal_item i))"
  "plain_char (last (literal_item i))"
  by (cases i; simp)+

lemma literal_items_ends:
  "items \<noteq> [] \<Longrightarrow> literal_items items \<noteq> [] \<and> plain_char (hd (literal_items items))
     \<and> plain_char (last (literal_items items))"
  by (induction items rule: literal_items.induct) (auto simp: literal_item_nonempty hd_append last_append)

lemma parse_elements_literal:
  "items \<noteq> [] \<Longrightarrow> parse_elements (literal_items items) = Some items"
proof (induction items rule: literal_items.induct)
  case (2 i)
  then show ?case
    using read_element_item [of "[]" i] by (simp add: parse_elements.simps item_end_def)
next
  case (3 i j js)
  then show ?case
    using read_element_item [of "CHR '','' # literal_items (j # js)" i]
    by (subst parse_elements.simps) (simp add: item_end_def)
qed simp

lemma split_once_colon:
  "c \<notin> set a \<Longrightarrow> split_once [c] (a @ c # b) = Some (a, b)"
  by (induction a) auto

lemma split_once_bracket:
  "CHR '']'' \<notin> set a \<Longrightarrow> split_once '']='' (a @ '']='' @ b) = Some (a, b)"
  by (induction a) auto

lemma show_int_chars: "set (show_int i) \<subseteq> insert CHR ''-'' {c. is_digit c}"
  using show_nat_digits by (auto simp: show_int_def list_all_iff)

lemma is_bound_show_int: "is_bound (show_int i)"
proof -
  have "hd (show_nat n) \<noteq> CHR ''-''" for n
    using hd_show_nat [of n] by auto
  then show ?thesis
    using show_nat_digits by (auto simp: is_bound_def show_int_def Let_def)
qed

lemma strip_dimension_literal:
  "strip_dimension_prefix (text_array_literal items lo) = [CHR 0x7B] @ literal_items items @ [CHR 0x7D]"
proof -
  have no_bracket: "CHR '']'' \<notin> set (show_int i)" "CHR '':'' \<notin> set (show_int i)" for i
    using show_int_chars [of i] by (auto simp: is_digit_def less_eq_char_def)
  let ?up = "lo + int (length items) - 1" and ?tail = "[CHR 0x7B] @ literal_items items @ [CHR 0x7D]"
  have "split_once '']='' ((show_int lo @ [CHR '':''] @ show_int ?up) @ '']='' @ ?tail)
      = Some (show_int lo @ [CHR '':''] @ show_int ?up, ?tail)"
    by (rule split_once_bracket) (use no_bracket in auto)
  moreover have "split_once '':'' (show_int lo @ [CHR '':''] @ show_int ?up)
      = Some (show_int lo, show_int ?up)"
    using split_once_colon [OF no_bracket(2)] by simp
  ultimately show ?thesis
    by (auto simp: strip_dimension_prefix_def text_array_literal_def is_bound_show_int Let_def)
qed

lemma parse_text_array_literal:
  "parse_text_array from_str json_to_string (text_array_literal items lower_bound) = Some items"
proof -
  let ?lit = "text_array_literal items lower_bound"
  have "trim ?lit = ?lit"
    by (rule trim_ends) (auto simp: text_array_literal_def Let_def)
  moreover have "trim (literal_items items) = [] \<longleftrightarrow> items = []"
    using literal_items_ends [of items] trim_ends [of "literal_items items"]
    by (cases "items = []") (auto simp: trim_def strip_front_white_space)
  ultimately show ?thesis
    using parse_elements_literal [of items]
    by (auto simp: parse_text_array_def strip_dimension_literal Let_def)
qed

text \<open>C8: parsing the literal the flush writes for a one-dimensional \<open>text[]\<close> gives back its elements,
  NULLs, quotes, backslashes, blanks and a shifted lower bound included.\<close>

theorem text_array_round_trip:
  "parse_text_array from_str json_to_string (text_array_literal items lower_bound) = Some items"
  by (rule parse_text_array_literal)

subsection \<open>Lexemes of a tsvector\<close>

text \<open>The text PostgreSQL prints for a \<open>tsvector\<close>: lexemes in single quotes with quotes and backslashes
  doubled, each followed by its positions, separated by blanks.\<close>

definition escape_lexeme :: "string \<Rightarrow> string" where
  "escape_lexeme s = concat (map (\<lambda>c. if c = CHR 0x27 \<or> c = CHR 0x5C then [c, c] else [c]) s)"

definition show_lexeme :: "string \<times> string \<Rightarrow> string" where
  "show_lexeme lp = [CHR 0x27] @ escape_lexeme (fst lp) @ [CHR 0x27] @ snd lp"

fun show_tsvector :: "(string \<times> string) list \<Rightarrow> string" where
  "show_tsvector [] = []"
| "show_tsvector [lp] = show_lexeme lp"
| "show_tsvector (lp # lps) = show_lexeme lp @ '' '' @ show_tsvector lps"

definition positions_ok :: "string \<Rightarrow> bool" where
  "positions_ok p \<longleftrightarrow> p = [] \<or> hd p = CHR '':'' \<and> CHR '' '' \<notin> set p"

lemma escape_lexeme_simps [simp]:
  "escape_lexeme [] = []"
  "escape_lexeme (c # s) = (if c = CHR 0x27 \<or> c = CHR 0x5C then [c, c] else [c]) @ escape_lexeme s"
  by (simp_all add: escape_lexeme_def)

lemma read_quoted_escape:
  "rest = [] \<or> hd rest \<noteq> CHR 0x27
     \<Longrightarrow> read_quoted (escape_lexeme s @ CHR 0x27 # rest) = Some (s, rest)"
  by (induction s) (auto split: list.splits)

lemma dropWhile_until: "c \<notin> set l \<Longrightarrow> dropWhile (\<lambda>d. d \<noteq> c) (l @ c # r) = c # r"
  by (induction l) auto

lemma skip_positions_ok:
  assumes "positions_ok p"
  shows "skip_positions (p @ CHR '' '' # rest) = CHR '' '' # rest" "skip_positions p = []"
  using assms by (cases p; auto simp: skip_positions_def positions_ok_def dropWhile_until)+

lemma parse_show_lexeme:
  assumes "positions_ok (snd lp)" "rest = [] \<or> hd rest = CHR '' ''"
  shows "parse_tsvector_lexemes (show_lexeme lp @ rest)
    = map_option ((#) (fst lp)) (parse_tsvector_lexemes rest)"
proof -
  have "read_quoted (escape_lexeme (fst lp) @ CHR 0x27 # snd lp @ rest) = Some (fst lp, snd lp @ rest)"
    using assms by (intro read_quoted_escape) (cases "snd lp"; auto simp: positions_ok_def)
  moreover have "skip_positions (snd lp @ rest) = rest"
    using assms skip_positions_ok [of "snd lp"] by (cases rest) auto
  ultimately show ?thesis
    by (simp add: show_lexeme_def parse_tsvector_lexemes.simps [of "_ # _"])
qed

lemma parse_show_tsvector:
  assumes "list_all (\<lambda>lp. positions_ok (snd lp)) lps"
  shows "parse_tsvector_lexemes (show_tsvector lps) = Some (map fst lps)"
  using assms
proof (induction lps rule: show_tsvector.induct)
  case (2 lp)
  then show ?case
    using parse_show_lexeme [of lp "[]"] by (simp add: parse_tsvector_lexemes.simps)
next
  case (3 lp lq lqs)
  then show ?case
    using parse_show_lexeme [of lp "'' '' @ show_tsvector (lq # lqs)"]
    by (simp add: parse_tsvector_lexemes.simps [of "CHR '' '' # _"])
qed (simp add: parse_tsvector_lexemes.simps)

text \<open>C9: the lexemes read from a printed \<open>tsvector\<close> are exactly its lexemes, whatever characters they
  hold and whatever positions and weights follow them.\<close>

theorem tsvector_round_trip:
  assumes "list_all (\<lambda>lp. positions_ok (snd lp)) lps"
  shows "parse_tsvector_lexemes (show_tsvector lps) = Some (map fst lps)"
  using assms by (rule parse_show_tsvector)

theorem tsvector_round_trip_witness:
  "parse_tsvector_lexemes (show_tsvector [(''it'' @ [CHR 0x27] @ ''s'', '':1A,2''), (''b c'', [])])
   = Some [''it'' @ [CHR 0x27] @ ''s'', ''b c'']"
  using tsvector_round_trip [of "[(''it'' @ [CHR 0x27] @ ''s'', '':1A,2''), (''b c'', [])]"]
  by (simp add: positions_ok_def)

end
