(* ===== verification/Query_Text.thy ===== *)
theory Query_Text
  imports Term_Text
begin

text \<open>
  What the text of a \<open>tsquery\<close> says, apart from the parser that reads it (\<open>QueryParser\<close> in
  \<open>koldstore-parquet/src/term_filter.rs\<close>): the queries of PostgreSQL's documentation, the texts that spell
  them under the documented precedences, and the lexemes a document needs for a match.  The result is that
  the parser's tree of a spelled query never asks for more than the query does.
\<close>

subsection \<open>Queries and their texts\<close>

text \<open>An operand is a lexeme, whether it is a prefix (\<open>:*\<close>), and its weight letters; \<open>Phrase n\<close> is \<open><n>\<close>,
  with \<open><->\<close> for distance one.\<close>

datatype tsquery =
    Operand string bool string
  | Negate tsquery
  | Conj tsquery tsquery
  | Disj tsquery tsquery
  | Phrase nat tsquery tsquery

definition blank :: "string \<Rightarrow> bool" where
  "blank w \<longleftrightarrow> set w \<subseteq> {CHR '' ''}"

definition spells_flags :: "bool \<Rightarrow> string \<Rightarrow> string \<Rightarrow> bool" where
  "spells_flags starts weights s \<longleftrightarrow> (\<not> starts \<and> weights = [] \<and> s = [])
     \<or> (\<exists>flags. s = CHR '':'' # flags \<and> set flags \<subseteq> set ''*ABCDabcd''
          \<and> starts = (CHR ''*'' \<in> set flags) \<and> weights = filter (\<lambda>c. c \<noteq> CHR ''*'') flags)"

definition spells_distance :: "nat \<Rightarrow> string \<Rightarrow> bool" where
  "spells_distance n d \<longleftrightarrow> n = 1 \<and> d = ''-'' \<or> d = show_nat n"

text \<open>Negation binds tightest, then the phrase operators, \<open>&\<close> and \<open>|\<close>; the binary operators group to the
  left.  Blanks may stand before every token.\<close>

inductive unary_text :: "tsquery \<Rightarrow> string \<Rightarrow> bool"
  and phrase_text :: "tsquery \<Rightarrow> string \<Rightarrow> bool"
  and and_text :: "tsquery \<Rightarrow> string \<Rightarrow> bool"
  and or_text :: "tsquery \<Rightarrow> string \<Rightarrow> bool" where
  operand: "blank w \<Longrightarrow> spells_flags starts weights s \<Longrightarrow>
    unary_text (Operand lexeme starts weights) (w @ [CHR 0x27] @ escape_lexeme lexeme @ [CHR 0x27] @ s)"
| negate: "blank w \<Longrightarrow> unary_text q s \<Longrightarrow> unary_text (Negate q) (w @ ''!'' @ s)"
| group: "blank w \<Longrightarrow> blank v \<Longrightarrow> or_text q s \<Longrightarrow> unary_text q (w @ ''('' @ s @ v @ '')'')"
| phrase_one: "unary_text q s \<Longrightarrow> phrase_text q s"
| phrase_more: "phrase_text a s \<Longrightarrow> blank w \<Longrightarrow> spells_distance n d \<Longrightarrow> unary_text b t \<Longrightarrow>
    phrase_text (Phrase n a b) (s @ w @ ''<'' @ d @ ''>'' @ t)"
| and_one: "phrase_text q s \<Longrightarrow> and_text q s"
| and_more: "and_text a s \<Longrightarrow> blank w \<Longrightarrow> phrase_text b t \<Longrightarrow> and_text (Conj a b) (s @ w @ ''&'' @ t)"
| or_one: "and_text q s \<Longrightarrow> or_text q s"
| or_more: "or_text a s \<Longrightarrow> blank w \<Longrightarrow> and_text b t \<Longrightarrow> or_text (Disj a b) (s @ w @ [CHR 0x7C] @ t)"

definition tsquery_text :: "tsquery \<Rightarrow> string \<Rightarrow> bool" where
  "tsquery_text q text \<longleftrightarrow> (\<exists>s w. or_text q s \<and> blank w \<and> text = s @ w)"

subsection \<open>What a match needs\<close>

text \<open>The lexemes of a document allow a match: an operand needs its lexeme, a prefix operand some lexeme that
  starts with it; weights and distances only narrow that down, and so are left out.  A negation needs nothing:
  inside a phrase it speaks of one position, so it can hold of any set of lexemes.\<close>

fun could_match :: "string set \<Rightarrow> tsquery \<Rightarrow> bool" where
  "could_match doc (Operand lexeme starts weights) =
     (if starts then \<exists>l\<in>doc. prefix lexeme l else lexeme \<in> doc)"
| "could_match doc (Negate q) = True"
| "could_match doc (Conj a b) = (could_match doc a \<and> could_match doc b)"
| "could_match doc (Disj a b) = (could_match doc a \<or> could_match doc b)"
| "could_match doc (Phrase n a b) = (could_match doc a \<and> could_match doc b)"

text \<open>The same for the parser's tree, where \<open>Unknown\<close> asks for nothing.\<close>

fun query_may_match :: "string set \<Rightarrow> QueryNode \<Rightarrow> bool" where
  "query_may_match doc Unknown = True"
| "query_may_match doc (Lexeme l) = (l \<in> doc)"
| "query_may_match doc (And nodes) = (\<forall>n\<in>set nodes. query_may_match doc n)"
| "query_may_match doc (Or nodes) = (\<exists>n\<in>set nodes. query_may_match doc n)"

definition allows :: "tsquery \<Rightarrow> QueryNode \<Rightarrow> bool" where
  "allows q node \<longleftrightarrow> (\<forall>doc. could_match doc q \<longrightarrow> query_may_match doc node)"

subsection \<open>Scanning\<close>

lemma skip_ws_blank [simp]: "blank w \<Longrightarrow> skip_ws (w @ s) = skip_ws s"
  by (induction w) (auto simp: blank_def skip_ws_def)

lemma skip_ws_blank_all [simp]: "blank w \<Longrightarrow> skip_ws w = []"
  using skip_ws_blank [of w "[]"] by (simp add: skip_ws_def)

lemma skip_ws_token [simp]: "c \<noteq> CHR '' '' \<Longrightarrow> skip_ws (c # s) = c # s"
  by (simp add: skip_ws_def)

lemma skip_ws_skip_ws [simp]: "skip_ws (skip_ws s) = skip_ws s"
  by (simp add: skip_ws_def)

lemma eat_skip_ws: "eat c s = (case skip_ws s of d # r \<Rightarrow> if d = c then (True, r) else (False, d # r) | [] \<Rightarrow> (False, []))"
  by (simp add: eat_def)

definition stops :: "char set \<Rightarrow> string \<Rightarrow> bool" where
  "stops C s \<longleftrightarrow> skip_ws s = [] \<or> hd (skip_ws s) \<notin> C"

lemma eat_stops: "stops C s \<Longrightarrow> c \<in> C \<Longrightarrow> eat c s = (False, skip_ws s)"
  by (auto simp: stops_def eat_def split: list.splits)

text \<open>What may follow an operand directly.\<close>

definition follows :: "string \<Rightarrow> bool" where
  "follows s \<longleftrightarrow> s = [] \<or> hd s \<in> set '' &<)'' \<or> hd s = CHR 0x7C"

lemma follows_blank: "blank w \<Longrightarrow> follows s \<Longrightarrow> follows (w @ s)"
  by (cases w) (auto simp: follows_def blank_def)

lemma spells_distance_inside: "spells_distance n d \<Longrightarrow> CHR ''>'' \<notin> set d"
  using show_nat_digits [of n] by (auto simp: spells_distance_def list_all_iff is_digit_def less_eq_char_def)

lemma skip_operator_text: "spells_distance n d \<Longrightarrow> skip_operator (CHR ''<'' # d @ CHR ''>'' # s) = s"
  using spells_distance_inside [of n d] by (simp add: skip_operator_def dropWhile_until)

subsection \<open>The parser on spelled queries\<close>

text \<open>Where a call of the parser stands after the text of a query: it is out of fuel, it has answered with a tree
  the query allows, or it runs on in a loop with the trees collected so far.  Blanks may be left to skip.\<close>

definition yields :: "tsquery \<Rightarrow> string \<Rightarrow> QueryNode parse \<Rightarrow> bool" where
  "yields q rest p \<longleftrightarrow> p = Out_of_fuel \<or> (\<exists>node r. p = Done node r \<and> allows q node \<and> skip_ws r = skip_ws rest)"

definition collects :: "(QueryNode list \<Rightarrow> parser_step) \<Rightarrow> (QueryNode list \<Rightarrow> QueryNode) \<Rightarrow> tsquery \<Rightarrow> string \<Rightarrow> QueryNode parse \<Rightarrow> bool"
  where
  "collects loop f q rest p \<longleftrightarrow> p = Out_of_fuel
     \<or> (\<exists>n nodes r. p = run_parser n (loop nodes) r \<and> allows q (f nodes) \<and> skip_ws r = skip_ws rest)"

lemma allows_single:
  "allows q (And nodes) \<Longrightarrow> allows q (single_or And nodes)" "allows q (Or nodes) \<Longrightarrow> allows q (single_or Or nodes)"
  by (cases nodes; fastforce simp: allows_def single_or_def)+

lemma allows_nodes:
  "allows q node \<Longrightarrow> allows q (And [node])" "allows q node \<Longrightarrow> allows q (Or [node])"
  "allows a (And nodes) \<Longrightarrow> allows b node \<Longrightarrow> allows (Conj a b) (And (nodes @ [node]))"
  "allows a (And nodes) \<Longrightarrow> allows b node \<Longrightarrow> allows (Phrase n a b) (And (nodes @ [node]))"
  "allows a (Or nodes) \<Longrightarrow> allows b node \<Longrightarrow> allows (Disj a b) (Or (nodes @ [node]))"
  by (auto simp: allows_def)

lemma collects_first:
  assumes "yields q rest p" "\<And>node. allows q node \<Longrightarrow> allows q (f [node])"
  shows "collects loop f q rest (parse_bind p (\<lambda>node r. run_parser n (loop [node]) r))"
  using assms unfolding yields_def collects_def by fastforce

lemma collects_more:
  assumes "collects loop f a rest p" "\<And>n. yields b rest' (run_parser n m s)"
    and "\<And>n nodes r. skip_ws r = skip_ws rest \<Longrightarrow> run_parser (Suc n) (loop nodes) r
      = parse_bind (run_parser n m s) (\<lambda>node r. run_parser n (loop (nodes @ [node])) r)"
    and "\<And>nodes node. allows a (f nodes) \<Longrightarrow> allows b node \<Longrightarrow> allows q (f (nodes @ [node]))"
  shows "collects loop f q rest' p"
proof (cases "p = Out_of_fuel")
  case False
  then obtain n nodes r where p: "p = run_parser n (loop nodes) r" "allows a (f nodes)" "skip_ws r = skip_ws rest"
    using assms(1) unfolding collects_def by blast
  obtain n' where n: "n = Suc n'"
    using p(1) False by (cases n) auto
  then have "p = parse_bind (run_parser n' m s) (\<lambda>node r. run_parser n' (loop (nodes @ [node])) r)"
    using assms(3) p(1,3) by simp
  then show ?thesis
    using assms(2) [of n'] assms(4) [OF p(2)] unfolding yields_def collects_def by fastforce
qed (simp add: collects_def)

lemma collects_done:
  assumes "collects loop f q rest p" "\<And>nodes. allows q (f nodes) \<Longrightarrow> allows q (single_or f nodes)"
    and "\<And>n nodes r. skip_ws r = skip_ws rest \<Longrightarrow> run_parser (Suc n) (loop nodes) r = Done (single_or f nodes) (skip_ws r)"
  shows "yields q rest p"
proof (cases "p = Out_of_fuel")
  case False
  then obtain n nodes r where p: "p = run_parser n (loop nodes) r" "allows q (f nodes)" "skip_ws r = skip_ws rest"
    using assms(1) unfolding collects_def by blast
  obtain n' where "n = Suc n'"
    using p(1) False by (cases n) auto
  then show ?thesis
    using assms(2,3) p unfolding yields_def by simp
qed (simp add: yields_def)

lemma phrase_done: "collects Phrase_loop And q rest p \<Longrightarrow> stops {CHR ''<''} rest \<Longrightarrow> yields q rest p"
  by (erule collects_done) (auto simp: stops_def allows_single)

lemma and_done: "collects And_loop And q rest p \<Longrightarrow> stops {CHR ''&''} rest \<Longrightarrow> yields q rest p"
  by (erule collects_done) (auto simp: stops_def allows_single eat_def split: list.splits)

lemma or_done: "collects Or_loop Or q rest p \<Longrightarrow> stops {CHR 0x7C} rest \<Longrightarrow> yields q rest p"
  by (erule collects_done) (auto simp: stops_def allows_single eat_def split: list.splits)

lemma flag_chars: "set flags \<subseteq> set ''*ABCDabcd'' \<Longrightarrow> list_all weight_char flags"
  by (auto simp: list_all_iff weight_char_def less_eq_char_def)

lemma follows_operand:
  assumes "follows rest"
  shows "rest = [] \<or> hd rest \<noteq> CHR 0x27 \<and> hd rest \<noteq> CHR '':'' \<and> \<not> weight_char (hd rest)"
  using assms by (auto simp: follows_def weight_char_def less_eq_char_def)

lemma read_operand_text:
  assumes "spells_flags starts weights s" "follows rest"
  shows "\<exists>node. read_operand (CHR 0x27 # escape_lexeme lexeme @ CHR 0x27 # s @ rest) = Done node rest
    \<and> allows (Operand lexeme starts weights) node"
proof -
  note rest = follows_operand [OF assms(2)]
  have quoted: "read_quoted (escape_lexeme lexeme @ CHR 0x27 # s @ rest) = Some (lexeme, s @ rest)"
    using assms(1) rest by (intro read_quoted_escape) (auto simp: spells_flags_def)
  show ?thesis
  proof (cases "s = []")
    case True
    then show ?thesis
      using quoted rest assms(1) by (auto simp: read_operand_def spells_flags_def allows_def)
  next
    case False
    then obtain flags where flags: "s = CHR '':'' # flags" "list_all weight_char flags" "starts = (CHR ''*'' \<in> set flags)"
      using assms(1) flag_chars by (auto simp: spells_flags_def)
    have "takeWhile weight_char (flags @ rest) = flags" "dropWhile weight_char (flags @ rest) = rest"
      using flags(2) rest by (induction flags) (auto simp: takeWhile_eq_Nil_iff dropWhile_eq_self_iff)
    then show ?thesis
      using quoted flags by (simp add: read_operand_def allows_def)
  qed
qed

lemma stops_token: "blank w \<Longrightarrow> c \<notin> C \<Longrightarrow> c \<noteq> CHR '' '' \<Longrightarrow> stops C (w @ c # s)"
  by (simp add: stops_def)

lemma follows_token: "blank w \<Longrightarrow> c \<in> set ''&<)'' \<or> c = CHR 0x7C \<Longrightarrow> follows (w @ c # s)"
  by (rule follows_blank) (auto simp: follows_def)

lemma unary_operand:
  assumes "blank w" "spells_flags starts weights s" "follows rest"
  shows "yields (Operand lexeme starts weights) rest
    (run_parser n Unary_method (w @ CHR 0x27 # escape_lexeme lexeme @ CHR 0x27 # s @ rest))"
  using read_operand_text [OF assms(2,3), of lexeme] assms(1) by (cases n) (auto simp: yields_def eat_def)

lemma unary_negate:
  assumes "blank w" "\<And>n. yields q rest (run_parser n Unary_method s)"
  shows "yields (Negate q) rest (run_parser n Unary_method (w @ CHR ''!'' # s))"
proof (cases n)
  case (Suc n')
  then show ?thesis
    using assms(2) [of n'] assms(1) by (auto simp: yields_def eat_def allows_def)
qed (simp add: yields_def)

lemma unary_group:
  assumes "blank w" "blank v" "\<And>n. collects Or_loop Or q (v @ CHR '')'' # rest) (run_parser n Or_method s)"
  shows "yields q rest (run_parser n Unary_method (w @ CHR ''('' # s))"
proof (cases n)
  case (Suc n')
  have "yields q (v @ CHR '')'' # rest) (run_parser n' Or_method s)"
    using assms(2) by (intro or_done assms(3) stops_token) simp_all
  then show ?thesis
    using Suc assms(1,2) by (auto simp: yields_def eat_def)
qed (simp add: yields_def)

lemma parser_on_text:
  "unary_text q s \<Longrightarrow> follows rest \<Longrightarrow> yields q rest (run_parser n Unary_method (s @ rest))"
  "phrase_text q s \<Longrightarrow> follows rest \<Longrightarrow> collects Phrase_loop And q rest (run_parser n Phrase_method (s @ rest))"
  "and_text q s \<Longrightarrow> follows rest \<Longrightarrow> stops {CHR ''<''} rest
     \<Longrightarrow> collects And_loop And q rest (run_parser n And_method (s @ rest))"
  "or_text q s \<Longrightarrow> follows rest \<Longrightarrow> stops {CHR ''<'', CHR ''&''} rest
     \<Longrightarrow> collects Or_loop Or q rest (run_parser n Or_method (s @ rest))"
proof (induction arbitrary: n rest and n rest and n rest and n rest rule: unary_text_phrase_text_and_text_or_text.inducts)
  case (operand w starts weights s lexeme)
  then show ?case
    using unary_operand by simp
next
  case (negate w q s)
  then show ?case
    using unary_negate [of w q rest "s @ rest"] by simp
next
  case (group w v q s)
  have "collects Or_loop Or q (v @ CHR '')'' # rest) (run_parser n Or_method (s @ v @ CHR '')'' # rest))" for n
    using group by (intro group.IH follows_token stops_token) simp_all
  then show ?case
    using unary_group [OF group(1,2)] by simp
next
  case (phrase_one q s)
  show ?case
  proof (cases n)
    case (Suc n')
    then show ?thesis
      using collects_first [OF phrase_one.IH [OF phrase_one.prems], where f = And] by (simp add: allows_nodes)
  qed (simp add: collects_def)
next
  case (phrase_more a s w m d b t)
  let ?rest = "w @ CHR ''<'' # d @ CHR ''>'' # t @ rest"
  have "collects Phrase_loop And a ?rest (run_parser n Phrase_method (s @ ?rest))"
    using phrase_more by (intro phrase_more.IH follows_token) simp_all
  then have "collects Phrase_loop And (Phrase m a b) rest (run_parser n Phrase_method (s @ ?rest))"
  proof (rule collects_more)
    show "yields b rest (run_parser n Unary_method (t @ rest))" for n
      using phrase_more by blast
  qed (use phrase_more in \<open>simp_all add: skip_operator_text allows_nodes\<close>)
  then show ?case
    by simp
next
  case (and_one q s)
  show ?case
  proof (cases n)
    case (Suc n')
    have "yields q rest (run_parser n' Phrase_method (s @ rest))"
      using and_one by (intro phrase_done and_one.IH) simp_all
    then show ?thesis
      using Suc collects_first [where f = And] by (simp add: allows_nodes)
  qed (simp add: collects_def)
next
  case (and_more a s w b t)
  let ?rest = "w @ CHR ''&'' # t @ rest"
  have "collects And_loop And a ?rest (run_parser n And_method (s @ ?rest))"
    using and_more by (intro and_more.IH follows_token stops_token) simp_all
  then have "collects And_loop And (Conj a b) rest (run_parser n And_method (s @ ?rest))"
  proof (rule collects_more)
    show "yields b rest (run_parser n Phrase_method (t @ rest))" for n
      using and_more by (intro phrase_done and_more.IH) simp_all
  qed (use and_more in \<open>simp_all add: eat_def allows_nodes\<close>)
  then show ?case
    by simp
next
  case (or_one q s)
  show ?case
  proof (cases n)
    case (Suc n')
    have "yields q rest (run_parser n' And_method (s @ rest))"
      using or_one by (intro and_done or_one.IH) (auto simp: stops_def)
    then show ?thesis
      using Suc collects_first [where f = Or] by (simp add: allows_nodes)
  qed (simp add: collects_def)
next
  case (or_more a s w b t)
  let ?rest = "w @ CHR 0x7C # t @ rest"
  have "collects Or_loop Or a ?rest (run_parser n Or_method (s @ ?rest))"
    using or_more by (intro or_more.IH follows_token stops_token) simp_all
  then have "collects Or_loop Or (Disj a b) rest (run_parser n Or_method (s @ ?rest))"
  proof (rule collects_more)
    show "yields b rest (run_parser n And_method (t @ rest))" for n
      using or_more by (intro and_done or_more.IH) (auto simp: stops_def)
  qed (use or_more in \<open>simp_all add: eat_def allows_nodes\<close>)
  then show ?case
    by simp
qed

lemma parse_query_text:
  assumes "tsquery_text q text"
  shows "\<exists>node. parse_query text = Some node \<and> allows q node"
proof -
  obtain s w where spelled: "or_text q s" "blank w" "text = s @ w"
    using assms by (auto simp: tsquery_text_def)
  have "follows w" "stops {CHR ''<'', CHR ''&''} w" "stops {CHR 0x7C} w"
    using spelled(2) follows_blank [of w "[]"] by (simp_all add: follows_def stops_def)
  then have "yields q w (run_parser (query_fuel text) Or_method text)"
    unfolding spelled(3) using parser_on_text(4) [OF spelled(1)] or_done by blast
  then show ?thesis
    using parse_query_total [of "text"] spelled(2) by (auto simp: yields_def parse_query_def)
qed

end
