(* ===== verification/Term_Filter.thy ===== *)
theory Term_Filter
  imports Query_Text Value_Summary "HOL-Library.Multiset"
begin

text \<open>
  Term filters (\<open>koldstore-parquet/src/term_filter.rs\<close>): the terms of \<open>text[]\<close>, \<open>jsonb\<close> and
  \<open>tsvector\<close> values, the bitmap of a segment's terms, and the clauses a containment or text-search
  predicate turns into.  A segment is skipped when some clause has none of its terms in the bitmap;
  the properties say that this never skips a segment holding a matching row.
\<close>

subsection \<open>Terms\<close>

definition TAG_ARRAY_ELEMENT :: u8 where "TAG_ARRAY_ELEMENT = 0x01"
definition TAG_JSON_KEY :: u8 where "TAG_JSON_KEY = 0x02"
definition TAG_JSON_PAIR :: u8 where "TAG_JSON_PAIR = 0x03"
definition TAG_JSON_ELEMENT :: u8 where "TAG_JSON_ELEMENT = 0x04"
definition TAG_TSVECTOR_LEXEME :: u8 where "TAG_TSVECTOR_LEXEME = 0x05"

datatype TermFilterKind = KTextArray | KJsonb | KTsvector

type_synonym clauses = "bytes list list"

definition array_element_term :: "string \<Rightarrow> bytes" where
  "array_element_term element = TAG_ARRAY_ELEMENT # utf8 element"

definition lexeme_term :: "string \<Rightarrow> bytes" where
  "lexeme_term lexeme = TAG_TSVECTOR_LEXEME # utf8 lexeme"

definition json_key_term :: "string \<Rightarrow> bytes" where
  "json_key_term key = TAG_JSON_KEY # utf8 key"

definition json_pair_term :: "string \<Rightarrow> bytes \<Rightarrow> bytes" where
  "json_pair_term key scalar =
     [TAG_JSON_PAIR] @ be_bytes 4 (min u32_max (length key)) @ utf8 key @ scalar"

definition json_element_term :: "bytes \<Rightarrow> bytes" where
  "json_element_term scalar = TAG_JSON_ELEMENT # scalar"

definition term_hash :: "bytes \<Rightarrow> int" where
  "term_hash t = int (unat (summary_hash t))"

text \<open>The parts of \<open>serde_json\<close> the code calls: its parser, its printer and the conversion of a number
  to the bits of an \<open>f64\<close>.\<close>

record term_ext =
  from_str :: "string \<Rightarrow> json option"
  json_to_string :: "json \<Rightarrow> string"
  as_f64 :: "jnumber \<Rightarrow> u64 option"

definition canon_float :: "u64 \<Rightarrow> u64" where
  "canon_float bits = (if bits = 0 \<or> bits = 0x8000000000000000 then 0 else bits)"

fun scalar_canon :: "term_ext \<Rightarrow> json \<Rightarrow> bytes option" where
  "scalar_canon x (JString s) = Some (byte_of CHR ''s'' # utf8 s)"
| "scalar_canon x (JNumber n) =
     map_option (\<lambda>float. byte_of CHR ''n'' # be_bytes 8 (unat (canon_float float))) (as_f64 x n)"
| "scalar_canon x (JBool b) = Some [byte_of (if b then CHR ''t'' else CHR ''f'')]"
| "scalar_canon x JNull = Some [byte_of CHR ''z'']"
| "scalar_canon x (JArray _) = None"
| "scalar_canon x (JObject _) = None"

text \<open>The terms of a document and whether every number in it could be canonicalised; the traversal stops
  at the first that cannot.\<close>

definition then_emit :: "bytes list \<Rightarrow> bytes list \<times> bool \<Rightarrow> bytes list \<times> bool" where
  "then_emit ts r = (ts @ fst r, snd r)"

fun emit_json_terms :: "term_ext \<Rightarrow> json \<Rightarrow> bytes list \<times> bool"
  and emit_fields :: "term_ext \<Rightarrow> (string \<times> json) list \<Rightarrow> bytes list \<times> bool"
  and emit_items :: "term_ext \<Rightarrow> json list \<Rightarrow> bytes list \<times> bool" where
  "emit_json_terms x (JObject m) = emit_fields x m"
| "emit_json_terms x (JArray items) = emit_items x items"
| "emit_json_terms x v = (case scalar_canon x v of
      Some canon \<Rightarrow> ([json_element_term canon], True)
    | None \<Rightarrow> ([], False))"
| "emit_fields x [] = ([], True)"
| "emit_fields x ((key, child) # rest) = (case scalar_canon x child of
      Some scalar \<Rightarrow> then_emit [json_key_term key, json_pair_term key scalar] (emit_fields x rest)
    | None \<Rightarrow>
        (let r = then_emit [json_key_term key] (emit_json_terms x child)
         in if snd r then then_emit (fst r) (emit_fields x rest) else r))"
| "emit_items x [] = ([], True)"
| "emit_items x (item # rest) = (case scalar_canon x item of
      Some scalar \<Rightarrow> then_emit [json_element_term scalar] (emit_items x rest)
    | None \<Rightarrow>
        (let r = emit_json_terms x item
         in if snd r then then_emit (fst r) (emit_items x rest) else r))"

definition value_terms :: "term_ext \<Rightarrow> TermFilterKind \<Rightarrow> string \<Rightarrow> bytes list \<times> bool" where
  "value_terms x kind s = (case kind of
      KTextArray \<Rightarrow>
        (case parse_text_array (from_str x) (json_to_string x) s of
           Some items \<Rightarrow> (map array_element_term (somes items), True)
         | None \<Rightarrow> ([], False))
    | KJsonb \<Rightarrow>
        (case from_str x s of Some v \<Rightarrow> emit_json_terms x v | None \<Rightarrow> ([], False))
    | KTsvector \<Rightarrow>
        (case parse_tsvector_lexemes s of
           Some lexemes \<Rightarrow> (map lexeme_term lexemes, True)
         | None \<Rightarrow> ([], False)))"

subsection \<open>Builder\<close>

text \<open>The \<open>HashSet\<close> is a list without duplicates; its iteration order does not matter
  (\<open>bitmap_of_order\<close>).\<close>

record TermFilterBuilder =
  tf_kind :: TermFilterKind
  tf_hashes :: "u64 list"
  tf_rows :: nat
  tf_complete :: bool

definition tf_new :: "TermFilterKind \<Rightarrow> TermFilterBuilder" where
  "tf_new kind = \<lparr>tf_kind = kind, tf_hashes = [], tf_rows = 0, tf_complete = True\<rparr>"

definition tf_add_value :: "term_ext \<Rightarrow> string \<Rightarrow> TermFilterBuilder \<Rightarrow> TermFilterBuilder \<times> bool" where
  "tf_add_value x s b =
     (let (terms, ok) = value_terms x (tf_kind b) s
      in (b\<lparr>tf_hashes := fold (\<lambda>t. List.insert (summary_hash t)) terms (tf_hashes b)\<rparr>, ok))"

fun tf_add_cells :: "term_ext \<Rightarrow> string option list \<Rightarrow> TermFilterBuilder \<Rightarrow> TermFilterBuilder" where
  "tf_add_cells x [] b = b"
| "tf_add_cells x (cell # cells) b =
     (let b1 = b\<lparr>tf_rows := tf_rows b + 1\<rparr>
      in case cell of
           None \<Rightarrow> tf_add_cells x cells b1
         | Some s \<Rightarrow>
             (let (b2, ok) = tf_add_value x s b1
              in if ok then tf_add_cells x cells b2 else b2\<lparr>tf_complete := False\<rparr>))"

definition tf_add_batch :: "term_ext \<Rightarrow> batch \<Rightarrow> string \<Rightarrow> TermFilterBuilder \<Rightarrow> TermFilterBuilder" where
  "tf_add_batch x bt column b =
     (if \<not> tf_complete b then b
      else case map_of (columns bt) column of
          Some (StringArray cells) \<Rightarrow> tf_add_cells x cells b
        | _ \<Rightarrow> b\<lparr>tf_complete := False\<rparr>)"

definition tf_finish :: "nat \<Rightarrow> TermFilterBuilder \<Rightarrow> bytes option" where
  "tf_finish row_count b =
     (if \<not> tf_complete b \<or> tf_rows b \<noteq> row_count \<or> tf_hashes b = [] then None
      else vsb_finish (insert_hashes (tf_hashes b) vsb_new))"

fun for_each_column_batch :: "(unit + batch) list \<Rightarrow> (batch \<Rightarrow> 's \<Rightarrow> 's) \<Rightarrow> 's \<Rightarrow> rebuild_error + 's" where
  "for_each_column_batch [] visit s = Inr s"
| "for_each_column_batch (Inl _ # rest) visit s = Inl Cannot_read"
| "for_each_column_batch (Inr bt # rest) visit s = for_each_column_batch rest visit (visit bt s)"

definition rebuild_term_filter_from_parquet ::
    "term_ext \<Rightarrow> (string \<Rightarrow> bool) \<Rightarrow> (unit + batch) list \<Rightarrow> string \<Rightarrow> TermFilterKind
     \<Rightarrow> rebuild_error + RebuiltSummary" where
  "rebuild_term_filter_from_parquet x in_schema reader column kind =
     (if \<not> in_schema column then Inl Not_in_object
      else res_bind (for_each_column_batch reader
               (\<lambda>bt (rows, b). (rows + num_rows bt, tf_add_batch x bt column b)) (0, tf_new kind))
             (\<lambda>(rows, b). Inr \<lparr>rs_summary = tf_finish rows b, rs_rows = rows\<rparr>))"

subsection \<open>Probes\<close>

definition array_contains_clauses :: "string option list \<Rightarrow> clauses option" where
  "array_contains_clauses elements =
     (if elements = [] \<or> None \<in> set elements then None
      else Some (map (\<lambda>element. [array_element_term element]) (somes elements)))"

definition array_overlap_clauses :: "string option list \<Rightarrow> clauses option" where
  "array_overlap_clauses elements =
     (let terms = map array_element_term (somes elements)
      in if terms = [] then None else Some [terms])"

fun collect_probe_clauses :: "term_ext \<Rightarrow> json \<Rightarrow> clauses option"
  and collect_fields :: "term_ext \<Rightarrow> (string \<times> json) list \<Rightarrow> clauses option"
  and collect_items :: "term_ext \<Rightarrow> json list \<Rightarrow> clauses option" where
  "collect_probe_clauses x (JObject m) = collect_fields x m"
| "collect_probe_clauses x (JArray items) = collect_items x items"
| "collect_probe_clauses x _ = None"
| "collect_fields x [] = Some []"
| "collect_fields x ((key, child) # rest) =
     (case (case scalar_canon x child of
              Some scalar \<Rightarrow> Some [[json_key_term key], [json_pair_term key scalar]]
            | None \<Rightarrow> map_option ((#) [json_key_term key]) (collect_probe_clauses x child)) of
        None \<Rightarrow> None
      | Some cs \<Rightarrow> map_option ((@) cs) (collect_fields x rest))"
| "collect_items x [] = Some []"
| "collect_items x (item # rest) =
     (case (case scalar_canon x item of
              Some scalar \<Rightarrow> Some [[json_element_term scalar]]
            | None \<Rightarrow> collect_probe_clauses x item) of
        None \<Rightarrow> None
      | Some cs \<Rightarrow> map_option ((@) cs) (collect_items x rest))"

fun is_container :: "json \<Rightarrow> bool" where
  "is_container (JObject _) = True"
| "is_container (JArray _) = True"
| "is_container _ = False"

definition jsonb_contains_clauses :: "term_ext \<Rightarrow> string \<Rightarrow> clauses option" where
  "jsonb_contains_clauses x s = (case from_str x s of
      None \<Rightarrow> None
    | Some v \<Rightarrow>
        if \<not> is_container v then None
        else (case collect_probe_clauses x v of
            None \<Rightarrow> None
          | Some cs \<Rightarrow> if cs = [] then None else Some cs))"

definition exists_terms :: "string \<Rightarrow> bytes list" where
  "exists_terms key = [json_key_term key, json_element_term (byte_of CHR ''s'' # utf8 key)]"

definition jsonb_exists_clauses :: "string list \<Rightarrow> bool \<Rightarrow> clauses option" where
  "jsonb_exists_clauses keys all =
     (if keys = [] then None
      else if all then Some (map exists_terms keys)
      else Some [concat (map exists_terms keys)])"

definition MAX_QUERY_CLAUSES :: nat where "MAX_QUERY_CLAUSES = 64"

text \<open>The outer option is \<open>None\<close> for too many clauses, the inner one for no constraint.\<close>

definition cross_clauses :: "clauses \<Rightarrow> clauses \<Rightarrow> clauses" where
  "cross_clauses acc others = concat (map (\<lambda>left. map (\<lambda>right. left @ right) others) acc)"

fun query_cnf :: "QueryNode \<Rightarrow> clauses option option"
  and cnf_and :: "QueryNode list \<Rightarrow> clauses \<Rightarrow> clauses option"
  and cnf_or :: "QueryNode list \<Rightarrow> clauses option \<Rightarrow> clauses option option" where
  "query_cnf Unknown = Some None"
| "query_cnf (Lexeme lexeme) = Some (Some [[lexeme_term lexeme]])"
| "query_cnf (And children) = (case cnf_and children [] of
      None \<Rightarrow> None
    | Some cs \<Rightarrow> if length cs \<le> MAX_QUERY_CLAUSES then Some (Some cs) else None)"
| "query_cnf (Or children) = cnf_or children None"
| "cnf_and [] cs = Some cs"
| "cnf_and (child # rest) cs = (case query_cnf child of
      None \<Rightarrow> None
    | Some None \<Rightarrow> cnf_and rest cs
    | Some (Some others) \<Rightarrow> cnf_and rest (cs @ others))"
| "cnf_or [] acc = Some (Some (case acc of None \<Rightarrow> [] | Some cs \<Rightarrow> cs))"
| "cnf_or (child # rest) acc = (case query_cnf child of
      None \<Rightarrow> None
    | Some None \<Rightarrow> Some None
    | Some (Some child_clauses) \<Rightarrow>
        (case acc of
           None \<Rightarrow> cnf_or rest (Some child_clauses)
         | Some cs \<Rightarrow>
             (let nxt = cross_clauses cs child_clauses
              in if MAX_QUERY_CLAUSES < length nxt then None else cnf_or rest (Some nxt))))"

definition tsquery_clauses :: "string \<Rightarrow> clauses option" where
  "tsquery_clauses s = (case parse_query s of
      None \<Rightarrow> None
    | Some node \<Rightarrow>
        (case query_cnf node of
           Some (Some cs) \<Rightarrow> if cs = [] then None else Some cs
         | _ \<Rightarrow> None))"

subsection \<open>What the operators mean\<close>

text \<open>The documented meaning of PostgreSQL's operators, on the parsed values.\<close>

definition array_contains :: "string option list \<Rightarrow> string option list \<Rightarrow> bool" where
  "array_contains tags elements \<longleftrightarrow> (\<forall>e\<in>set elements. e \<noteq> None \<and> e \<in> set tags)"

definition array_overlaps :: "string option list \<Rightarrow> string option list \<Rightarrow> bool" where
  "array_overlaps tags elements \<longleftrightarrow> (\<exists>e\<in>set elements. e \<noteq> None \<and> e \<in> set tags)"

inductive json_contains :: "(jnumber \<Rightarrow> jnumber \<Rightarrow> bool) \<Rightarrow> json \<Rightarrow> json \<Rightarrow> bool"
  for num_eq where
  "json_contains num_eq (JString s) (JString s)"
| "num_eq m n \<Longrightarrow> json_contains num_eq (JNumber m) (JNumber n)"
| "json_contains num_eq (JBool b) (JBool b)"
| "json_contains num_eq JNull JNull"
| "(\<And>v. v \<in> set probe \<Longrightarrow> \<exists>d\<in>set doc. json_contains num_eq d v)
     \<Longrightarrow> json_contains num_eq (JArray doc) (JArray probe)"
| "(\<And>k v. (k, v) \<in> set probe \<Longrightarrow> \<exists>d. (k, d) \<in> set doc \<and> json_contains num_eq d v)
     \<Longrightarrow> json_contains num_eq (JObject doc) (JObject probe)"

fun json_has_key :: "json \<Rightarrow> string \<Rightarrow> bool" where
  "json_has_key (JObject m) key = (key \<in> fst ` set m)"
| "json_has_key (JArray items) key = (JString key \<in> set items)"
| "json_has_key (JString s) key = (s = key)"
| "json_has_key _ key = False"

definition hits :: "bytes list \<Rightarrow> clauses \<Rightarrow> bool" where
  "hits terms cs \<longleftrightarrow> list_all (list_ex (\<lambda>t. t \<in> set terms)) cs"

lemma hits_simps [simp]:
  "hits ts []" "hits ts (c # cs) \<longleftrightarrow> (\<exists>t\<in>set c. t \<in> set ts) \<and> hits ts cs"
  "hits ts (cs @ ds) \<longleftrightarrow> hits ts cs \<and> hits ts ds"
  by (auto simp: hits_def list_ex_iff)

lemma hits_mono: "hits ts cs \<Longrightarrow> set ts \<subseteq> set us \<Longrightarrow> hits us cs"
  by (auto simp: hits_def list_all_iff list_ex_iff)

subsection \<open>Clauses are necessary conditions\<close>

lemma hits_cross:
  "hits ts (cross_clauses cs ds) \<longleftrightarrow> hits ts cs \<or> hits ts ds"
  by (auto simp: hits_def cross_clauses_def list_all_iff list_ex_iff) blast+

lemma query_cnf_sound:
  "\<lbrakk>query_cnf node = Some (Some cs); query_may_match doc node\<rbrakk>
     \<Longrightarrow> \<forall>ts. lexeme_term ` doc \<subseteq> set ts \<longrightarrow> hits ts cs"
  "\<lbrakk>cnf_and nodes acc = Some cs; \<forall>n\<in>set nodes. query_may_match doc n\<rbrakk>
     \<Longrightarrow> \<forall>ts. lexeme_term ` doc \<subseteq> set ts \<longrightarrow> hits ts acc \<longrightarrow> hits ts cs"
  "cnf_or nodes oacc = Some (Some cs)
     \<Longrightarrow> \<forall>ts. lexeme_term ` doc \<subseteq> set ts
       \<longrightarrow> (\<exists>n\<in>set nodes. query_may_match doc n) \<or> (\<exists>acc. oacc = Some acc \<and> hits ts acc) \<longrightarrow> hits ts cs"
proof (induction node and nodes acc and nodes oacc arbitrary: cs and cs and cs
    rule: query_cnf_cnf_and_cnf_or.induct)
  case (8 child rest acc)
  then show ?case
    by (auto simp: Let_def hits_cross split: option.splits if_splits)
qed (auto split: option.splits if_splits)

lemma emit_fields_mem:
  "\<lbrakk>snd (emit_fields x m); (k, c) \<in> set m\<rbrakk> \<Longrightarrow>
     json_key_term k \<in> set (fst (emit_fields x m))
     \<and> (case scalar_canon x c of
          Some s \<Rightarrow> json_pair_term k s \<in> set (fst (emit_fields x m))
        | None \<Rightarrow> snd (emit_json_terms x c)
            \<and> set (fst (emit_json_terms x c)) \<subseteq> set (fst (emit_fields x m)))"
proof (induction m)
  case (Cons kc m)
  obtain k' c' where kc: "kc = (k', c')"
    by fastforce
  show ?case
    using Cons kc
    by (cases "scalar_canon x c'"; cases "(k, c) = (k', c')")
      (auto simp: then_emit_def Let_def split: option.splits if_splits)
qed simp

lemma emit_items_mem:
  "\<lbrakk>snd (emit_items x items); c \<in> set items\<rbrakk> \<Longrightarrow>
     (case scalar_canon x c of
        Some s \<Rightarrow> json_element_term s \<in> set (fst (emit_items x items))
      | None \<Rightarrow> snd (emit_json_terms x c)
          \<and> set (fst (emit_json_terms x c)) \<subseteq> set (fst (emit_items x items)))"
proof (induction items)
  case (Cons i items)
  then show ?case
    by (cases "scalar_canon x i"; cases "c = i")
      (auto simp: then_emit_def Let_def split: option.splits if_splits)
qed simp

text \<open>Numbers that PostgreSQL holds equal convert to one float, up to the sign of zero.\<close>

definition floats_agree :: "term_ext \<Rightarrow> (jnumber \<Rightarrow> jnumber \<Rightarrow> bool) \<Rightarrow> bool" where
  "floats_agree x num_eq \<longleftrightarrow> (\<forall>m n u v. num_eq m n \<longrightarrow> as_f64 x m = Some u \<longrightarrow> as_f64 x n = Some v
      \<longrightarrow> canon_float u = canon_float v)"

lemma scalar_canon_contains:
  assumes "json_contains num_eq d v" "scalar_canon x v = Some s" "floats_agree x num_eq"
    and "scalar_canon x d \<noteq> None \<or> snd (emit_json_terms x d)"
  shows "scalar_canon x d = Some s"
  using assms(1)
proof (cases rule: json_contains.cases)
  case (2 m n)
  then obtain u w where "as_f64 x m = Some u" "as_f64 x n = Some w"
    using assms(2,4) by (cases "as_f64 x m"; cases "as_f64 x n") auto
  then show ?thesis
    using 2 assms(2,3) unfolding floats_agree_def by fastforce
qed (use assms(2) in auto)

lemma container_contains:
  assumes "json_contains num_eq d v" "scalar_canon x v = None" "collect_probe_clauses x v = Some cs"
  shows "scalar_canon x d = None"
  using assms by (cases rule: json_contains.cases) auto

lemma collect_fields_sound:
  assumes "collect_fields x probe = Some cs" "snd (emit_fields x doc)" "floats_agree x num_eq"
    and "\<And>k v. (k, v) \<in> set probe \<Longrightarrow> \<exists>d. (k, d) \<in> set doc \<and> json_contains num_eq d v
           \<and> (\<forall>cs. collect_probe_clauses x v = Some cs \<longrightarrow> snd (emit_json_terms x d)
                \<longrightarrow> hits (fst (emit_json_terms x d)) cs)"
  shows "hits (fst (emit_fields x doc)) cs"
  using assms(1,4)
proof (induction probe arbitrary: cs)
  case (Cons kv probe)
  obtain k v where kv: "kv = (k, v)"
    by fastforce
  obtain d where d: "(k, d) \<in> set doc" "json_contains num_eq d v"
    "\<And>cs. \<lbrakk>collect_probe_clauses x v = Some cs; snd (emit_json_terms x d)\<rbrakk>
       \<Longrightarrow> hits (fst (emit_json_terms x d)) cs"
    using Cons.prems(2) [of k v] kv by auto
  note mem = emit_fields_mem [OF assms(2) d(1)]
  obtain c1 c2 where cs: "cs = c1 @ c2" "collect_fields x probe = Some c2"
    and c1: "(case scalar_canon x v of
        Some s \<Rightarrow> Some [[json_key_term k], [json_pair_term k s]]
      | None \<Rightarrow> map_option ((#) [json_key_term k]) (collect_probe_clauses x v)) = Some c1"
    using Cons.prems(1) kv by (auto split: option.splits)
  have "hits (fst (emit_fields x doc)) c1"
  proof (cases "scalar_canon x v")
    case None
    then show ?thesis
      using c1 container_contains [OF d(2) None] mem d(3) by (auto intro: hits_mono)
  next
    case (Some s)
    have "scalar_canon x d = Some s"
      using scalar_canon_contains [OF d(2) Some assms(3)] mem by (auto split: option.splits)
    then show ?thesis
      using c1 Some mem by auto
  qed
  then show ?case
    using Cons.IH [OF cs(2)] Cons.prems(2) cs(1) by auto
qed simp

lemma collect_items_sound:
  assumes "collect_items x probe = Some cs" "snd (emit_items x doc)" "floats_agree x num_eq"
    and "\<And>v. v \<in> set probe \<Longrightarrow> \<exists>d\<in>set doc. json_contains num_eq d v
           \<and> (\<forall>cs. collect_probe_clauses x v = Some cs \<longrightarrow> snd (emit_json_terms x d)
                \<longrightarrow> hits (fst (emit_json_terms x d)) cs)"
  shows "hits (fst (emit_items x doc)) cs"
  using assms(1,4)
proof (induction probe arbitrary: cs)
  case (Cons v probe)
  obtain d where d: "d \<in> set doc" "json_contains num_eq d v"
    "\<And>cs. \<lbrakk>collect_probe_clauses x v = Some cs; snd (emit_json_terms x d)\<rbrakk>
       \<Longrightarrow> hits (fst (emit_json_terms x d)) cs"
    using Cons.prems(2) [of v] by auto
  note mem = emit_items_mem [OF assms(2) d(1)]
  obtain c1 c2 where cs: "cs = c1 @ c2" "collect_items x probe = Some c2"
    and c1: "(case scalar_canon x v of
        Some s \<Rightarrow> Some [[json_element_term s]] | None \<Rightarrow> collect_probe_clauses x v) = Some c1"
    using Cons.prems(1) by (auto split: option.splits)
  have "hits (fst (emit_items x doc)) c1"
  proof (cases "scalar_canon x v")
    case None
    then show ?thesis
      using c1 container_contains [OF d(2) None] mem d(3) by (auto intro: hits_mono)
  next
    case (Some s)
    have "scalar_canon x d = Some s"
      using scalar_canon_contains [OF d(2) Some assms(3)] mem by (auto split: option.splits)
    then show ?thesis
      using c1 Some mem by auto
  qed
  then show ?case
    using Cons.IH [OF cs(2)] Cons.prems(2) cs(1) by auto
qed simp

lemma json_contains_hits:
  assumes "json_contains num_eq d v" "floats_agree x num_eq"
  shows "\<lbrakk>collect_probe_clauses x v = Some cs; snd (emit_json_terms x d)\<rbrakk>
           \<Longrightarrow> hits (fst (emit_json_terms x d)) cs"
  using assms(1)
proof (induction d v arbitrary: cs rule: json_contains.induct)
  case (5 probe doc)
  have "hits (fst (emit_items x doc)) cs"
    using 5 by (intro collect_items_sound [OF _ _ assms(2)]) auto
  then show ?case
    by simp
next
  case (6 probe doc)
  have "hits (fst (emit_fields x doc)) cs"
    using 6 by (intro collect_fields_sound [OF _ _ assms(2)]) auto
  then show ?case
    by simp
qed auto

subsection \<open>The bitmap holds every term of the segment\<close>

text \<open>The catalog query lists the segments to skip: some clause has every one of its hashes at a clear
  bit.  A clause without terms forms no group, and a segment without a filter is never listed.\<close>

definition term_filter_excluded :: "bytes option \<Rightarrow> clauses \<Rightarrow> bool" where
  "term_filter_excluded value_summary cs = (case value_summary of
      None \<Rightarrow> False
    | Some s \<Rightarrow> list_ex (\<lambda>clause. clause \<noteq> []
        \<and> list_all (\<lambda>t. \<not> test_summary_bit s (nat (term_hash t) mod (length s * 8))) clause) cs)"

fun column_cells :: "string \<Rightarrow> batch list \<Rightarrow> string option list option" where
  "column_cells column [] = Some []"
| "column_cells column (bt # bts) = (case map_of (columns bt) column of
      Some (StringArray cells) \<Rightarrow> map_option ((@) cells) (column_cells column bts)
    | _ \<Rightarrow> None)"

definition tf_covers :: "term_ext \<Rightarrow> string option list \<Rightarrow> TermFilterBuilder \<Rightarrow> bool" where
  "tf_covers x cells b \<longleftrightarrow> (\<forall>s. Some s \<in> set cells \<longrightarrow>
      snd (value_terms x (tf_kind b) s)
      \<and> summary_hash ` set (fst (value_terms x (tf_kind b) s)) \<subseteq> set (tf_hashes b))"

lemma set_fold_insert: "set (fold (\<lambda>t. List.insert (f t)) ts hs) = set hs \<union> f ` set ts"
  by (induction ts arbitrary: hs) auto

lemma tf_add_cells_covers:
  assumes "tf_covers x old b" "tf_complete (tf_add_cells x cells b)"
  shows "tf_covers x (old @ cells) (tf_add_cells x cells b)
       \<and> tf_kind (tf_add_cells x cells b) = tf_kind b"
  using assms
proof (induction x cells b arbitrary: old rule: tf_add_cells.induct)
  case (2 x cell cells b)
  show ?case
  proof (cases cell)
    case None
    let ?b1 = "b\<lparr>tf_rows := tf_rows b + 1\<rparr>"
    have "tf_covers x (old @ [None]) ?b1"
      using 2(3) by (auto simp: tf_covers_def)
    then show ?thesis
      using 2(1) [OF refl None, of "old @ [None]"] 2(4) None by (auto simp: Let_def)
  next
    case (Some s)
    let ?b1 = "b\<lparr>tf_rows := tf_rows b + 1\<rparr>"
    obtain b2 ok where add: "tf_add_value x s ?b1 = (b2, ok)"
      by fastforce
    have ok: ok
      using 2(4) Some add by (auto simp: Let_def split: if_splits)
    have kind: "tf_kind b2 = tf_kind b"
      using add by (auto simp: tf_add_value_def split: prod.splits)
    have "tf_covers x (old @ [Some s]) b2"
      using add ok 2(3) kind
      by (auto simp: tf_covers_def tf_add_value_def set_fold_insert image_subset_iff
          split: prod.splits)
    then show ?thesis
      using 2(2) [OF refl Some add [symmetric] refl ok, of "old @ [Some s]"] 2(4) Some add ok kind
      by (auto simp: Let_def)
  qed
qed auto

lemma tf_batches_covers:
  assumes "for_each_column_batch (map Inr bts)
      (\<lambda>bt (rows, b). (rows + num_rows bt, tf_add_batch x bt column b)) (n, b) = Inr (n', b')"
    and "tf_covers x old b" "tf_complete b'"
  shows "tf_complete b \<and> (\<exists>cells. column_cells column bts = Some cells \<and> tf_covers x (old @ cells) b')
       \<and> tf_kind b' = tf_kind b"
  using assms
proof (induction bts arbitrary: n b old)
  case (Cons bt bts)
  let ?b1 = "tf_add_batch x bt column b"
  have b1: "tf_complete ?b1"
    using Cons.IH [of "n + num_rows bt" ?b1 "[]"] Cons.prems(1,3) by (auto simp: tf_covers_def)
  then obtain cells where cells: "map_of (columns bt) column = Some (StringArray cells)"
    "?b1 = tf_add_cells x cells b" "tf_complete b"
    by (auto simp: tf_add_batch_def split: if_splits option.splits arrow.splits)
  have "tf_covers x (old @ cells) ?b1" "tf_kind ?b1 = tf_kind b"
    using tf_add_cells_covers [OF Cons.prems(2), of cells] b1 cells(2) by auto
  then show ?case
    using Cons.IH [of "n + num_rows bt" ?b1 "old @ cells"] Cons.prems(1,3) cells by auto
qed auto

lemma rebuilt_filter_keeps:
  assumes "rebuild_term_filter_from_parquet x in_schema (map Inr bts) column kind = Inr r"
    and "column_cells column bts = Some cells" "Some v \<in> set cells"
    and "snd (value_terms x kind v) \<Longrightarrow> hits (fst (value_terms x kind v)) cs"
  shows "\<not> term_filter_excluded (rs_summary r) cs"
proof (cases "rs_summary r")
  case (Some s)
  obtain n b where fold: "for_each_column_batch (map Inr bts)
      (\<lambda>bt (rows, b). (rows + num_rows bt, tf_add_batch x bt column b)) (0, tf_new kind) = Inr (n, b)"
    and fin: "tf_finish n b = Some s"
    using assms(1) Some
    by (auto simp: rebuild_term_filter_from_parquet_def res_simps split: if_splits)
  have "tf_complete b" and bitmap: "bitmap_of (tf_hashes b) = Some s"
    using fin by (auto simp: tf_finish_def bitmap_of_def split: if_splits)
  then have cov: "tf_covers x cells b" "tf_kind b = kind"
    using tf_batches_covers [OF fold, of "[]"] assms(2) by (auto simp: tf_covers_def tf_new_def)
  then have "hits (fst (value_terms x kind v)) cs"
    using assms(3,4) by (auto simp: tf_covers_def)
  then have "list_all (list_ex (\<lambda>h. h \<in> set (tf_hashes b))) (map (map summary_hash) cs)"
    using assms(3) cov
    by (fastforce simp: tf_covers_def hits_def list_all_iff list_ex_iff)
  then have "list_all (list_ex (bitmap_has s)) (map (map summary_hash) cs)"
    by (rule hash_filter.cnf_kept [OF bitmap])
  moreover have "s \<noteq> []"
    using bitmap_of_Some(3) [OF bitmap] summary_bits_props(2) [of "length (tf_hashes b)"] by auto
  ultimately show ?thesis
    using Some
    by (fastforce simp: term_filter_excluded_def bitmap_has_def term_hash_def list_all_iff list_ex_iff)
qed (simp add: term_filter_excluded_def)

lemma set_summary_bit_commute:
  "set_summary_bit m (set_summary_bit n s) = set_summary_bit n (set_summary_bit m s)"
proof (cases "m div 8 = n div 8")
  case True
  then show ?thesis
    by (cases "n div 8 < length s") (simp_all add: set_summary_bit_def ac_simps not_less list_update_beyond)
next
  case False
  then show ?thesis
    by (simp add: set_summary_bit_def list_update_swap)
qed

lemma bitmap_of_order:
  assumes "mset hs = mset hs'"
  shows "bitmap_of hs = bitmap_of hs'"
proof -
  have "fold (\<lambda>h. set_summary_bit (unat h mod bits)) hs = fold (\<lambda>h. set_summary_bit (unat h mod bits)) hs'"
    for bits
    by (rule fold_multiset_equiv) (auto simp: fun_eq_iff set_summary_bit_commute assms)
  then show ?thesis
    using mset_eq_length [OF assms]
    by (auto simp: bitmap_of_def insert_hashes_new vsb_finish_def Let_def foldl_conv_fold)
qed

subsection \<open>No matching row is skipped\<close>

text \<open>C10: let a row hold a \<open>tsvector\<close> as PostgreSQL prints it, and let the text given to
  \<open>tsquery_clauses\<close> spell a query under the documented syntax (quoted operands with prefix and weight flags,
  negation, phrase operators, \<open>&\<close>, \<open>|\<close>, parentheses and blanks).  When the row's lexemes allow the query to
  match, the clauses keep the row's segment.  Both texts are related to what they mean without the code's
  parsers.\<close>

theorem tsquery_never_skips_match:
  assumes "rebuild_term_filter_from_parquet x in_schema (map Inr bts) column KTsvector = Inr r"
    and "column_cells column bts = Some cells" and "Some (show_tsvector lps) \<in> set cells"
    and "list_all (\<lambda>lp. positions_ok (snd lp)) lps"
    and "tsquery_text q query" and "tsquery_clauses query = Some cs"
    and "could_match (fst ` set lps) q"
  shows "\<not> term_filter_excluded (rs_summary r) cs"
proof -
  obtain node where node: "parse_query query = Some node" "allows q node"
    using parse_query_text [OF assms(5)] by blast
  then have "query_cnf node = Some (Some cs)"
    using assms(6) by (auto simp: tsquery_clauses_def split: option.splits if_splits)
  moreover have "query_may_match (fst ` set lps) node"
    using node(2) assms(7) by (simp add: allows_def)
  ultimately have "hits (fst (value_terms x KTsvector (show_tsvector lps))) cs"
    using query_cnf_sound(1) [of node cs "fst ` set lps"] parse_show_tsvector [OF assms(4)]
    by (simp add: value_terms_def image_image)
  then show ?thesis
    by (rule rebuilt_filter_keeps [OF assms(1-3)])
qed

text \<open>C11: when a row's \<open>jsonb\<close> document contains the probe document (\<open>@>\<close>) or has the probed keys
  (\<open>?\<close>, \<open>?|\<close>, \<open>?&\<close>), the clauses of the probe keep the row's segment.\<close>

theorem jsonb_never_skips_match:
  assumes "rebuild_term_filter_from_parquet x in_schema (map Inr bts) column KJsonb = Inr r"
    and "column_cells column bts = Some cells" and "Some v \<in> set cells"
    and "from_str x v = Some doc" and "floats_agree x num_eq"
    and "(jsonb_contains_clauses x p = Some cs \<and> from_str x p = Some probe
            \<and> json_contains num_eq doc probe)
         \<or> (jsonb_exists_clauses keys True = Some cs \<and> (\<forall>k\<in>set keys. json_has_key doc k))
         \<or> (jsonb_exists_clauses keys False = Some cs \<and> (\<exists>k\<in>set keys. json_has_key doc k))"
  shows "\<not> term_filter_excluded (rs_summary r) cs"
proof -
  have key: "\<exists>t\<in>set (exists_terms k). t \<in> set (fst (emit_json_terms x doc))"
    if "json_has_key doc k" "snd (emit_json_terms x doc)" for k
    using that emit_fields_mem [of x _ k] emit_items_mem [of x _ "JString k"]
    by (cases doc) (auto simp: exists_terms_def)
  consider "jsonb_contains_clauses x p = Some cs" "from_str x p = Some probe"
      "json_contains num_eq doc probe"
    | "jsonb_exists_clauses keys True = Some cs" "\<forall>k\<in>set keys. json_has_key doc k"
    | "jsonb_exists_clauses keys False = Some cs" "\<exists>k\<in>set keys. json_has_key doc k"
    using assms(6) by blast
  then have "hits (fst (emit_json_terms x doc)) cs" if ok: "snd (emit_json_terms x doc)"
  proof cases
    case 1
    then have "collect_probe_clauses x probe = Some cs"
      by (auto simp: jsonb_contains_clauses_def split: option.splits if_splits)
    then show ?thesis
      using json_contains_hits [OF 1(3) assms(5) _ ok] by blast
  next
    case 2
    then show ?thesis
      using key [OF _ ok] by (auto simp: jsonb_exists_clauses_def hits_def list_all_iff list_ex_iff
          split: if_splits)
  next
    case 3
    then show ?thesis
      using key [OF _ ok] by (fastforce simp: jsonb_exists_clauses_def hits_def list_ex_iff split: if_splits)
  qed
  then show ?thesis
    using rebuilt_filter_keeps [OF assms(1-3)] assms(4) by (simp add: value_terms_def)
qed

text \<open>C12: when a row's \<open>text[]\<close> contains all probed elements (\<open>@>\<close>) or overlaps them (\<open>&&\<close>), the
  clauses of the probe keep the row's segment.\<close>

theorem text_array_never_skips_match:
  assumes "rebuild_term_filter_from_parquet x in_schema (map Inr bts) column KTextArray = Inr r"
    and "column_cells column bts = Some cells"
    and "Some (text_array_literal tags lower_bound) \<in> set cells"
    and "(array_contains_clauses elements = Some cs \<and> array_contains tags elements)
         \<or> (array_overlap_clauses elements = Some cs \<and> array_overlaps tags elements)"
  shows "\<not> term_filter_excluded (rs_summary r) cs"
proof -
  have mem: "e \<in> set (somes es) \<longleftrightarrow> Some e \<in> set es" for e and es :: "string option list"
    by (force simp: somes_def map_filter_def)
  have terms: "fst (value_terms x KTextArray (text_array_literal tags lower_bound))
      = map array_element_term (somes tags)"
    by (simp add: value_terms_def parse_text_array_literal)
  have "hits (map array_element_term (somes tags)) cs"
    using assms(4)
    by (fastforce simp: array_contains_clauses_def array_overlap_clauses_def array_contains_def
        array_overlaps_def hits_def list_all_iff list_ex_iff mem Let_def split: if_splits)
  then show ?thesis
    using rebuilt_filter_keeps [OF assms(1-3)] terms by simp
qed

subsection \<open>Concrete segments\<close>

definition sample_terms :: term_ext where
  "sample_terms = \<lparr>from_str = (\<lambda>s. if s = ''doc'' then Some (JObject [(''a'', JBool True)]) else None),
     json_to_string = (\<lambda>_. []), as_f64 = (\<lambda>_. None)\<rparr>"

definition term_batch :: "string \<Rightarrow> batch" where
  "term_batch v = \<lparr>columns = [(''c'', StringArray [Some v])], num_rows = 1\<rparr>"

definition quoted :: "string \<Rightarrow> string" where
  "quoted s = CHR 0x27 # s @ [CHR 0x27]"

lemma term_batch_cells: "column_cells ''c'' [term_batch v] = Some [Some v]"
  by (simp add: term_batch_def)

lemma fold_insert_Nil: "ts \<noteq> [] \<Longrightarrow> fold (\<lambda>t. List.insert (f t)) ts [] \<noteq> []"
  using set_fold_insert [of f ts "[]"] by (metis Un_empty image_is_empty set_empty)

lemma term_batch_filter:
  assumes "value_terms x kind v = (ts, True)" "ts \<noteq> []"
  shows "\<exists>r. rebuild_term_filter_from_parquet x (\<lambda>_. True) (map Inr [term_batch v]) ''c'' kind = Inr r
    \<and> rs_summary r = bitmap_of (fold (\<lambda>t. List.insert (summary_hash t)) ts [])"
  using assms
  by (simp add: rebuild_term_filter_from_parquet_def term_batch_def tf_add_batch_def tf_new_def
      tf_add_value_def tf_finish_def bitmap_of_def res_simps fold_insert_Nil)

theorem tsquery_never_skips_match_witness:
  "\<not> term_filter_excluded (bitmap_of [summary_hash (lexeme_term ''cat'')]) [[lexeme_term ''cat'']]"
proof -
  let ?doc = "[(''cat'', '':1'')]"
  let ?query = "quoted ''cat'' @ '' & !'' @ quoted ''dog'' @ '':*''"
  have ok: "list_all (\<lambda>lp. positions_ok (snd lp)) ?doc"
    by (simp add: positions_ok_def)
  obtain r where
    r: "rebuild_term_filter_from_parquet sample_terms (\<lambda>_. True) (map Inr [term_batch (show_tsvector ?doc)]) ''c'' KTsvector = Inr r"
    "rs_summary r = bitmap_of [summary_hash (lexeme_term ''cat'')]"
    using term_batch_filter [of sample_terms KTsvector "show_tsvector ?doc" "[lexeme_term ''cat'']"] parse_show_tsvector [OF ok]
    by (auto simp: value_terms_def)
  have cat: "unary_text (Operand ''cat'' False []) (quoted ''cat'')"
    using operand [of "[]" False "[]" "[]" "''cat''"] by (simp add: blank_def spells_flags_def quoted_def)
  have dog: "unary_text (Operand ''dog'' True []) (quoted ''dog'' @ '':*'')"
    using operand [of "[]" True "[]" "'':*''" "''dog''"] by (simp add: blank_def spells_flags_def quoted_def)
  have "phrase_text (Negate (Operand ''dog'' True [])) ('' !'' @ quoted ''dog'' @ '':*'')"
    using negate [of "'' ''", OF _ dog] by (auto simp: blank_def intro: phrase_one)
  moreover have "and_text (Operand ''cat'' False []) (quoted ''cat'')"
    by (intro and_one phrase_one cat)
  ultimately have "or_text (Conj (Operand ''cat'' False []) (Negate (Operand ''dog'' True []))) ?query"
    using or_one [OF and_more [of _ "quoted ''cat''" "'' ''"]] by (simp add: blank_def)
  then have spelled: "tsquery_text (Conj (Operand ''cat'' False []) (Negate (Operand ''dog'' True []))) ?query"
    unfolding tsquery_text_def by (metis append_Nil2 blank_def empty_set empty_subsetI)
  have clauses: "tsquery_clauses ?query = Some [[lexeme_term ''cat'']]"
    by code_simp
  have "could_match (fst ` set ?doc) (Conj (Operand ''cat'' False []) (Negate (Operand ''dog'' True [])))"
    by simp
  then show ?thesis
    using tsquery_never_skips_match [OF r(1) term_batch_cells _ ok spelled clauses] r(2) by simp
qed

theorem jsonb_never_skips_match_witness:
  "\<not> term_filter_excluded
     (bitmap_of (fold (\<lambda>t. List.insert (summary_hash t))
        [json_key_term ''a'', json_pair_term ''a'' [byte_of CHR ''t'']] []))
     [[json_key_term ''a''], [json_pair_term ''a'' [byte_of CHR ''t'']]]"
proof -
  obtain r where
    "rebuild_term_filter_from_parquet sample_terms (\<lambda>_. True) (map Inr [term_batch ''doc'']) ''c'' KJsonb = Inr r"
    "rs_summary r = bitmap_of (fold (\<lambda>t. List.insert (summary_hash t))
        [json_key_term ''a'', json_pair_term ''a'' [byte_of CHR ''t'']] [])"
    using term_batch_filter [of sample_terms KJsonb "''doc''"
        "[json_key_term ''a'', json_pair_term ''a'' [byte_of CHR ''t'']]"]
    by (auto simp: value_terms_def then_emit_def sample_terms_def)
  moreover have "json_contains (=) (JObject [(''a'', JBool True)]) (JObject [(''a'', JBool True)])"
    by (rule json_contains.intros) (auto intro: json_contains.intros)
  moreover have "floats_agree sample_terms (=)"
    by (simp add: floats_agree_def)
  moreover have "jsonb_contains_clauses sample_terms ''doc'' = Some [[json_key_term ''a''], [json_pair_term ''a'' [byte_of CHR ''t'']]]"
    by (simp add: jsonb_contains_clauses_def sample_terms_def)
  moreover have "from_str sample_terms ''doc'' = Some (JObject [(''a'', JBool True)])"
    by (simp add: sample_terms_def)
  ultimately show ?thesis
    using jsonb_never_skips_match [OF _ term_batch_cells] by fastforce
qed

theorem text_array_never_skips_match_witness:
  "\<not> term_filter_excluded (bitmap_of [summary_hash (array_element_term ''x'')]) [[array_element_term ''x'']]"
proof -
  obtain r where
    "rebuild_term_filter_from_parquet sample_terms (\<lambda>_. True)
       (map Inr [term_batch (text_array_literal [Some ''x''] 1)]) ''c'' KTextArray = Inr r"
    "rs_summary r = bitmap_of [summary_hash (array_element_term ''x'')]"
    using term_batch_filter [of sample_terms KTextArray "text_array_literal [Some ''x''] 1"]
    by (auto simp: value_terms_def parse_text_array_literal)
  moreover have "array_contains_clauses [Some ''x''] = Some [[array_element_term ''x'']]"
    by (simp add: array_contains_clauses_def)
  moreover have "array_contains [Some ''x''] [Some ''x'']"
    by (simp add: array_contains_def)
  ultimately show ?thesis
    using text_array_never_skips_match [OF _ term_batch_cells] by fastforce
qed

end
