(* ===== verification/Domain.thy ===== *)
theory Domain
  imports Json Complex_Main
begin

text \<open>
  The shared row model (\<open>koldstore-common/src/domain\<close>): sequence ids, scope keys, column ids, primary-key
  shapes and logical primary keys, hot and cold rows, mirror operations.  Newtypes with a checked
  constructor keep the type of their field; the constructor is the function that checks it.
\<close>

subsection \<open>Errors\<close>

record Diagnostic =
  code :: string
  detail :: string
  hint :: "string option"

definition diagnostic_new :: "string \<Rightarrow> string \<Rightarrow> Diagnostic" where
  "diagnostic_new c d = \<lparr>code = c, detail = d, hint = None\<rparr>"

definition with_hint :: "Diagnostic \<Rightarrow> string \<Rightarrow> Diagnostic" where
  "with_hint d h = d\<lparr>hint := Some h\<rparr>"

datatype KoldstoreError =
    InvalidSequence string int
  | UnsupportedTableKind string
  | InvalidIdentifier string string
  | InvalidPrimaryKey string
  | InvalidOperationCode int
  | UnsafePredicate string
  | InvalidStateTransition string string
  | CatalogValidation Diagnostic
  | InvalidColdSegmentMetadata string
  | JsonError string

subsection \<open>Sequence ids, scope keys, column ids\<close>

type_synonym SeqId = int
type_synonym ScopeKey = string
type_synonym ColumnId = int

definition seq_new :: "int \<Rightarrow> KoldstoreError + SeqId" where
  "seq_new value = (if value = 0 then Inl (InvalidSequence ''seq'' value)
     else if value < 0 then Inl (InvalidSequence ''seq'' value)
     else Inr value)"

definition scope_key_new :: "string \<Rightarrow> KoldstoreError + ScopeKey" where
  "scope_key_new value = (let trimmed = trim value in
     if trimmed = [] then Inl (InvalidPrimaryKey ''scope key cannot be empty'') else Inr trimmed)"

definition column_id_new :: "int \<Rightarrow> KoldstoreError + ColumnId" where
  "column_id_new value = (if value = 0 then Inl (InvalidIdentifier ''column_id'' ''0'') else Inr value)"

subsection \<open>Primary-key shape\<close>

type_synonym PkColumn = string

definition pk_column_new :: "string \<Rightarrow> KoldstoreError + PkColumn" where
  "pk_column_new name = (if name = [] then Inl (InvalidPrimaryKey ''primary-key column name cannot be empty'')
     else Inr name)"

definition pk_ordinal_new :: "nat \<Rightarrow> KoldstoreError + nat" where
  "pk_ordinal_new value = (if value = 0 then Inl (InvalidPrimaryKey ''primary-key ordinal must be greater than zero'')
     else Inr value)"

definition pg_type_oid_new :: "nat \<Rightarrow> KoldstoreError + nat" where
  "pg_type_oid_new value = (if value = 0 then Inl (InvalidPrimaryKey ''primary-key type oid must be greater than zero'')
     else Inr value)"

definition pg_type_name_new :: "string \<Rightarrow> KoldstoreError + string" where
  "pg_type_name_new value = (let trimmed = trim value in
     if trimmed = [] then Inl (InvalidPrimaryKey ''primary-key type name cannot be empty'') else Inr trimmed)"

definition pg_collation_new :: "string \<Rightarrow> KoldstoreError + string" where
  "pg_collation_new value = (let trimmed = trim value in
     if trimmed = [] then Inl (InvalidPrimaryKey ''primary-key collation cannot be empty'') else Inr trimmed)"

record PrimaryKeyColumnShape =
  column_id :: ColumnId
  column_name :: PkColumn
  ordinal :: nat
  type_oid_of :: nat
  type_name :: string
  typmod :: int
  collation :: "string option"
  domain_identity :: "string option"
  not_null :: bool

fun check_shape :: "nat \<Rightarrow> PkColumn list \<Rightarrow> ColumnId list \<Rightarrow> nat list \<Rightarrow> PrimaryKeyColumnShape list
    \<Rightarrow> KoldstoreError + unit" where
  "check_shape idx seen_columns seen_column_ids seen_ordinals [] = Inr ()"
| "check_shape idx seen_columns seen_column_ids seen_ordinals (c # cs) =
     (if idx + 1 > u16_max then Inl (InvalidPrimaryKey ''primary-key shape has too many columns'')
      else if ordinal c \<noteq> idx + 1 then
        Inl (InvalidPrimaryKey (''primary-key ordinal '' @ show_nat (ordinal c)
               @ '' does not match position '' @ show_nat (idx + 1)))
      else if column_name c \<in> set seen_columns then
        Inl (InvalidPrimaryKey (''duplicate primary-key column: '' @ column_name c))
      else if column_id c \<in> set seen_column_ids then
        Inl (InvalidPrimaryKey (''duplicate primary-key column ID: '' @ show_int (column_id c)))
      else if ordinal c \<in> set seen_ordinals then
        Inl (InvalidPrimaryKey (''duplicate primary-key ordinal: '' @ show_nat (ordinal c)))
      else check_shape (idx + 1) (column_name c # seen_columns) (column_id c # seen_column_ids)
             (ordinal c # seen_ordinals) cs)"

definition primary_key_shape_new :: "PrimaryKeyColumnShape list \<Rightarrow> KoldstoreError + PrimaryKeyColumnShape list" where
  "primary_key_shape_new columns =
     (if columns = [] then Inl (InvalidPrimaryKey ''primary-key shape must include at least one column'')
      else res_bind (check_shape 0 [] [] [] columns) (\<lambda>_. Inr columns))"

definition ordered_columns :: "PrimaryKeyColumnShape list \<Rightarrow> PkColumn list" where
  "ordered_columns columns = map column_name columns"

subsection \<open>Logical primary keys\<close>

text \<open>The float view \<open>serde_json\<close> gives of a number: whether it is a float, and the finite double it
  parses to, as the rational it is.\<close>

record num_ext =
  is_f64 :: "jnumber \<Rightarrow> bool"
  f64_of :: "jnumber \<Rightarrow> rat option"

type_synonym PkValue = json

fun normalize_pk_number :: "num_ext \<Rightarrow> json \<Rightarrow> json" where
  "normalize_pk_number x (JNumber number) =
     (if is_f64 x number then
        (case f64_of x number of
           Some float \<Rightarrow> if float = of_int \<lfloor>float\<rfloor> \<and> \<bar>float\<bar> < 9 * 10 ^ 15 then number_of_int \<lfloor>float\<rfloor>
                         else JNumber number
         | None \<Rightarrow> JNumber number)
      else JNumber number)"
| "normalize_pk_number x v = v"

definition pk_value_new :: "num_ext \<Rightarrow> json \<Rightarrow> KoldstoreError + PkValue" where
  "pk_value_new x v = (if v = JNull then Inl (InvalidPrimaryKey ''primary-key value cannot be null'')
     else Inr (normalize_pk_number x v))"

type_synonym LogicalPk = "(PkColumn \<times> PkValue) list"

datatype LogicalPkValues = Single PkValue | Composite "PkValue list"

fun find_duplicate :: "PkColumn list \<Rightarrow> PkColumn list \<Rightarrow> PkColumn option" where
  "find_duplicate seen [] = None"
| "find_duplicate seen (c # cs) = (if c \<in> set seen then Some c else find_duplicate (c # seen) cs)"

definition logical_pk_new :: "LogicalPk \<Rightarrow> KoldstoreError + LogicalPk" where
  "logical_pk_new columns =
     (if columns = [] then Inl (InvalidPrimaryKey ''primary key must include at least one column'')
      else case find_duplicate [] (map fst columns) of
        Some c \<Rightarrow> Inl (InvalidPrimaryKey (''duplicate primary-key column: '' @ c))
      | None \<Rightarrow> Inr columns)"

definition from_json_object :: "num_ext \<Rightarrow> json \<Rightarrow> PkColumn list \<Rightarrow> KoldstoreError + LogicalPk" where
  "from_json_object x pk cols = (case as_object pk of
      None \<Rightarrow> Inl (InvalidPrimaryKey ''primary-key JSON must be an object'')
    | Some m \<Rightarrow> res_bind
        (res_list (\<lambda>c. res_bind
             (ok_or (InvalidPrimaryKey (''primary-key JSON missing column: '' @ c)) (map_of m c))
             (\<lambda>v. res_bind (pk_value_new x v) (\<lambda>pv. Inr (c, pv)))) cols)
        logical_pk_new)"

definition to_canonical_json :: "LogicalPk \<Rightarrow> json" where
  "to_canonical_json pk = JObject (fold (\<lambda>(c, v). map_insert c v) pk [])"

text \<open>\<open>into_values\<close> panics on an empty key, which \<open>LogicalPk::new\<close> never builds.\<close>

definition into_values :: "LogicalPk \<Rightarrow> LogicalPkValues" where
  "into_values pk = (case map snd pk of [v] \<Rightarrow> Single v | vs \<Rightarrow> Composite vs)"

text \<open>The bytes \<open>StablePkHash::compute\<close> feeds its digest; SHA-256, hexadecimal and the JSON printer are
  parameters.\<close>

definition pk_hash_input :: "(json \<Rightarrow> string) \<Rightarrow> LogicalPk \<Rightarrow> bytes" where
  "pk_hash_input show_json pk =
     concat (map (\<lambda>(c, v). utf8 c @ [0] @ utf8 (show_json v) @ [0xFF]) pk)"

definition compute_pk_hash :: "(bytes \<Rightarrow> string) \<Rightarrow> (json \<Rightarrow> string) \<Rightarrow> LogicalPk \<Rightarrow> string" where
  "compute_pk_hash sha256_hex show_json pk = sha256_hex (pk_hash_input show_json pk)"

definition pk_hash_from_hex :: "string \<Rightarrow> KoldstoreError + string" where
  "pk_hash_from_hex value = (let trimmed = trim value in
     if trimmed = [] then Inl (InvalidPrimaryKey ''primary-key hash cannot be empty'') else Inr trimmed)"

subsection \<open>Cells and row images\<close>

text \<open>Floating-point cells hold their bit patterns.\<close>

datatype CellValue =
    CNull | CBool bool | CInt16 int | CInt32 int | CInt64 int | CFloat32 u32 | CFloat64 u64
  | CUtf8 string | CTimestamptzMicros int | CTimestampMicros int | CDateDays int

fun cell_is_null :: "CellValue \<Rightarrow> bool" where
  "cell_is_null CNull = True"
| "cell_is_null _ = False"

fun cell_as_bool :: "CellValue \<Rightarrow> bool option" where
  "cell_as_bool (CBool b) = Some b"
| "cell_as_bool _ = None"

fun cell_as_i64 :: "CellValue \<Rightarrow> int option" where
  "cell_as_i64 (CInt16 n) = Some n"
| "cell_as_i64 (CInt32 n) = Some n"
| "cell_as_i64 (CDateDays n) = Some n"
| "cell_as_i64 (CInt64 n) = Some n"
| "cell_as_i64 (CTimestamptzMicros n) = Some n"
| "cell_as_i64 (CTimestampMicros n) = Some n"
| "cell_as_i64 _ = None"

fun cell_as_str :: "CellValue \<Rightarrow> string option" where
  "cell_as_str (CUtf8 s) = Some s"
| "cell_as_str _ = None"

definition narrowest :: "int \<Rightarrow> CellValue" where
  "narrowest n = (if in_i16 n then CInt16 n else if in_i32 n then CInt32 n else CInt64 n)"

text \<open>\<open>show_json\<close> is the compact printer of \<open>serde_json\<close>, \<open>f64_bits\<close> its conversion to a finite double.\<close>

fun cell_from_json :: "(json \<Rightarrow> string) \<Rightarrow> (jnumber \<Rightarrow> u64 option) \<Rightarrow> json \<Rightarrow> CellValue" where
  "cell_from_json show_json f64_bits JNull = CNull"
| "cell_from_json show_json f64_bits (JBool flag) = CBool flag"
| "cell_from_json show_json f64_bits (JNumber number) =
     (case as_i64 (JNumber number) of
        Some n \<Rightarrow> narrowest n
      | None \<Rightarrow> (case as_u64 (JNumber number) of
          Some n \<Rightarrow> if int n \<le> i64_max then narrowest (int n) else CUtf8 (show_nat n)
        | None \<Rightarrow> (case f64_bits number of Some f \<Rightarrow> CFloat64 f | None \<Rightarrow> CUtf8 number)))"
| "cell_from_json show_json f64_bits (JString text) = CUtf8 text"
| "cell_from_json show_json f64_bits v = CUtf8 (show_json v)"

type_synonym RowImage = "string \<rightharpoonup> CellValue"

definition image_get :: "RowImage \<Rightarrow> string \<Rightarrow> CellValue option" where
  "image_get cells name = cells name"

definition image_insert :: "RowImage \<Rightarrow> string \<Rightarrow> CellValue \<Rightarrow> RowImage \<times> CellValue option" where
  "image_insert cells name v = (cells(name \<mapsto> v), cells name)"

definition image_remove :: "RowImage \<Rightarrow> string \<Rightarrow> RowImage \<times> CellValue option" where
  "image_remove cells name = (cells(name := None), cells name)"

fun image_from_json :: "(json \<Rightarrow> string) \<Rightarrow> (jnumber \<Rightarrow> u64 option) \<Rightarrow> json \<Rightarrow> KoldstoreError + RowImage" where
  "image_from_json show_json f64_bits JNull = Inr Map.empty"
| "image_from_json show_json f64_bits (JObject m) =
     Inr (fold (\<lambda>(name, cell) cells. cells(name \<mapsto> cell_from_json show_json f64_bits cell)) m Map.empty)"
| "image_from_json show_json f64_bits other = Inl (InvalidIdentifier ''row_image'' (show_json other))"

subsection \<open>Rows\<close>

datatype MirrorOperation = Insert | Update | Delete

fun op_code :: "MirrorOperation \<Rightarrow> int" where
  "op_code Insert = 1"
| "op_code Update = 2"
| "op_code Delete = 3"

definition op_from_code :: "int \<Rightarrow> KoldstoreError + MirrorOperation" where
  "op_from_code c = (if c = 1 then Inr Insert else if c = 2 then Inr Update else if c = 3 then Inr Delete
     else Inl (InvalidOperationCode c))"

fun op_is_delete :: "MirrorOperation \<Rightarrow> bool" where
  "op_is_delete Delete = True"
| "op_is_delete _ = False"

record MirrorState =
  state_operation :: "MirrorOperation option"

definition state_missing :: MirrorState where
  "state_missing = \<lparr>state_operation = None\<rparr>"

definition state_apply :: "MirrorState \<Rightarrow> MirrorOperation \<Rightarrow> MirrorState" where
  "state_apply s operation = \<lparr>state_operation = Some operation\<rparr>"

definition state_is_tombstone :: "MirrorState \<Rightarrow> bool" where
  "state_is_tombstone s \<longleftrightarrow> state_operation s = Some Delete"

record HotRow =
  hot_pk :: LogicalPk
  hot_scope_key :: "ScopeKey option"
  hot_seq :: SeqId
  hot_deleted :: bool
  hot_row_image :: RowImage

record ColdRow =
  cold_pk :: LogicalPk
  cold_scope_key :: "ScopeKey option"
  cold_seq :: SeqId
  cold_deleted :: bool
  cold_schema_version :: nat
  cold_row_image :: RowImage

record Tombstone =
  tomb_pk :: LogicalPk
  tomb_scope_key :: "ScopeKey option"
  tomb_seq :: SeqId
  tomb_pk_hash :: string

definition into_tombstone :: "(bytes \<Rightarrow> string) \<Rightarrow> (json \<Rightarrow> string) \<Rightarrow> HotRow \<Rightarrow> Tombstone" where
  "into_tombstone sha256_hex show_json row =
     \<lparr>tomb_pk = hot_pk row, tomb_scope_key = hot_scope_key row, tomb_seq = hot_seq row,
      tomb_pk_hash = compute_pk_hash sha256_hex show_json (hot_pk row)\<rparr>"

datatype ChangeSource = HotMirror | ColdRecord

record MirrorChange =
  change_table_oid :: nat
  change_scope_key :: "ScopeKey option"
  change_pk_json :: json
  change_operation :: MirrorOperation
  change_seq :: SeqId
  change_deleted :: bool
  change_row_image_json :: "json option"
  change_source :: ChangeSource

subsection \<open>Accepted shapes\<close>

lemma check_shape_ok:
  "check_shape idx ns is os cs = Inr () \<longleftrightarrow>
     (idx + length cs \<le> u16_max \<or> cs = [])
     \<and> map ordinal cs = map Suc [idx..<idx + length cs]
     \<and> distinct (map column_name cs) \<and> set ns \<inter> set (map column_name cs) = {}
     \<and> distinct (map column_id cs) \<and> set is \<inter> set (map column_id cs) = {}
     \<and> set os \<inter> set (map ordinal cs) = {}"
proof (induction idx ns "is" os cs rule: check_shape.induct)
  case (2 idx ns "is" os c cs)
  have upt: "[idx..<idx + length (c # cs)] = idx # [idx + 1..<(idx + 1) + length cs]"
    by (subst upt_conv_Cons) auto
  have fresh: "Suc idx \<noteq> ordinal d"
    if "map ordinal cs = map Suc [idx + 1..<(idx + 1) + length cs]" "d \<in> set cs" for d
  proof -
    have "ordinal d \<in> set (map Suc [idx + 1..<(idx + 1) + length cs])"
      using that by (metis image_eqI set_map)
    then show ?thesis
      by auto
  qed
  show ?case
    unfolding check_shape.simps upt
    using 2 fresh by (auto simp: u16_max_def simp del: upt_Suc)
qed auto

text \<open>The accepted shapes: one or more columns, at most \<open>u16::MAX\<close>, numbered 1, 2, \<dots> in order, with
  distinct names and distinct ids.\<close>

definition shape_ok :: "PrimaryKeyColumnShape list \<Rightarrow> bool" where
  "shape_ok cs \<longleftrightarrow> cs \<noteq> [] \<and> length cs \<le> u16_max \<and> map ordinal cs = [1..<Suc (length cs)]
     \<and> distinct (ordered_columns cs) \<and> distinct (map column_id cs)"

text \<open>C13: a primary-key shape is accepted exactly when it has between one and \<open>u16::MAX\<close> columns whose
  ordinals are their positions and whose names and ids are distinct; it is then returned unchanged.\<close>

theorem primary_key_shape_accepts:
  "primary_key_shape_new cs = Inr cs' \<longleftrightarrow> cs' = cs \<and> shape_ok cs"
proof -
  have "map Suc [0..<length cs] = [1..<Suc (length cs)]"
    by (simp add: map_Suc_upt)
  then show ?thesis
    using check_shape_ok [of 0 "[]" "[]" "[]" cs]
    by (cases "check_shape 0 [] [] [] cs")
      (auto simp: primary_key_shape_new_def shape_ok_def ordered_columns_def)
qed

subsection \<open>Identity of a key\<close>

lemma find_duplicate_None:
  "find_duplicate seen cs = None \<longleftrightarrow> distinct cs \<and> set seen \<inter> set cs = {}"
  by (induction seen cs rule: find_duplicate.induct) auto

lemma logical_pk_new_ok:
  "logical_pk_new pk = Inr pk' \<longleftrightarrow> pk' = pk \<and> pk \<noteq> [] \<and> distinct (map fst pk)"
  using find_duplicate_None [of "[]" "map fst pk"]
  by (auto simp: logical_pk_new_def split: option.splits)

lemma into_values_eq:
  assumes "p \<noteq> []" "q \<noteq> []"
  shows "into_values p = into_values q \<longleftrightarrow> map snd p = map snd q"
proof -
  have "map snd p \<noteq> []" "map snd q \<noteq> []"
    using assms by simp_all
  then show ?thesis
    unfolding into_values_def by (auto split: list.splits)
qed

lemma fold_map_insert:
  "distinct (map fst pk) \<Longrightarrow> map_of (fold (\<lambda>(c, v). map_insert c v) pk m) = map_of m ++ map_of pk"
proof (induction pk arbitrary: m)
  case (Cons p pk)
  then show ?case
    by (cases p) (force simp: fun_eq_iff map_add_def split: option.splits dest: map_of_SomeD)
qed simp

lemma canonical_lookup:
  assumes "distinct (map fst pk)" "(c, v) \<in> set pk"
  shows "map_of (fold (\<lambda>(c, v). map_insert c v) pk []) c = Some v"
  using assms by (simp add: fold_map_insert)

text \<open>C14: the canonical JSON of a key reads back as the same key, and two keys over the same columns
  have the same compact identity only if they are equal.\<close>

theorem logical_pk_identity:
  assumes "logical_pk_new pk = Inr pk" and "logical_pk_new pk' = Inr pk'" and "map fst pk' = map fst pk"
    and "\<And>c v. (c, v) \<in> set pk \<Longrightarrow> pk_value_new x v = Inr v"
  shows "from_json_object x (to_canonical_json pk) (map fst pk) = Inr pk
    \<and> (into_values pk = into_values pk' \<longleftrightarrow> pk = pk')"
proof -
  have ok: "pk \<noteq> []" "distinct (map fst pk)" "pk' \<noteq> []"
    using assms(1,2) by (simp_all add: logical_pk_new_ok)
  let ?read = "\<lambda>c. res_bind
      (ok_or (InvalidPrimaryKey (''primary-key JSON missing column: '' @ c))
         (map_of (fold (\<lambda>(c, v). map_insert c v) pk []) c))
      (\<lambda>v. res_bind (pk_value_new x v) (\<lambda>pv. Inr (c, pv)))"
  have "res_list ?read (map fst pk) = Inr pk"
    using canonical_lookup [OF ok(2)] assms(4)
    by (auto simp: res_list_Inr_iff list_all2_map1 list_all2_same ok_or_def)
  then have "from_json_object x (to_canonical_json pk) (map fst pk) = Inr pk"
    using assms(1) by (simp add: from_json_object_def to_canonical_json_def)
  moreover have "into_values pk = into_values pk' \<longleftrightarrow> pk = pk'"
    using into_values_eq [OF ok(1,3)] assms(3) by (metis zip_map_fst_snd)
  ultimately show ?thesis
    by blast
qed

theorem logical_pk_identity_witness:
  "from_json_object \<lparr>is_f64 = (\<lambda>_. False), f64_of = (\<lambda>_. None)\<rparr>
     (JObject [(''a'', JString ''k''), (''b'', number_of_int 7)]) [''b'', ''a'']
     = Inr [(''b'', number_of_int 7), (''a'', JString ''k'')]
   \<and> into_values [(''b'', number_of_int 7), (''a'', JString ''k'')]
      \<noteq> into_values [(''b'', number_of_int 8), (''a'', JString ''k'')]"
proof -
  let ?pk = "\<lambda>n. [(''b'', number_of_int n), (''a'', JString ''k'')]"
  have "(''a'' :: string) < ''b''"
    by (simp add: less_char_def)
  then have "to_canonical_json (?pk 7) = JObject [(''a'', JString ''k''), (''b'', number_of_int 7)]"
    by (simp add: to_canonical_json_def)
  moreover have "?pk 7 \<noteq> ?pk 8"
    by (simp add: number_of_int_def show_int_def show_nat.simps [of 7] show_nat.simps [of 8] digit_char_def)
  moreover have "pk_value_new \<lparr>is_f64 = (\<lambda>_. False), f64_of = (\<lambda>_. None)\<rparr> v = Inr v"
    if "(c, v) \<in> set (?pk 7)" for c v
    using that by (auto simp: pk_value_new_def number_of_int_def)
  ultimately show ?thesis
    using logical_pk_identity [of "?pk 7" "?pk 8" "\<lparr>is_f64 = (\<lambda>_. False), f64_of = (\<lambda>_. None)\<rparr>"]
    by (simp add: logical_pk_new_ok)
qed

subsection \<open>Numeric keys\<close>

text \<open>The spellings that end as one integer key: its own decimal text, and a float spelling whose double is
  that integer and lies below \<open>9e15\<close>.\<close>

definition spells_int :: "num_ext \<Rightarrow> jnumber \<Rightarrow> int \<Rightarrow> bool" where
  "spells_int x m i \<longleftrightarrow> m = show_int i \<or> is_f64 x m \<and> f64_of x m = Some (of_int i) \<and> \<bar>i\<bar> < 9 * 10 ^ 15"

lemma show_int_inj: "show_int i = show_int j \<longleftrightarrow> i = j"
proof
  assume eq: "show_int i = show_int j"
  have "Some i = parse_signed (min i j) (max i j) (show_int i)"
    by (rule parse_signed_show_int [symmetric]) simp_all
  also have "\<dots> = Some j"
    unfolding eq by (rule parse_signed_show_int) simp_all
  finally show "i = j"
    by simp
qed simp

lemma normalize_pk_number_cases:
  assumes "\<And>i. \<not> is_f64 x (show_int i)"
  shows "spells_int x m i \<Longrightarrow> normalize_pk_number x (JNumber m) = JNumber (show_int i)"
    and "(\<And>i. \<not> spells_int x m i) \<Longrightarrow> normalize_pk_number x (JNumber m) = JNumber m"
proof -
  have range: "\<bar>of_int i :: rat\<bar> < 9 * 10 ^ 15 \<longleftrightarrow> \<bar>i\<bar> < 9 * 10 ^ 15" for i
    by (simp flip: of_int_abs)
  show "normalize_pk_number x (JNumber m) = JNumber (show_int i)" if "spells_int x m i"
    using that assms range by (auto simp: spells_int_def number_of_int_def)
  show "normalize_pk_number x (JNumber m) = JNumber m" if none: "\<And>i. \<not> spells_int x m i"
  proof (cases "f64_of x m")
    case (Some float)
    have "\<not> (is_f64 x m \<and> float = of_int \<lfloor>float\<rfloor> \<and> \<bar>float\<bar> < 9 * 10 ^ 15)"
      using none [of "\<lfloor>float\<rfloor>"] Some range by (metis spells_int_def)
    then show ?thesis
      using Some by auto
  qed simp
qed

text \<open>C15: two spellings of a number are one key value exactly when they are the same text or both spell
  the same integer, as its decimal text or as a float whose double is that integer below \<open>9e15\<close>.  All other
  spellings stay apart: those of one fraction with different trailing zeros, and an integer of \<open>9e15\<close> or
  more and the same written as a float.  Floats are compared as the double they round to.\<close>

theorem numeric_pk_identity:
  assumes "\<And>i. \<not> is_f64 x (show_int i)"
  shows "pk_value_new x (JNumber m) = pk_value_new x (JNumber n)
    \<longleftrightarrow> m = n \<or> (\<exists>i. spells_int x m i \<and> spells_int x n i)"
proof -
  note norm = normalize_pk_number_cases [OF assms]
  have own: "spells_int x (show_int i) i" for i
    by (simp add: spells_int_def)
  have "normalize_pk_number x (JNumber m) = normalize_pk_number x (JNumber n)
      \<longleftrightarrow> m = n \<or> (\<exists>i. spells_int x m i \<and> spells_int x n i)"
  proof (cases "\<exists>i. spells_int x m i"; cases "\<exists>j. spells_int x n j")
    assume "\<exists>i. spells_int x m i" "\<exists>j. spells_int x n j"
    then show ?thesis
      using norm(1) show_int_inj by (metis json.inject(2))
  next
    assume "\<exists>i. spells_int x m i" "\<nexists>j. spells_int x n j"
    then show ?thesis
      using norm own by (metis json.inject(2))
  next
    assume "\<nexists>i. spells_int x m i" "\<exists>j. spells_int x n j"
    then show ?thesis
      using norm own by (metis json.inject(2))
  next
    assume "\<nexists>i. spells_int x m i" "\<nexists>j. spells_int x n j"
    then show ?thesis
      using norm(2) by auto
  qed
  then show ?thesis
    by (simp add: pk_value_new_def)
qed

definition sample_floats :: num_ext where
  "sample_floats = \<lparr>is_f64 = (\<lambda>s. CHR ''.'' \<in> set s),
     f64_of = map_of [(''125.00'', 125), (''62.5'', 125 / 2), (''62.50'', 125 / 2),
       (''10000000000000000.0'', 10 ^ 16)]\<rparr>"

lemma show_int_no_point: "CHR ''.'' \<notin> set (show_int i)"
proof -
  have "CHR ''.'' \<notin> set (show_nat n)" for n
    using show_nat_digits [of n] by (auto simp: list_all_iff is_digit_def less_eq_char_def)
  then show ?thesis
    by (simp add: show_int_def)
qed

theorem numeric_pk_identity_witness:
  "pk_value_new sample_floats (JNumber ''125.00'') = pk_value_new sample_floats (JNumber (show_int 125))
   \<and> pk_value_new sample_floats (JNumber ''62.5'') \<noteq> pk_value_new sample_floats (JNumber ''62.50'')
   \<and> pk_value_new sample_floats (JNumber ''10000000000000000.0'')
       \<noteq> pk_value_new sample_floats (JNumber (show_int (10 ^ 16)))"
proof -
  have point: "CHR ''.'' \<in> set s \<Longrightarrow> s \<noteq> show_int i" for s i
    using show_int_no_point by metis
  have ints: "\<not> is_f64 sample_floats (show_int i)" for i
    by (simp add: sample_floats_def show_int_no_point)
  have "(125 / 2 :: rat) \<notin> \<int>"
  proof
    assume "(125 / 2 :: rat) \<in> \<int>"
    then obtain i where "(125 / 2 :: rat) = of_int i"
      by (auto elim: Ints_cases)
    then have "of_int (2 * i) = (of_int 125 :: rat)"
      by simp
    then have "2 * i = 125"
      by (simp only: of_int_eq_iff)
    then show False
      by presburger
  qed
  then have half: "(125 / 2 :: rat) \<noteq> of_int i" for i
    by (metis Ints_of_int)
  have "(10 ^ 16 :: rat) = of_int (10 ^ 16)"
    by simp
  then have "(10 ^ 16 :: rat) = of_int i \<longleftrightarrow> i = 10 ^ 16" for i
    using of_int_eq_iff [of "10 ^ 16" i, where 'a = rat] by metis
  then have large: "\<not> ((10 ^ 16 :: rat) = of_int i \<and> \<bar>i\<bar> < 9 * 10 ^ 15)" for i
    by auto
  have floats: "f64_of sample_floats ''125.00'' = Some 125" "f64_of sample_floats ''62.5'' = Some (125 / 2)"
    "f64_of sample_floats ''10000000000000000.0'' = Some (10 ^ 16)" "is_f64 sample_floats ''125.00''"
    by (simp_all add: sample_floats_def)
  have "spells_int sample_floats ''125.00'' 125"
    using floats by (simp add: spells_int_def)
  moreover have "\<not> spells_int sample_floats ''62.5'' i" for i
    using half [of i] point [of "''62.5''" i] floats(2) by (simp add: spells_int_def)
  moreover have "\<not> spells_int sample_floats ''10000000000000000.0'' i" for i
    using large [of i] point [of "''10000000000000000.0''" i] floats(3) unfolding spells_int_def by simp
  moreover have "spells_int sample_floats (show_int 125) 125"
    by (simp add: spells_int_def)
  moreover have "''10000000000000000.0'' \<noteq> show_int (10 ^ 16)"
    by (rule point) simp
  moreover have "''62.5'' \<noteq> ''62.50''"
    by simp
  ultimately show ?thesis
    using numeric_pk_identity [OF ints, of "''125.00''" "show_int 125"]
      numeric_pk_identity [OF ints, of "''62.5''" "''62.50''"]
      numeric_pk_identity [OF ints, of "''10000000000000000.0''" "show_int (10 ^ 16)"]
    by blast
qed

end
