(* ===== verification/Resolver.thy ===== *)
theory Resolver
  imports Domain
begin

text \<open>
  Winner resolution (\<open>koldstore-merge/src/core/resolver.rs\<close>): for every primary key the visible version is
  the one with the largest sequence id, a hot row before a cold one of the same sequence.  The batch
  resolvers see all rows at once; the streaming resolver sees the hot batch and then cold batches from
  newest to oldest and remembers only key identities.

  A \<open>HashMap\<close> is an association list with distinct keys; its order stands for the unspecified iteration
  order, so results are compared as sets.
\<close>

subsection \<open>Maps and contests\<close>

text \<open>\<open>keep_best\<close> is the entry pattern of the three insert functions: a vacant slot takes the candidate,
  an occupied one is replaced when the candidate beats its holder.\<close>

definition keep_best :: "('c \<Rightarrow> 'c \<Rightarrow> bool) \<Rightarrow> 'k \<Rightarrow> 'c \<Rightarrow> ('k \<times> 'c) list \<Rightarrow> ('k \<times> 'c) list" where
  "keep_best beats k c m = (case map_of m k of
      None \<Rightarrow> m @ [(k, c)]
    | Some cur \<Rightarrow> if beats c cur then map (\<lambda>(k', c'). (k', if k' = k then c else c')) m else m)"

text \<open>The winner of a list of candidates: the first one that none of them beats.\<close>

definition winner :: "('c \<Rightarrow> 'c \<Rightarrow> bool) \<Rightarrow> 'c list \<Rightarrow> 'c option" where
  "winner beats cs = find (\<lambda>c. list_all (\<lambda>d. \<not> beats d c) cs) cs"

definition of_key :: "'k \<Rightarrow> ('k \<times> 'c) list \<Rightarrow> 'c list" where
  "of_key k kcs = map snd (filter (\<lambda>p. fst p = k) kcs)"

lemma of_key_simps [simp]:
  "of_key k [] = []" "of_key k ((k', c) # m) = (if k' = k then [c] else []) @ of_key k m"
  "of_key k (m @ m') = of_key k m @ of_key k m'"
  by (simp_all add: of_key_def)

lemma keep_best_keys [simp]:
  "map fst (keep_best beats k c m) = (if k \<in> fst ` set m then map fst m else map fst m @ [k])"
proof (cases "map_of m k")
  case None
  then have "k \<notin> fst ` set m"
    by (simp add: map_of_eq_None_iff)
  then show ?thesis
    using None by (simp add: keep_best_def)
next
  case (Some cur)
  then have "k \<in> fst ` set m"
    by (force dest: map_of_SomeD)
  then show ?thesis
    using Some by (simp add: keep_best_def comp_def case_prod_beta)
qed

lemma find_append:
  "find P (xs @ ys) = (case find P xs of None \<Rightarrow> find P ys | Some x \<Rightarrow> Some x)"
  by (induction xs) auto

lemma map_of_replace:
  "map_of (map (\<lambda>(k', c'). (k', if k' = k then c else c')) m) j
     = (if j = k \<and> k \<in> fst ` set m then Some c else map_of m j)"
proof (induction m)
  case (Cons p m)
  then show ?case
    by (cases p; cases "j = k") simp_all
qed simp

lemma map_of_keep_best:
  "map_of (keep_best beats k c m) k' = (if k' = k then
      (case map_of m k of None \<Rightarrow> Some c | Some cur \<Rightarrow> if beats c cur then Some c else Some cur)
    else map_of m k')"
proof (cases "map_of m k")
  case None
  then show ?thesis
    by (auto simp: keep_best_def map_add_def split: option.splits)
next
  case (Some cur)
  then have "k \<in> fst ` set m"
    by (force dest: map_of_SomeD)
  then show ?thesis
    using Some by (simp add: keep_best_def map_of_replace)
qed

locale contest =
  fixes beats :: "'c \<Rightarrow> 'c \<Rightarrow> bool"
  assumes irrefl: "\<not> beats c c"
    and trans: "beats a b \<Longrightarrow> beats b c \<Longrightarrow> beats a c"
    and weak: "\<not> beats a b \<Longrightarrow> \<not> beats b c \<Longrightarrow> \<not> beats a c"
begin

lemma winner_exists: "cs \<noteq> [] \<Longrightarrow> \<exists>w\<in>set cs. \<forall>d\<in>set cs. \<not> beats d w"
proof (induction cs)
  case (Cons c cs)
  show ?case
  proof (cases "cs = []")
    case True
    then show ?thesis
      by (simp add: irrefl)
  next
    case False
    then obtain w where w: "w \<in> set cs" "\<forall>d\<in>set cs. \<not> beats d w"
      using Cons.IH by blast
    show ?thesis
    proof (cases "beats c w")
      case True
      then have "\<forall>d\<in>set cs. \<not> beats d c"
        using w trans by blast
      then show ?thesis
        using irrefl by auto
    qed (use w in auto)
  qed
qed simp

lemma winner_Some: "winner beats cs = Some w \<Longrightarrow> w \<in> set cs \<and> (\<forall>d\<in>set cs. \<not> beats d w)"
  by (auto simp: winner_def find_Some_iff list_all_iff)

lemma winner_None: "winner beats cs = None \<longleftrightarrow> cs = []"
  using winner_exists [of cs] by (auto simp: winner_def find_None_iff list_all_iff)

lemma winner_snoc:
  "winner beats (cs @ [c]) = (case winner beats cs of
      None \<Rightarrow> Some c | Some w \<Rightarrow> if beats c w then Some c else Some w)"
proof (cases "winner beats cs")
  case None
  then have "cs = []"
    by (simp add: winner_None)
  then show ?thesis
    by (simp add: winner_def irrefl)
next
  case (Some w)
  note w = winner_Some [OF Some]
  have undom: "list_all (\<lambda>d. \<not> beats d a) (cs @ [c]) \<longleftrightarrow> list_all (\<lambda>d. \<not> beats d a) cs \<and> \<not> beats c a" for a
    by auto
  show ?thesis
  proof (cases "beats c w")
    case True
    then have "\<not> (list_all (\<lambda>d. \<not> beats d a) cs \<and> \<not> beats c a)" if "a \<in> set cs" for a
      using that w weak [of c a w] by (auto simp: list_all_iff)
    then have "find (\<lambda>a. list_all (\<lambda>d. \<not> beats d a) cs \<and> \<not> beats c a) cs = None"
      by (auto simp: find_None_iff)
    moreover have "list_all (\<lambda>d. \<not> beats d c) cs \<and> \<not> beats c c"
      using True w trans irrefl by (auto simp: list_all_iff)
    ultimately show ?thesis
      using Some True by (simp add: winner_def undom find_append)
  next
    case False
    have "find (\<lambda>a. list_all (\<lambda>d. \<not> beats d a) cs \<and> \<not> beats c a) cs = Some w"
      using Some False unfolding winner_def find_Some_iff by auto
    then show ?thesis
      using Some False by (simp add: winner_def undom find_append)
  qed
qed

lemma fold_keep_best:
  "map_of (fold (\<lambda>(k, c). keep_best beats k c) kcs []) k = winner beats (of_key k kcs)"
proof (induction kcs rule: rev_induct)
  case Nil
  then show ?case
    by (simp add: winner_def)
next
  case (snoc p kcs)
  obtain k' c where p: "p = (k', c)"
    by fastforce
  show ?case
    using snoc.IH by (auto simp: p map_of_keep_best winner_snoc split: option.splits)
qed

lemma winner_append:
  assumes "xs \<noteq> []" "\<And>a b. a \<in> set xs \<Longrightarrow> b \<in> set ys \<Longrightarrow> \<not> beats b a"
  shows "winner beats (xs @ ys) = winner beats xs"
  using assms(2)
proof (induction ys rule: rev_induct)
  case (snoc y ys)
  obtain w where w: "winner beats xs = Some w"
    using assms(1) winner_None by blast
  then have "\<not> beats y w"
    using winner_Some [OF w] snoc.prems by auto
  then show ?case
    using snoc w winner_snoc [of "xs @ ys" y] by simp
qed simp

lemma winner_prepend:
  assumes "xs \<noteq> []" "\<And>a b. a \<in> set xs \<Longrightarrow> b \<in> set ys \<Longrightarrow> beats a b"
  shows "winner beats (ys @ xs) = winner beats xs"
proof -
  have "find (\<lambda>c. list_all (\<lambda>d. \<not> beats d c) (ys @ xs)) ys = None"
    using assms by (force simp: find_None_iff list_all_iff neq_Nil_conv)
  moreover have "\<not> beats b a" if "a \<in> set xs" "b \<in> set ys" for a b
    using that assms(2) trans irrefl by blast
  then have "find (\<lambda>c. list_all (\<lambda>d. \<not> beats d c) (ys @ xs)) xs = find (\<lambda>c. list_all (\<lambda>d. \<not> beats d c) xs) xs"
    by (intro find_cong) (auto simp: list_all_iff)
  ultimately show ?thesis
    by (simp add: winner_def find_append)
qed

lemma fold_keep_best_keys:
  "distinct (map fst m) \<Longrightarrow> distinct (map fst (fold (\<lambda>(k, c). keep_best beats k c) kcs m))"
  by (induction kcs arbitrary: m) (auto simp: case_prod_beta)

lemma fold_keep_best_entry:
  "(k, c) \<in> set (fold (\<lambda>(k, c). keep_best beats k c) kcs []) \<longleftrightarrow> winner beats (of_key k kcs) = Some c"
  using fold_keep_best fold_keep_best_keys [of "[]"] map_of_eq_Some_iff by (metis distinct.simps(1) list.map(1))

end

subsection \<open>Batch resolution\<close>

datatype RowSource = Hot | Cold

record ResolvedRow =
  res_pk_json :: json
  res_source :: RowSource
  res_seq :: SeqId
  res_row_image :: RowImage
  res_deleted :: bool

record Candidate =
  cand_pk :: "LogicalPk option"
  cand_source :: RowSource
  cand_seq :: SeqId
  cand_deleted :: bool
  cand_row_image :: RowImage

record BorrowedCandidate =
  bor_source :: RowSource
  bor_seq :: SeqId
  bor_deleted :: bool
  bor_row_image :: RowImage

definition candidate_beats :: "SeqId \<Rightarrow> RowSource \<Rightarrow> SeqId \<Rightarrow> RowSource \<Rightarrow> bool" where
  "candidate_beats candidate_seq candidate_source current_seq current_source \<longleftrightarrow>
     candidate_seq > current_seq
     \<or> (candidate_seq = current_seq \<and> candidate_source = Hot \<and> current_source = Cold)"

definition cand_beats :: "Candidate \<Rightarrow> Candidate \<Rightarrow> bool" where
  "cand_beats c d \<longleftrightarrow> candidate_beats (cand_seq c) (cand_source c) (cand_seq d) (cand_source d)"

definition bor_beats :: "BorrowedCandidate \<Rightarrow> BorrowedCandidate \<Rightarrow> bool" where
  "bor_beats c d \<longleftrightarrow> candidate_beats (bor_seq c) (bor_source c) (bor_seq d) (bor_source d)"

text \<open>\<open>into_resolved\<close> panics when neither key is there; every caller supplies one of them.\<close>

definition into_resolved :: "Candidate \<Rightarrow> json option \<Rightarrow> ResolvedRow" where
  "into_resolved c pk_json =
     \<lparr>res_pk_json = (case pk_json of Some j \<Rightarrow> j
        | None \<Rightarrow> (case cand_pk c of Some pk \<Rightarrow> to_canonical_json pk | None \<Rightarrow> JNull)),
      res_source = cand_source c, res_seq = cand_seq c, res_row_image = cand_row_image c,
      res_deleted = cand_deleted c\<rparr>"

definition to_resolved :: "BorrowedCandidate \<Rightarrow> LogicalPk \<Rightarrow> ResolvedRow" where
  "to_resolved c pk =
     \<lparr>res_pk_json = to_canonical_json pk, res_source = bor_source c, res_seq = bor_seq c,
      res_row_image = bor_row_image c, res_deleted = bor_deleted c\<rparr>"

definition insert_borrowed_candidate ::
    "LogicalPk \<Rightarrow> BorrowedCandidate \<Rightarrow> (LogicalPk \<times> BorrowedCandidate) list \<Rightarrow> (LogicalPk \<times> BorrowedCandidate) list" where
  "insert_borrowed_candidate pk c winners = keep_best bor_beats pk c winners"

definition insert_owned_candidate ::
    "LogicalPk \<Rightarrow> Candidate \<Rightarrow> (LogicalPk \<times> Candidate) list \<Rightarrow> (LogicalPk \<times> Candidate) list" where
  "insert_owned_candidate pk c winners = keep_best cand_beats pk c winners"

definition insert_candidate ::
    "LogicalPkValues \<Rightarrow> Candidate \<Rightarrow> (LogicalPkValues \<times> Candidate) list \<Rightarrow> (LogicalPkValues \<times> Candidate) list \<times> bool" where
  "insert_candidate identity c winners =
     (keep_best cand_beats identity c winners, map_of winners identity = None)"

definition borrow_cold :: "ColdRow \<Rightarrow> LogicalPk \<times> BorrowedCandidate" where
  "borrow_cold row = (cold_pk row, \<lparr>bor_source = Cold, bor_seq = cold_seq row,
     bor_deleted = cold_deleted row, bor_row_image = cold_row_image row\<rparr>)"

definition borrow_hot :: "HotRow \<Rightarrow> LogicalPk \<times> BorrowedCandidate" where
  "borrow_hot row = (hot_pk row, \<lparr>bor_source = Hot, bor_seq = hot_seq row,
     bor_deleted = hot_deleted row, bor_row_image = hot_row_image row\<rparr>)"

definition resolve_rows :: "HotRow list \<Rightarrow> ColdRow list \<Rightarrow> ResolvedRow list" where
  "resolve_rows hot cold =
     (let winners = fold (\<lambda>row ws. case borrow_cold row of (pk, c) \<Rightarrow> insert_borrowed_candidate pk c ws) cold [];
          winners = fold (\<lambda>row ws. case borrow_hot row of (pk, c) \<Rightarrow> insert_borrowed_candidate pk c ws) hot winners
      in map (\<lambda>(pk, w). to_resolved w pk) (filter (\<lambda>(_, w). \<not> bor_deleted w) winners))"

definition own_cold :: "ColdRow \<Rightarrow> LogicalPk \<times> Candidate" where
  "own_cold row = (cold_pk row, \<lparr>cand_pk = None, cand_source = Cold, cand_seq = cold_seq row,
     cand_deleted = cold_deleted row, cand_row_image = cold_row_image row\<rparr>)"

definition own_hot :: "HotRow \<Rightarrow> LogicalPk \<times> Candidate" where
  "own_hot row = (hot_pk row, \<lparr>cand_pk = None, cand_source = Hot, cand_seq = hot_seq row,
     cand_deleted = hot_deleted row, cand_row_image = hot_row_image row\<rparr>)"

definition resolve_rows_owned :: "HotRow list \<Rightarrow> ColdRow list \<Rightarrow> ResolvedRow list" where
  "resolve_rows_owned hot cold =
     (let winners = fold (\<lambda>row ws. case own_cold row of (pk, c) \<Rightarrow> insert_owned_candidate pk c ws) cold [];
          winners = fold (\<lambda>row ws. case own_hot row of (pk, c) \<Rightarrow> insert_owned_candidate pk c ws) hot winners
      in map (\<lambda>(pk, w). into_resolved w (Some (to_canonical_json pk)))
           (filter (\<lambda>(_, w). \<not> cand_deleted w) winners))"

subsection \<open>Streaming resolution\<close>

record NewestFirstWinnerResolver =
  masked :: "LogicalPkValues set"
  seen :: "LogicalPkValues set"
  max_seen_keys :: "nat option"
  skip_cold_identity_retention :: bool

record SeenKeyLimitExceeded =
  exceeded_limit :: nat
  exceeded_seen :: nat

type_synonym 'a resolve_result = "NewestFirstWinnerResolver \<times> (SeenKeyLimitExceeded + 'a)"

definition resolver_new :: "LogicalPk list \<Rightarrow> NewestFirstWinnerResolver" where
  "resolver_new masked_pks =
     (let m = set (map into_values masked_pks)
      in \<lparr>masked = m, seen = m, max_seen_keys = None, skip_cold_identity_retention = False\<rparr>)"

definition without_cold_identity_retention :: "NewestFirstWinnerResolver \<Rightarrow> NewestFirstWinnerResolver" where
  "without_cold_identity_retention r = r\<lparr>skip_cold_identity_retention := True\<rparr>"

definition with_max_seen_keys :: "nat option \<Rightarrow> NewestFirstWinnerResolver \<Rightarrow> NewestFirstWinnerResolver" where
  "with_max_seen_keys m r = r\<lparr>max_seen_keys :=
     (case m of Some limit \<Rightarrow> if limit > 0 then Some limit else None | None \<Rightarrow> None)\<rparr>"

definition insert_seen :: "LogicalPkValues \<Rightarrow> NewestFirstWinnerResolver \<Rightarrow> bool resolve_result" where
  "insert_seen identity r =
     (if identity \<in> seen r then (r, Inr False)
      else case max_seen_keys r of
          Some limit \<Rightarrow> if card (seen r) \<ge> limit
            then (r, Inl \<lparr>exceeded_limit = limit, exceeded_seen = card (seen r)\<rparr>)
            else (r\<lparr>seen := insert identity (seen r)\<rparr>, Inr True)
        | None \<Rightarrow> (r\<lparr>seen := insert identity (seen r)\<rparr>, Inr True))"

fun take_unseen_ordered :: "bool \<Rightarrow> (LogicalPkValues \<times> Candidate) list \<Rightarrow> LogicalPkValues list
    \<Rightarrow> NewestFirstWinnerResolver \<Rightarrow> ResolvedRow list \<Rightarrow> ResolvedRow list resolve_result" where
  "take_unseen_ordered retain winners [] r resolved = (r, Inr resolved)"
| "take_unseen_ordered retain winners (identity # order) r resolved =
     (case map_of winners identity of
        None \<Rightarrow> take_unseen_ordered retain winners order r resolved
      | Some w \<Rightarrow>
          (let winners = filter (\<lambda>p. fst p \<noteq> identity) winners in
           if \<not> retain then
             take_unseen_ordered retain winners order r
               (if \<not> cand_deleted w \<and> identity \<notin> seen r then resolved @ [into_resolved w None] else resolved)
           else case insert_seen identity r of
               (r, Inl e) \<Rightarrow> (r, Inl e)
             | (r, Inr fresh) \<Rightarrow>
                 take_unseen_ordered retain winners order r
                   (if cand_deleted w then resolved
                    else if \<not> fresh then resolved
                    else resolved @ [into_resolved w None])))"

fun collect_candidates :: "(LogicalPkValues \<times> Candidate) list
    \<Rightarrow> (LogicalPkValues \<times> Candidate) list \<times> LogicalPkValues list
    \<Rightarrow> (LogicalPkValues \<times> Candidate) list \<times> LogicalPkValues list" where
  "collect_candidates [] acc = acc"
| "collect_candidates ((identity, c) # rows) (winners, order) =
     (case insert_candidate identity c winners of
        (winners, is_new) \<Rightarrow> collect_candidates rows (winners, if is_new then order @ [identity] else order))"

definition candidate_of :: "RowSource \<Rightarrow> LogicalPk \<times> SeqId \<times> bool \<times> RowImage \<Rightarrow> LogicalPkValues \<times> Candidate" where
  "candidate_of source parts = (case parts of (pk, s, d, img) \<Rightarrow>
     (into_values pk, \<lparr>cand_pk = Some pk, cand_source = source, cand_seq = s, cand_deleted = d,
        cand_row_image = img\<rparr>))"

definition resolve_batch :: "RowSource \<Rightarrow> bool \<Rightarrow> (LogicalPk \<times> SeqId \<times> bool \<times> RowImage) list
    \<Rightarrow> NewestFirstWinnerResolver \<Rightarrow> ResolvedRow list resolve_result" where
  "resolve_batch source retain rows r =
     (case collect_candidates (map (candidate_of source) rows) ([], []) of
        (winners, order) \<Rightarrow> take_unseen_ordered retain winners order r [])"

definition hot_parts :: "HotRow \<Rightarrow> LogicalPk \<times> SeqId \<times> bool \<times> RowImage" where
  "hot_parts row = (hot_pk row, hot_seq row, hot_deleted row, hot_row_image row)"

definition cold_parts :: "ColdRow \<Rightarrow> LogicalPk \<times> SeqId \<times> bool \<times> RowImage" where
  "cold_parts row = (cold_pk row, cold_seq row, cold_deleted row, cold_row_image row)"

definition resolve_hot_batch :: "HotRow list \<Rightarrow> NewestFirstWinnerResolver \<Rightarrow> ResolvedRow list resolve_result" where
  "resolve_hot_batch rows r = resolve_batch Hot True (map hot_parts rows) r"

definition resolve_cold_batch :: "ColdRow list \<Rightarrow> NewestFirstWinnerResolver \<Rightarrow> ResolvedRow list resolve_result" where
  "resolve_cold_batch rows r = resolve_batch Cold (\<not> skip_cold_identity_retention r) (map cold_parts rows) r"

fun mask_older_pks :: "LogicalPk list \<Rightarrow> NewestFirstWinnerResolver \<Rightarrow> unit resolve_result" where
  "mask_older_pks [] r = (r, Inr ())"
| "mask_older_pks (pk # pks) r = (case insert_seen (into_values pk) r of
      (r, Inl e) \<Rightarrow> (r, Inl e)
    | (r, Inr _) \<Rightarrow> mask_older_pks pks r)"

definition seen_key_count :: "NewestFirstWinnerResolver \<Rightarrow> nat" where
  "seen_key_count r = card (seen r)"

definition checkpoint :: "NewestFirstWinnerResolver \<Rightarrow> NewestFirstWinnerResolver" where
  "checkpoint r = r\<lparr>masked := seen r\<rparr>"

definition reset :: "NewestFirstWinnerResolver \<Rightarrow> NewestFirstWinnerResolver" where
  "reset r = r\<lparr>seen := masked r\<rparr>"

subsection \<open>What a scan should return\<close>

text \<open>A version is a row with its source.  One version supersedes another when its sequence id is larger,
  or when the ids are equal and it is hot and the other cold.  For every key the visible version is the
  first that no other version of the key supersedes, unless it is a tombstone.  None of this refers to the
  resolver's own comparison.\<close>

type_synonym version = "RowSource \<times> LogicalPk \<times> SeqId \<times> bool \<times> RowImage"

fun version_pk :: "version \<Rightarrow> LogicalPk" where
  "version_pk (s, pk, q, d, img) = pk"

fun version_seq :: "version \<Rightarrow> SeqId" where
  "version_seq (s, pk, q, d, img) = q"

fun version_deleted :: "version \<Rightarrow> bool" where
  "version_deleted (s, pk, q, d, img) = d"

fun version_source :: "version \<Rightarrow> RowSource" where
  "version_source (s, pk, q, d, img) = s"

definition version_beats :: "version \<Rightarrow> version \<Rightarrow> bool" where
  "version_beats v w \<longleftrightarrow> version_seq v > version_seq w
     \<or> version_seq v = version_seq w \<and> version_source v = Hot \<and> version_source w = Cold"

fun version_row :: "version \<Rightarrow> ResolvedRow" where
  "version_row (s, pk, q, d, img) =
     \<lparr>res_pk_json = to_canonical_json pk, res_source = s, res_seq = q, res_row_image = img, res_deleted = d\<rparr>"

definition visible_version :: "version list \<Rightarrow> LogicalPk \<Rightarrow> version option" where
  "visible_version vs pk = winner version_beats (filter (\<lambda>v. version_pk v = pk) vs)"

definition visible :: "version list \<Rightarrow> ResolvedRow set" where
  "visible vs = {version_row v | v pk. visible_version vs pk = Some v \<and> \<not> version_deleted v}"

definition hot_versions :: "HotRow list \<Rightarrow> version list" where
  "hot_versions hot = map (\<lambda>row. (Hot, hot_parts row)) hot"

definition cold_versions :: "ColdRow list \<Rightarrow> version list" where
  "cold_versions cold = map (\<lambda>row. (Cold, cold_parts row)) cold"

lemma source_order:
  "\<not> candidate_beats q s q s"
  "candidate_beats p r q s \<Longrightarrow> candidate_beats q s p' r' \<Longrightarrow> candidate_beats p r p' r'"
  "\<not> candidate_beats p r q s \<Longrightarrow> \<not> candidate_beats q s p' r' \<Longrightarrow> \<not> candidate_beats p r p' r'"
  by (cases r; cases s; cases r'; auto simp: candidate_beats_def)+

interpretation owned: contest cand_beats
  by unfold_locales (auto simp: cand_beats_def source_order(1) dest: source_order(2,3))

interpretation borrowed: contest bor_beats
  by unfold_locales (auto simp: bor_beats_def source_order(1) dest: source_order(2,3))

lemma version_beats_candidate:
  "version_beats v w = candidate_beats (version_seq v) (version_source v) (version_seq w) (version_source w)"
  by (simp add: version_beats_def candidate_beats_def)

interpretation version: contest version_beats
  by unfold_locales (auto simp: version_beats_candidate source_order(1) dest: source_order(2,3))

lemma winner_map:
  assumes "\<And>c d. beats (f c) (f d) = beats' c d"
  shows "winner beats (map f cs) = map_option f (winner beats' cs)"
proof -
  have "find (\<lambda>c. list_all (\<lambda>d. \<not> beats d c) (map f cs)) (map f ds)
      = map_option f (find (\<lambda>c. list_all (\<lambda>d. \<not> beats' d c) cs) ds)" for ds
    by (induction ds) (auto simp: assms list_all_iff)
  then show ?thesis
    by (simp add: winner_def)
qed

subsection \<open>Batch resolution returns the visible versions\<close>

fun bor_version :: "version \<Rightarrow> LogicalPk \<times> BorrowedCandidate" where
  "bor_version (s, pk, q, d, img) =
     (pk, \<lparr>bor_source = s, bor_seq = q, bor_deleted = d, bor_row_image = img\<rparr>)"

fun cand_version :: "version \<Rightarrow> LogicalPkValues \<times> Candidate" where
  "cand_version (s, parts) = candidate_of s parts"

lemma bor_version_simps:
  "fst (bor_version v) = version_pk v"
  "bor_beats (snd (bor_version v)) (snd (bor_version w)) = version_beats v w"
  "bor_deleted (snd (bor_version v)) = version_deleted v"
  "to_resolved (snd (bor_version v)) (version_pk v) = version_row v"
  by (cases v; cases w; simp add: bor_beats_def to_resolved_def version_beats_candidate)+

lemma cand_version_simps:
  "fst (cand_version v) = into_values (version_pk v)"
  "cand_beats (snd (cand_version v)) (snd (cand_version w)) = version_beats v w"
  "cand_deleted (snd (cand_version v)) = version_deleted v"
  "into_resolved (snd (cand_version v)) None = version_row v"
  by (cases v; cases w; simp add: cand_beats_def into_resolved_def candidate_of_def version_beats_candidate)+

lemma resolve_rows_eq:
  "resolve_rows hot cold = map (\<lambda>(pk, w). to_resolved w pk) (filter (\<lambda>(_, w). \<not> bor_deleted w)
     (fold (\<lambda>(k, c). keep_best bor_beats k c) (map bor_version (cold_versions cold @ hot_versions hot)) []))"
  by (simp add: resolve_rows_def insert_borrowed_candidate_def fold_map comp_def cold_versions_def
      hot_versions_def cold_parts_def hot_parts_def borrow_cold_def borrow_hot_def)

lemma of_key_bor_version:
  "of_key pk (map bor_version vs) = map (snd \<circ> bor_version) (filter (\<lambda>v. version_pk v = pk) vs)"
  by (induction vs) (simp_all add: bor_version_simps of_key_def)

lemma fst_image: "fst ` S = {k. \<exists>c. (k, c) \<in> S}"
  by force

lemma borrowed_entry:
  "(pk, c) \<in> set (fold (\<lambda>(k, c). keep_best bor_beats k c) (map bor_version vs) [])
     \<longleftrightarrow> (\<exists>v. visible_version vs pk = Some v \<and> c = snd (bor_version v))"
proof -
  have "winner bor_beats (of_key pk (map bor_version vs))
      = map_option (snd \<circ> bor_version) (visible_version vs pk)"
    unfolding of_key_bor_version visible_version_def
    by (rule winner_map) (simp add: bor_version_simps)
  then show ?thesis
    by (auto simp: borrowed.fold_keep_best_entry)
qed

lemma visible_version_pk: "visible_version vs pk = Some v \<Longrightarrow> version_pk v = pk \<and> v \<in> set vs"
  using version.winner_Some [of "filter (\<lambda>v. version_pk v = pk) vs" v] by (simp add: visible_version_def)

lemma resolve_rows_winners:
  "set (resolve_rows hot cold) = visible (cold_versions cold @ hot_versions hot)
   \<and> length (resolve_rows hot cold)
       = card {pk. \<exists>v. visible_version (cold_versions cold @ hot_versions hot) pk = Some v \<and> \<not> version_deleted v}"
proof -
  define vs where "vs = cold_versions cold @ hot_versions hot"
  let ?m = "fold (\<lambda>(k, c). keep_best bor_beats k c) (map bor_version vs) []"
  let ?live = "filter (\<lambda>(_, w). \<not> bor_deleted w) ?m"
  have live: "(pk, c) \<in> set ?live \<longleftrightarrow>
      (\<exists>v. visible_version vs pk = Some v \<and> c = snd (bor_version v) \<and> \<not> version_deleted v)" for pk c
    using borrowed_entry [of pk c vs] bor_version_simps(3) by (auto simp del: split_paired_Ex)
  have row: "to_resolved (snd (bor_version v)) pk = version_row v" if "visible_version vs pk = Some v" for pk v
    using visible_version_pk [OF that] bor_version_simps(4) [of v] by simp
  have "set (resolve_rows hot cold) = {to_resolved c pk | pk c. (pk, c) \<in> set ?live}"
    unfolding resolve_rows_eq vs_def [symmetric] by force
  also have "\<dots> = visible vs"
    unfolding live visible_def by (intro Collect_cong) (metis row)
  finally have rows: "set (resolve_rows hot cold) = visible vs" .
  have "distinct (map fst ?m)"
    by (rule borrowed.fold_keep_best_keys) simp
  then have "distinct (map fst ?live)"
    by (rule distinct_map_filter)
  then have "length (resolve_rows hot cold) = card (fst ` set ?live)"
    unfolding resolve_rows_eq vs_def [symmetric] using distinct_card by fastforce
  also have "fst ` set ?live = {pk. \<exists>v. visible_version vs pk = Some v \<and> \<not> version_deleted v}"
    unfolding fst_image live by blast
  finally show ?thesis
    using rows unfolding vs_def by blast
qed

text \<open>The same by position, with no reference to a search: among all versions of its key the version at a
  position has the largest sequence id; at an equal id a cold version gives way to a hot one, and of two
  versions with the same id and source the earlier stays.\<close>

definition newest_at :: "version list \<Rightarrow> nat \<Rightarrow> bool" where
  "newest_at vs i \<longleftrightarrow> i < length vs \<and> (\<forall>j<length vs. version_pk (vs ! j) = version_pk (vs ! i) \<longrightarrow>
     version_seq (vs ! j) < version_seq (vs ! i)
     \<or> version_seq (vs ! j) = version_seq (vs ! i)
       \<and> (version_source (vs ! j) = Cold \<and> version_source (vs ! i) = Hot
          \<or> version_source (vs ! j) = version_source (vs ! i) \<and> i \<le> j))"

lemma find_filter: "find P (filter Q xs) = find (\<lambda>x. Q x \<and> P x) xs"
  by (induction xs) auto

lemma visible_version_newest:
  "visible_version vs pk = Some v \<longleftrightarrow> (\<exists>i. newest_at vs i \<and> version_pk (vs ! i) = pk \<and> v = vs ! i)"
proof -
  let ?top = "\<lambda>v. version_pk v = pk \<and> (\<forall>d\<in>set vs. version_pk d = pk \<longrightarrow> \<not> version_beats d v)"
  have rank: "version_seq w < version_seq v \<or> version_seq w = version_seq v
      \<and> (version_source w = Cold \<and> version_source v = Hot \<or> version_source w = version_source v \<and> P)"
    if "version_beats v w \<or> \<not> version_beats w v \<and> P" for v w P
    using that by (cases "version_source v"; cases "version_source w") (auto simp: version_beats_def)
  have first: "newest_at vs i \<longleftrightarrow> i < length vs \<and> ?top (vs ! i) \<and> (\<forall>j<i. \<not> ?top (vs ! j))"
    if pk: "version_pk (vs ! i) = pk" for i
  proof
    assume new: "newest_at vs i"
    then have "\<not> ?top (vs ! j)" if "j < i" for j
    proof -
      have "j < length vs" "i < length vs"
        using new \<open>j < i\<close> by (auto simp: newest_at_def)
      then have "version_pk (vs ! j) = pk \<Longrightarrow> version_beats (vs ! i) (vs ! j)"
        using new \<open>j < i\<close> pk unfolding newest_at_def version_beats_def by (metis leD)
      then show ?thesis
        using pk \<open>i < length vs\<close> nth_mem by blast
    qed
    moreover have "?top (vs ! i)"
      using new pk by (fastforce simp: newest_at_def version_beats_def in_set_conv_nth)
    ultimately show "i < length vs \<and> ?top (vs ! i) \<and> (\<forall>j<i. \<not> ?top (vs ! j))"
      using new by (auto simp: newest_at_def)
  next
    assume top: "i < length vs \<and> ?top (vs ! i) \<and> (\<forall>j<i. \<not> ?top (vs ! j))"
    have "version_beats (vs ! i) (vs ! j) \<or> \<not> version_beats (vs ! j) (vs ! i) \<and> i \<le> j"
      if j: "j < length vs" "version_pk (vs ! j) = pk" for j
    proof (rule disjCI)
      assume not: "\<not> (\<not> version_beats (vs ! j) (vs ! i) \<and> i \<le> j)"
      have "\<not> version_beats (vs ! j) (vs ! i)"
        using top j nth_mem by blast
      then have "j < i"
        using not by simp
      then obtain d where d: "d \<in> set vs" "version_pk d = pk" "version_beats d (vs ! j)"
        using top j(2) by blast
      then have "\<not> version_beats d (vs ! i)"
        using top by blast
      then show "version_beats (vs ! i) (vs ! j)"
        using d(3) version.weak by blast
    qed
    then show "newest_at vs i"
      unfolding newest_at_def pk using rank top by blast
  qed
  have "visible_version vs pk = find ?top vs"
    unfolding visible_version_def winner_def find_filter list_all_iff set_filter
    by (rule arg_cong [where f = "\<lambda>P. find P vs"], rule ext) blast
  then have "visible_version vs pk = Some v \<longleftrightarrow> (\<exists>i<length vs. ?top (vs ! i) \<and> v = vs ! i \<and> (\<forall>j<i. \<not> ?top (vs ! j)))"
    by (simp only: find_Some_iff)
  then show ?thesis
    using first by blast
qed

lemma newest_at_inj:
  assumes "newest_at vs i" "newest_at vs j" "version_pk (vs ! i) = version_pk (vs ! j)"
  shows "i = j"
  using assms unfolding newest_at_def by (metis nle_le order_less_asym order_less_irrefl RowSource.distinct(1))

lemma newest_at_card:
  "card {pk. \<exists>v. visible_version vs pk = Some v \<and> \<not> version_deleted v}
     = card {i. newest_at vs i \<and> \<not> version_deleted (vs ! i)}"
proof -
  have "bij_betw (\<lambda>i. version_pk (vs ! i)) {i. newest_at vs i \<and> \<not> version_deleted (vs ! i)}
      {pk. \<exists>v. visible_version vs pk = Some v \<and> \<not> version_deleted v}"
    unfolding bij_betw_def inj_on_def visible_version_newest
    by (auto dest: newest_at_inj simp: image_iff simp del: split_paired_Ex)
  then show ?thesis
    by (rule bij_betw_same_card [symmetric])
qed

text \<open>C16: resolving cold and hot rows returns exactly the rows of the versions that are newest for their
  key (largest sequence id, hot before cold at an equal id, the earlier of two equal ones) and are not
  tombstones, each once.\<close>

theorem resolve_rows_visible:
  "set (resolve_rows hot cold)
     = {version_row v | v. \<exists>i. newest_at (cold_versions cold @ hot_versions hot) i
          \<and> v = (cold_versions cold @ hot_versions hot) ! i \<and> \<not> version_deleted v}
   \<and> length (resolve_rows hot cold)
     = card {i. newest_at (cold_versions cold @ hot_versions hot) i
          \<and> \<not> version_deleted ((cold_versions cold @ hot_versions hot) ! i)}"
proof -
  have "visible (cold_versions cold @ hot_versions hot)
      = {version_row v | v. \<exists>i. newest_at (cold_versions cold @ hot_versions hot) i
          \<and> v = (cold_versions cold @ hot_versions hot) ! i \<and> \<not> version_deleted v}"
    unfolding visible_def visible_version_newest by blast
  then show ?thesis
    using resolve_rows_winners [of hot cold] unfolding newest_at_card by simp
qed

subsection \<open>The owned resolver is the borrowed one\<close>

definition lend :: "Candidate \<Rightarrow> BorrowedCandidate" where
  "lend c = \<lparr>bor_source = cand_source c, bor_seq = cand_seq c, bor_deleted = cand_deleted c,
     bor_row_image = cand_row_image c\<rparr>"

lemma lend_simps:
  "bor_beats (lend c) (lend d) = cand_beats c d" "bor_deleted (lend c) = cand_deleted c"
  "to_resolved (lend c) pk = into_resolved c (Some (to_canonical_json pk))"
  "apsnd lend (own_hot h) = borrow_hot h" "apsnd lend (own_cold r) = borrow_cold r"
  by (simp_all add: lend_def bor_beats_def cand_beats_def to_resolved_def into_resolved_def
      own_hot_def own_cold_def borrow_hot_def borrow_cold_def)

lemma keep_best_lend:
  "map (apsnd lend) (keep_best cand_beats k c m) = keep_best bor_beats k (lend c) (map (apsnd lend) m)"
proof -
  have "map_of (map (apsnd lend) m) k = map_option lend (map_of m k)" for k
    by (induction m) auto
  then show ?thesis
    by (auto simp: keep_best_def lend_simps split: option.splits)
qed

lemma fold_lend:
  assumes "\<And>r. apsnd lend (own r) = borrow r"
  shows "map (apsnd lend) (fold (\<lambda>row ws. case own row of (pk, c) \<Rightarrow> insert_owned_candidate pk c ws) rows m)
    = fold (\<lambda>row ws. case borrow row of (pk, c) \<Rightarrow> insert_borrowed_candidate pk c ws) rows (map (apsnd lend) m)"
proof (induction rows arbitrary: m)
  case (Cons r rows)
  have "borrow r = (fst (own r), lend (snd (own r)))"
    using assms [of r] by (cases "own r") auto
  then show ?case
    using Cons by (simp add: case_prod_beta insert_owned_candidate_def insert_borrowed_candidate_def keep_best_lend)
qed simp

lemma resolved_lend:
  "map (\<lambda>(pk, w). into_resolved w (Some (to_canonical_json pk))) (filter (\<lambda>(_, w). \<not> cand_deleted w) m)
     = map (\<lambda>(pk, w). to_resolved w pk) (filter (\<lambda>(_, w). \<not> bor_deleted w) (map (apsnd lend) m))"
  by (induction m) (auto simp: lend_simps)

text \<open>C17: taking ownership of the rows changes nothing: the owned resolver returns what the borrowing
  one returns.\<close>

theorem resolve_rows_owned_eq: "resolve_rows_owned hot cold = resolve_rows hot cold"
  unfolding resolve_rows_owned_def resolve_rows_def Let_def resolved_lend
  by (simp add: fold_lend [of own_hot borrow_hot] fold_lend [of own_cold borrow_cold] lend_simps)

subsection \<open>One batch of the streaming resolver\<close>

lemma collect_candidates_eq:
  "collect_candidates rows (m, map fst m)
     = (fold (\<lambda>(k, c). keep_best cand_beats k c) rows m,
        map fst (fold (\<lambda>(k, c). keep_best cand_beats k c) rows m))"
proof (induction rows arbitrary: m)
  case (Cons p rows)
  obtain k c where p: "p = (k, c)"
    by fastforce
  have "(if map_of m k = None then map fst m @ [k] else map fst m) = map fst (keep_best cand_beats k c m)"
    by (auto simp: map_of_eq_None_iff)
  then show ?case
    using Cons.IH [of "keep_best cand_beats k c m"] by (simp add: p insert_candidate_def)
qed simp

definition emitted :: "LogicalPkValues set \<Rightarrow> (LogicalPkValues \<times> Candidate) list \<Rightarrow> ResolvedRow list" where
  "emitted S ws = map (\<lambda>(k, w). into_resolved w None) (filter (\<lambda>(k, w). \<not> cand_deleted w \<and> k \<notin> S) ws)"

lemma filter_other: "k \<notin> fst ` set ws \<Longrightarrow> filter (\<lambda>p. fst p \<noteq> k) ws = ws"
  by (induction ws) auto

lemma take_unseen_skip:
  "distinct (map fst ws) \<Longrightarrow>
     take_unseen_ordered False ws (map fst ws) r acc = (r, Inr (acc @ emitted (seen r) ws))"
  by (induction ws arbitrary: acc) (auto simp: emitted_def filter_other)

definition fits :: "NewestFirstWinnerResolver \<Rightarrow> LogicalPkValues set \<Rightarrow> bool" where
  "fits r ks \<longleftrightarrow> ks \<subseteq> seen r \<or> (case max_seen_keys r of None \<Rightarrow> True | Some limit \<Rightarrow> card (seen r \<union> ks) \<le> limit)"

lemma insert_seen_cases:
  assumes "finite (seen r)"
  shows "insert_seen k r =
     (if fits r {k} then (r\<lparr>seen := insert k (seen r)\<rparr>, Inr (k \<notin> seen r))
      else (r, Inl \<lparr>exceeded_limit = the (max_seen_keys r), exceeded_seen = card (seen r)\<rparr>))"
  using assms by (auto simp: insert_seen_def fits_def insert_absorb split: option.splits)

lemma fits_Un:
  assumes "finite (seen r)" "finite ks" "finite js"
  shows "fits r (ks \<union> js) \<longleftrightarrow> fits r ks \<and> fits (r\<lparr>seen := seen r \<union> ks\<rparr>) js"
proof -
  have "card (seen r \<union> ks) \<le> card (seen r \<union> (ks \<union> js))"
    using assms by (intro card_mono) auto
  moreover have "seen r \<union> (ks \<union> js) = seen r \<union> ks" if "js \<subseteq> seen r \<union> ks"
    using that by auto
  ultimately show ?thesis
    using assms by (auto simp: fits_def Un_absorb2 Un_assoc split: option.splits)
qed

lemma take_unseen_retain:
  assumes "distinct (map fst ws)" "finite (seen r)"
  shows "if fits r (fst ` set ws)
     then take_unseen_ordered True ws (map fst ws) r acc
       = (r\<lparr>seen := seen r \<union> fst ` set ws\<rparr>, Inr (acc @ emitted (seen r) ws))
     else \<exists>r' e. take_unseen_ordered True ws (map fst ws) r acc = (r', Inl e)
       \<and> exceeded_limit e = the (max_seen_keys r) \<and> exceeded_limit e \<le> exceeded_seen e"
  using assms
proof (induction ws arbitrary: r acc)
  case Nil
  then show ?case
    by (simp add: fits_def emitted_def)
next
  case (Cons p ws)
  obtain k w where p: "p = (k, w)"
    by fastforce
  let ?r = "r\<lparr>seen := insert k (seen r)\<rparr>"
  have fresh: "k \<notin> fst ` set ws" "distinct (map fst ws)"
    using Cons.prems(1) p by auto
  have f: "fits r (insert k (fst ` set ws)) \<longleftrightarrow> fits r {k} \<and> fits (r\<lparr>seen := insert k (seen r)\<rparr>) (fst ` set ws)"
    using fits_Un [OF Cons.prems(2), of "{k}" "fst ` set ws"] by simp
  have emit: "emitted (insert k (seen r)) ws = emitted (seen r) ws"
    using fresh(1) unfolding emitted_def by (intro arg_cong [of _ _ "map _"] filter_cong) force+
  show ?case
  proof (cases "fits r {k}")
    case True
    then have "insert_seen k r = (?r, Inr (k \<notin> seen r))"
      by (simp add: insert_seen_cases [OF Cons.prems(2)])
    then show ?thesis
      using Cons.IH [of ?r] Cons.prems(2) fresh f True emit
      by (auto simp: p filter_other emitted_def)
  next
    case False
    then have "insert_seen k r = (r, Inl \<lparr>exceeded_limit = the (max_seen_keys r), exceeded_seen = card (seen r)\<rparr>)"
      by (simp add: insert_seen_cases [OF Cons.prems(2)])
    moreover have "the (max_seen_keys r) \<le> card (seen r)"
      using False Cons.prems(2) by (auto simp: fits_def split: option.splits if_splits)
    ultimately show ?thesis
      using False f by (auto simp: p)
  qed
qed

subsection \<open>Keys of one shape\<close>

definition one_shape :: "PkColumn list \<Rightarrow> LogicalPk set \<Rightarrow> bool" where
  "one_shape cols pks \<longleftrightarrow> cols \<noteq> [] \<and> (\<forall>pk\<in>pks. map fst pk = cols)"

definition pks_of :: "version list \<Rightarrow> LogicalPk set" where
  "pks_of vs = version_pk ` set vs"

lemma one_shape_inj:
  assumes "one_shape cols pks" "p \<in> pks" "q \<in> pks"
  shows "into_values p = into_values q \<longleftrightarrow> p = q"
proof -
  have "map fst p = map fst q" "p \<noteq> []" "q \<noteq> []"
    using assms by (auto simp: one_shape_def)
  then show ?thesis
    using into_values_eq [of p q] by (metis zip_map_fst_snd)
qed

lemma one_shape_mono: "one_shape cols pks \<Longrightarrow> pks' \<subseteq> pks \<Longrightarrow> one_shape cols pks'"
  by (auto simp: one_shape_def)

lemma pks_of_simps [simp]: "pks_of [] = {}" "pks_of (vs @ ws) = pks_of vs \<union> pks_of ws" "finite (pks_of vs)"
  by (auto simp: pks_of_def)

definition visible_beyond :: "LogicalPkValues set \<Rightarrow> version list \<Rightarrow> ResolvedRow set" where
  "visible_beyond S vs =
     {version_row v | v pk. (visible_version vs pk = Some v \<and> into_values pk \<notin> S) \<and> \<not> version_deleted v}"

lemma of_key_cand_version:
  assumes "one_shape cols (pks_of vs)" "pk \<in> pks_of vs"
  shows "of_key (into_values pk) (map cand_version vs) = map (snd \<circ> cand_version) (filter (\<lambda>v. version_pk v = pk) vs)"
proof -
  have "filter (\<lambda>v. fst (cand_version v) = into_values pk) vs = filter (\<lambda>v. version_pk v = pk) vs"
    using one_shape_inj [OF assms(1) _ assms(2)]
    by (intro filter_cong) (auto simp: cand_version_simps pks_of_def)
  then show ?thesis
    by (simp add: of_key_def filter_map comp_def)
qed

lemma batch_entry:
  assumes "one_shape cols (pks_of vs)"
  shows "(k, c) \<in> set (fold (\<lambda>(k, c). keep_best cand_beats k c) (map cand_version vs) [])
     \<longleftrightarrow> (\<exists>pk v. k = into_values pk \<and> visible_version vs pk = Some v \<and> c = snd (cand_version v))"
proof (cases "k \<in> into_values ` pks_of vs")
  case True
  then obtain pk where pk: "k = into_values pk" "pk \<in> pks_of vs"
    by blast
  have "winner cand_beats (of_key k (map cand_version vs))
      = map_option (snd \<circ> cand_version) (visible_version vs pk)"
    unfolding pk(1) of_key_cand_version [OF assms pk(2)] visible_version_def
    by (rule winner_map) (simp add: cand_version_simps)
  then have "(k, c) \<in> set (fold (\<lambda>(k, c). keep_best cand_beats k c) (map cand_version vs) [])
      \<longleftrightarrow> (\<exists>v. visible_version vs pk = Some v \<and> c = snd (cand_version v))"
    unfolding owned.fold_keep_best_entry by (auto simp del: split_paired_Ex)
  moreover have "pk' = pk" if "visible_version vs pk' = Some v" "k = into_values pk'" for pk' v
    using that one_shape_inj [OF assms _ pk(2), of pk'] visible_version_pk [OF that(1)] pk(1)
    by (auto simp: pks_of_def)
  ultimately show ?thesis
    using pk(1) by metis
next
  case False
  then have "of_key k (map cand_version vs) = []"
    by (auto simp: of_key_def filter_empty_conv cand_version_simps pks_of_def)
  then have "(k, c) \<notin> set (fold (\<lambda>(k, c). keep_best cand_beats k c) (map cand_version vs) [])"
    unfolding owned.fold_keep_best_entry by (simp add: winner_def)
  moreover have "into_values pk \<noteq> k" if "visible_version vs pk = Some v" for pk v
    using False visible_version_pk [OF that] by (auto simp: pks_of_def)
  ultimately show ?thesis
    by blast
qed

lemma visible_version_exists: "(\<exists>v. visible_version vs pk = Some v) \<longleftrightarrow> pk \<in> pks_of vs"
proof -
  have "(\<exists>v. visible_version vs pk = Some v) \<longleftrightarrow> filter (\<lambda>v. version_pk v = pk) vs \<noteq> []"
    unfolding visible_version_def by (metis version.winner_None not_None_eq)
  then show ?thesis
    by (auto simp: filter_empty_conv pks_of_def)
qed

lemma visible_version_mem: "visible_version vs pk = Some v \<Longrightarrow> pk \<in> pks_of vs"
  using visible_version_exists by blast

lemma batch_keys:
  assumes "one_shape cols (pks_of vs)"
  shows "fst ` set (fold (\<lambda>(k, c). keep_best cand_beats k c) (map cand_version vs) []) = into_values ` pks_of vs"
  unfolding fst_image batch_entry [OF assms] using visible_version_exists [of vs] by blast

lemma batch_emitted:
  assumes "one_shape cols (pks_of vs)"
  shows "set (emitted S (fold (\<lambda>(k, c). keep_best cand_beats k c) (map cand_version vs) [])) = visible_beyond S vs"
proof -
  let ?m = "fold (\<lambda>(k, c). keep_best cand_beats k c) (map cand_version vs) []"
  have "set (emitted S ?m) = {into_resolved c None | k c. (k, c) \<in> set ?m \<and> \<not> cand_deleted c \<and> k \<notin> S}"
    unfolding emitted_def by force
  also have "\<dots> = visible_beyond S vs"
    unfolding batch_entry [OF assms] visible_beyond_def
    by (intro Collect_cong) (metis cand_version_simps(3,4))
  finally show ?thesis .
qed

definition versions :: "RowSource \<Rightarrow> (LogicalPk \<times> SeqId \<times> bool \<times> RowImage) list \<Rightarrow> version list" where
  "versions s rows = map (Pair s) rows"

lemma resolve_batch_eq:
  "resolve_batch s retain rows r = (let ws = fold (\<lambda>(k, c). keep_best cand_beats k c) (map cand_version (versions s rows)) []
     in take_unseen_ordered retain ws (map fst ws) r [])"
  using collect_candidates_eq [of "map (candidate_of s) rows" "[]"]
  by (simp add: resolve_batch_def versions_def comp_def Let_def)

lemma resolve_batch_skip:
  assumes "one_shape cols (pks_of (versions s rows))"
  shows "\<exists>out. resolve_batch s False rows r = (r, Inr out) \<and> set out = visible_beyond (seen r) (versions s rows)"
  using take_unseen_skip [OF owned.fold_keep_best_keys [of "[]" "map cand_version (versions s rows)"], of r "[]"]
    batch_emitted [OF assms, of "seen r"]
  by (simp add: resolve_batch_eq Let_def)

text \<open>What a capped operation that retains the keys \<open>ks\<close> does: it answers and retains them when they fit,
  and reports the limit otherwise.\<close>

definition retains :: "NewestFirstWinnerResolver \<Rightarrow> LogicalPkValues set \<Rightarrow> ('a \<Rightarrow> bool)
    \<Rightarrow> 'a resolve_result \<Rightarrow> bool" where
  "retains r ks good res \<longleftrightarrow>
     (if fits r ks then \<exists>a. res = (r\<lparr>seen := seen r \<union> ks\<rparr>, Inr a) \<and> good a
      else \<exists>r' e. res = (r', Inl e) \<and> exceeded_limit e = the (max_seen_keys r) \<and> exceeded_limit e \<le> exceeded_seen e)"

lemma resolve_batch_retain:
  assumes "one_shape cols (pks_of (versions s rows))" "finite (seen r)"
  shows "retains r (into_values ` pks_of (versions s rows))
     (\<lambda>out. set out = visible_beyond (seen r) (versions s rows)) (resolve_batch s True rows r)"
  using take_unseen_retain [OF owned.fold_keep_best_keys [of "[]"] assms(2), of "map cand_version (versions s rows)" "[]"]
    batch_emitted [OF assms(1)] batch_keys [OF assms(1)]
  by (auto simp: retains_def resolve_batch_eq Let_def split: if_splits)

subsection \<open>A whole scan\<close>

text \<open>The order in which a scan drives the resolver: the hot batch, the mirror's tombstones, then the cold
  batches from newest to oldest.\<close>

definition rr_bind :: "'a resolve_result \<Rightarrow> ('a \<Rightarrow> NewestFirstWinnerResolver \<Rightarrow> 'b resolve_result) \<Rightarrow> 'b resolve_result" where
  "rr_bind res f = (case res of (r, Inl e) \<Rightarrow> (r, Inl e) | (r, Inr a) \<Rightarrow> f a r)"

fun resolve_cold_batches :: "ColdRow list list \<Rightarrow> NewestFirstWinnerResolver \<Rightarrow> ResolvedRow list resolve_result" where
  "resolve_cold_batches [] r = (r, Inr [])"
| "resolve_cold_batches (b # bs) r = rr_bind (resolve_cold_batch b r)
     (\<lambda>out r. rr_bind (resolve_cold_batches bs r) (\<lambda>rest r. (r, Inr (out @ rest))))"

definition progressive_scan :: "HotRow list \<Rightarrow> LogicalPk list \<Rightarrow> ColdRow list list
    \<Rightarrow> NewestFirstWinnerResolver \<Rightarrow> ResolvedRow list resolve_result" where
  "progressive_scan hot tombs batches r = rr_bind (resolve_hot_batch hot r)
     (\<lambda>out r. rr_bind (mask_older_pks tombs r)
       (\<lambda>_ r. rr_bind (resolve_cold_batches batches r) (\<lambda>rest r. (r, Inr (out @ rest)))))"

lemma retains_return [simp]: "retains r {} good (r, Inr a) \<longleftrightarrow> good a"
  by (simp add: retains_def fits_def)

lemma retains_bind:
  assumes "retains r ks P res" "finite (seen r)" "finite ks" "finite js"
    and "\<And>a. P a \<Longrightarrow> retains (r\<lparr>seen := seen r \<union> ks\<rparr>) js Q (f a (r\<lparr>seen := seen r \<union> ks\<rparr>))"
  shows "retains r (ks \<union> js) Q (rr_bind res f)"
proof (cases "fits r ks")
  case True
  then obtain a where "res = (r\<lparr>seen := seen r \<union> ks\<rparr>, Inr a)" "P a"
    using assms(1) by (auto simp: retains_def)
  then show ?thesis
    using assms(5) [of a] fits_Un [OF assms(2-4)] True
    by (auto simp: rr_bind_def retains_def Un_assoc split: if_splits)
next
  case False
  then show ?thesis
    using assms(1) fits_Un [OF assms(2-4)] by (auto simp: retains_def rr_bind_def)
qed

lemma mask_retains:
  "finite (seen r) \<Longrightarrow> retains r (into_values ` set pks) (\<lambda>_. True) (mask_older_pks pks r)"
proof (induction pks arbitrary: r)
  case (Cons pk pks)
  have "retains r {into_values pk} (\<lambda>_. True) (insert_seen (into_values pk) r)"
    using Cons.prems insert_seen_cases [OF Cons.prems, of "into_values pk"]
    by (auto simp: retains_def fits_def split: option.splits if_splits)
  moreover have "mask_older_pks (pk # pks) r = rr_bind (insert_seen (into_values pk) r) (\<lambda>_. mask_older_pks pks)"
    by (simp add: rr_bind_def split: prod.splits sum.splits)
  moreover have "retains r ({into_values pk} \<union> into_values ` set pks) (\<lambda>_. True)
      (rr_bind (insert_seen (into_values pk) r) (\<lambda>_. mask_older_pks pks))"
    by (rule retains_bind [OF calculation(1)]) (use Cons in auto)
  ultimately show ?case
    by simp
qed simp

definition newest_first :: "version list \<Rightarrow> version list \<Rightarrow> bool" where
  "newest_first vs ws \<longleftrightarrow>
     (\<forall>v\<in>set vs. \<forall>w\<in>set ws. version_pk v = version_pk w \<longrightarrow> version_seq w \<le> version_seq v)"

lemma visible_version_append:
  assumes "\<And>a b. a \<in> set vs \<Longrightarrow> b \<in> set ws \<Longrightarrow> version_pk a = version_pk b \<Longrightarrow> \<not> version_beats b a"
  shows "visible_version (vs @ ws) pk = (if pk \<in> pks_of vs then visible_version vs pk else visible_version ws pk)"
proof (cases "pk \<in> pks_of vs")
  case True
  then have "filter (\<lambda>v. version_pk v = pk) vs \<noteq> []"
    by (auto simp: pks_of_def filter_empty_conv)
  then show ?thesis
    using True assms version.winner_append [of "filter (\<lambda>v. version_pk v = pk) vs" "filter (\<lambda>v. version_pk v = pk) ws"]
    by (auto simp: visible_version_def)
next
  case False
  then have "filter (\<lambda>v. version_pk v = pk) vs = []"
    by (auto simp: pks_of_def filter_empty_conv)
  then show ?thesis
    using False by (simp add: visible_version_def)
qed

lemma visible_beyond_append:
  assumes "\<And>a b. a \<in> set vs \<Longrightarrow> b \<in> set ws \<Longrightarrow> version_pk a = version_pk b \<Longrightarrow> \<not> version_beats b a"
    and "one_shape cols (pks_of (vs @ ws))"
  shows "visible_beyond S (vs @ ws) = visible_beyond S vs \<union> visible_beyond (S \<union> into_values ` pks_of vs) ws"
proof -
  have known: "into_values pk \<in> into_values ` pks_of vs \<longleftrightarrow> pk \<in> pks_of vs" if "pk \<in> pks_of ws" for pk
    using that one_shape_inj [OF assms(2), of pk] by (auto simp: image_iff)
  have app: "visible_version (vs @ ws) pk = (if pk \<in> pks_of vs then visible_version vs pk else visible_version ws pk)" for pk
    by (rule visible_version_append) (rule assms(1))
  have none: "visible_version vs pk = None" if "pk \<notin> pks_of vs" for pk
    using that visible_version_exists by (metis not_None_eq)
  have both: "(visible_version (vs @ ws) pk = Some v \<and> into_values pk \<notin> S)
      \<longleftrightarrow> (visible_version vs pk = Some v \<and> into_values pk \<notin> S)
        \<or> (visible_version ws pk = Some v \<and> into_values pk \<notin> S \<union> into_values ` pks_of vs)" for pk v
  proof (cases "pk \<in> pks_of vs")
    case True
    then show ?thesis
      by (simp add: app)
  next
    case False
    then show ?thesis
      using none [OF False] known [of pk] by (auto simp: app dest: visible_version_mem)
  qed
  show ?thesis
    unfolding visible_beyond_def both by blast
qed

lemma versions_parts [simp]:
  "versions Hot (map hot_parts hot) = hot_versions hot" "versions Cold (map cold_parts cold) = cold_versions cold"
  by (simp_all add: versions_def hot_versions_def cold_versions_def)

lemma cold_versions_simps [simp]:
  "cold_versions [] = []" "cold_versions (a @ b) = cold_versions a @ cold_versions b"
  by (simp_all add: cold_versions_def)

lemma newest_first_no_beats:
  assumes "newest_first vs (cold_versions rows)" "a \<in> set vs" "b \<in> set (cold_versions rows)" "version_pk a = version_pk b"
  shows "\<not> version_beats b a"
proof -
  have "version_seq b \<le> version_seq a"
    using assms by (auto simp: newest_first_def)
  moreover have "fst b = Cold"
    using assms(3) by (auto simp: cold_versions_def)
  ultimately show ?thesis
    by (cases a; cases b) (auto simp: version_beats_def)
qed

lemma newest_first_concat:
  "\<forall>b'\<in>set bs. newest_first vs (cold_versions b') \<Longrightarrow> newest_first vs (cold_versions (concat bs))"
  by (fastforce simp: newest_first_def cold_versions_def)

lemma cold_batches_retain:
  assumes "one_shape cols (pks_of (cold_versions (concat bs)))" "finite (seen r)" "\<not> skip_cold_identity_retention r"
    and "sorted_wrt (\<lambda>b b'. newest_first (cold_versions b) (cold_versions b')) bs"
  shows "retains r (into_values ` pks_of (cold_versions (concat bs)))
     (\<lambda>out. set out = visible_beyond (seen r) (cold_versions (concat bs))) (resolve_cold_batches bs r)"
  using assms
proof (induction bs arbitrary: r)
  case Nil
  then show ?case
    by (simp add: visible_beyond_def visible_version_def winner_def)
next
  case (Cons b bs)
  let ?b = "cold_versions b" and ?bs = "cold_versions (concat bs)"
  let ?r = "r\<lparr>seen := seen r \<union> into_values ` pks_of ?b\<rparr>"
  have shapes: "one_shape cols (pks_of ?b)" "one_shape cols (pks_of ?bs)"
    using Cons.prems(1) by (auto elim: one_shape_mono)
  have "visible_beyond (seen r) (?b @ ?bs) = visible_beyond (seen r) ?b \<union> visible_beyond (seen ?r) ?bs"
    using visible_beyond_append [of ?b ?bs cols "seen r"] Cons.prems(1,4)
      newest_first_no_beats [OF newest_first_concat [of bs ?b]] by simp
  moreover have "retains ?r (into_values ` pks_of ?bs) (\<lambda>rest. set rest = visible_beyond (seen ?r) ?bs)
      (resolve_cold_batches bs ?r)"
    using Cons.IH [OF shapes(2), of ?r] Cons.prems by simp
  ultimately have rest: "retains ?r (into_values ` pks_of ?bs)
      (\<lambda>all. set all = visible_beyond (seen r) (?b @ ?bs))
      (rr_bind (resolve_cold_batches bs ?r) (\<lambda>rest r. (r, Inr (out @ rest))))"
    if "set out = visible_beyond (seen r) ?b" for out
    using retains_bind [of ?r "into_values ` pks_of ?bs" "\<lambda>rest. set rest = visible_beyond (seen ?r) ?bs"
        "resolve_cold_batches bs ?r" "{}" "\<lambda>all. set all = visible_beyond (seen r) (?b @ ?bs)"] Cons.prems(2) that
    by simp
  have "retains r (into_values ` pks_of ?b) (\<lambda>out. set out = visible_beyond (seen r) ?b) (resolve_cold_batch b r)"
    using resolve_batch_retain [of cols Cold "map cold_parts b" r] shapes Cons.prems(2,3)
    by (simp add: resolve_cold_batch_def)
  then have "retains r (into_values ` pks_of ?b \<union> into_values ` pks_of ?bs)
      (\<lambda>all. set all = visible_beyond (seen r) (?b @ ?bs)) (resolve_cold_batches (b # bs) r)"
    unfolding resolve_cold_batches.simps by (rule retains_bind [OF _ Cons.prems(2)]) (use rest in auto)
  then show ?case
    by (simp add: image_Un)
qed

lemma cold_batches_skip:
  assumes "one_shape cols (pks_of (cold_versions (concat bs)))" "skip_cold_identity_retention r"
    and "sorted_wrt (\<lambda>b b'. pks_of (cold_versions b) \<inter> pks_of (cold_versions b') = {}) bs"
  shows "\<exists>out. resolve_cold_batches bs r = (r, Inr out) \<and> set out = visible_beyond (seen r) (cold_versions (concat bs))"
  using assms
proof (induction bs)
  case Nil
  then show ?case
    by (simp add: visible_beyond_def visible_version_def winner_def)
next
  case (Cons b bs)
  let ?b = "cold_versions b" and ?bs = "cold_versions (concat bs)"
  have shapes: "one_shape cols (pks_of ?b)" "one_shape cols (pks_of ?bs)"
    using Cons.prems(1) by (auto elim: one_shape_mono)
  have apart: "pks_of ?b \<inter> pks_of ?bs = {}"
    using Cons.prems(3) by (force simp: pks_of_def cold_versions_def)
  have "version_pk v \<noteq> version_pk w" if "v \<in> set ?b" "w \<in> set ?bs" for v w
    using apart that by (auto simp: pks_of_def)
  then have "visible_beyond (seen r) (?b @ ?bs)
      = visible_beyond (seen r) ?b \<union> visible_beyond (seen r \<union> into_values ` pks_of ?b) ?bs"
    using visible_beyond_append [of ?b ?bs cols "seen r"] Cons.prems(1) by simp
  moreover have "into_values pk \<notin> into_values ` pks_of ?b" if "visible_version ?bs pk = Some v" for pk v
    using visible_version_mem [OF that] apart one_shape_inj [OF Cons.prems(1), of pk] by auto
  then have "visible_beyond (seen r \<union> into_values ` pks_of ?b) ?bs = visible_beyond (seen r) ?bs"
    unfolding visible_beyond_def by blast
  moreover obtain out where "resolve_cold_batch b r = (r, Inr out)" "set out = visible_beyond (seen r) ?b"
    using resolve_batch_skip [of cols Cold "map cold_parts b" r] shapes Cons.prems(2)
    by (auto simp: resolve_cold_batch_def)
  moreover obtain rest where "resolve_cold_batches bs r = (r, Inr rest)" "set rest = visible_beyond (seen r) ?bs"
    using Cons.IH shapes Cons.prems by auto
  ultimately show ?case
    by (simp add: rr_bind_def)
qed

subsection \<open>Streaming returns what batch resolution returns\<close>

definition unmasked :: "LogicalPk list \<Rightarrow> ColdRow list \<Rightarrow> ColdRow list" where
  "unmasked tombs cold = filter (\<lambda>row. cold_pk row \<notin> set tombs) cold"

lemma visible_version_unmasked:
  "visible_version (cold_versions (unmasked tombs cold)) pk
     = (if pk \<in> set tombs then None else visible_version (cold_versions cold) pk)"
proof -
  have "filter (\<lambda>v. version_pk v = pk) (cold_versions (unmasked tombs cold))
      = (if pk \<in> set tombs then [] else filter (\<lambda>v. version_pk v = pk) (cold_versions cold))"
    by (induction cold) (auto simp: cold_versions_def unmasked_def cold_parts_def)
  then show ?thesis
    by (simp add: visible_version_def winner_def)
qed

lemma visible_beyond_unmasked:
  assumes "one_shape cols (pks_of (cold_versions cold) \<union> set tombs)"
  shows "visible_beyond S (cold_versions (unmasked tombs cold))
     = visible_beyond (S \<union> into_values ` set tombs) (cold_versions cold)"
proof -
  have known: "into_values pk \<in> into_values ` set tombs \<longleftrightarrow> pk \<in> set tombs"
    if "visible_version (cold_versions cold) pk = Some v" for pk v
    using visible_version_mem [OF that] one_shape_inj [OF assms, of pk] by auto
  have "(visible_version (cold_versions (unmasked tombs cold)) pk = Some v \<and> into_values pk \<notin> S)
      \<longleftrightarrow> (visible_version (cold_versions cold) pk = Some v \<and> into_values pk \<notin> S \<union> into_values ` set tombs)" for pk v
    unfolding visible_version_unmasked using known [of pk v] by auto
  then show ?thesis
    unfolding visible_beyond_def by simp
qed

lemma hot_beats_cold:
  assumes "newest_first (hot_versions hot) (cold_versions cold)" "a \<in> set (hot_versions hot)"
    and "b \<in> set (cold_versions cold)" "version_pk a = version_pk b"
  shows "version_beats a b"
proof -
  have "version_seq b \<le> version_seq a"
    using assms by (auto simp: newest_first_def)
  moreover have "fst a = Hot" "fst b = Cold"
    using assms(2,3) by (auto simp: hot_versions_def cold_versions_def)
  ultimately show ?thesis
    by (cases a; cases b) (auto simp: version_beats_def)
qed

lemma visible_hot_first:
  assumes "newest_first (hot_versions hot) (cold_versions cold)"
    and "one_shape cols (pks_of (hot_versions hot @ cold_versions cold))"
  shows "visible (cold_versions cold @ hot_versions hot)
     = visible_beyond {} (hot_versions hot)
       \<union> visible_beyond (into_values ` pks_of (hot_versions hot)) (cold_versions cold)"
proof -
  let ?h = "hot_versions hot" and ?c = "cold_versions cold"
  have "visible_version (?c @ ?h) pk = visible_version (?h @ ?c) pk" for pk
  proof (cases "pk \<in> pks_of ?h")
    case True
    then have "filter (\<lambda>v. version_pk v = pk) ?h \<noteq> []"
      by (auto simp: pks_of_def filter_empty_conv)
    then have "visible_version (?c @ ?h) pk = visible_version ?h pk"
      using version.winner_prepend [of "filter (\<lambda>v. version_pk v = pk) ?h" "filter (\<lambda>v. version_pk v = pk) ?c"]
        hot_beats_cold [OF assms(1)]
      by (auto simp: visible_version_def)
    moreover have "visible_version (?h @ ?c) pk = visible_version ?h pk"
      using True visible_version_append [of ?h ?c pk] newest_first_no_beats [OF assms(1)] by simp
    ultimately show ?thesis
      by simp
  next
    case False
    then have "filter (\<lambda>v. version_pk v = pk) ?h = []"
      by (auto simp: pks_of_def filter_empty_conv)
    then show ?thesis
      by (simp add: visible_version_def)
  qed
  then have "visible (?c @ ?h) = visible_beyond {} (?h @ ?c)"
    by (simp add: visible_def visible_beyond_def)
  also have "\<dots> = visible_beyond {} ?h \<union> visible_beyond (into_values ` pks_of ?h) ?c"
    using visible_beyond_append [of ?h ?c cols "{}"] newest_first_no_beats [OF assms(1)] assms(2) by simp
  finally show ?thesis .
qed

text \<open>The premises of a scan: keys of one shape, cold rows no newer than hot rows of the same key.\<close>

definition scan_input :: "PkColumn list \<Rightarrow> HotRow list \<Rightarrow> LogicalPk list \<Rightarrow> ColdRow list list \<Rightarrow> bool" where
  "scan_input cols hot tombs batches \<longleftrightarrow>
     one_shape cols (pks_of (hot_versions hot @ cold_versions (concat batches)) \<union> set tombs)
     \<and> newest_first (hot_versions hot) (cold_versions (concat batches))"

definition scan_keys :: "HotRow list \<Rightarrow> LogicalPk list \<Rightarrow> ColdRow list list \<Rightarrow> LogicalPk set" where
  "scan_keys hot tombs batches =
     pks_of (hot_versions hot) \<union> (set tombs \<union> pks_of (cold_versions (concat batches)))"

lemma scan_output:
  assumes "scan_input cols hot tombs batches"
  shows "visible_beyond {} (hot_versions hot)
      \<union> visible_beyond (into_values ` pks_of (hot_versions hot) \<union> into_values ` set tombs)
          (cold_versions (concat batches))
    = set (resolve_rows hot (unmasked tombs (concat batches)))"
proof -
  let ?c = "unmasked tombs (concat batches)"
  have sub: "set (cold_versions ?c) \<subseteq> set (cold_versions (concat batches))"
    by (auto simp: cold_versions_def unmasked_def)
  then have "newest_first (hot_versions hot) (cold_versions ?c)"
    using assms by (auto simp: scan_input_def newest_first_def)
  moreover have "one_shape cols (pks_of (hot_versions hot @ cold_versions ?c))"
    using assms sub unfolding scan_input_def pks_of_def by (auto elim!: one_shape_mono)
  moreover have "one_shape cols (pks_of (cold_versions (concat batches)) \<union> set tombs)"
    using assms unfolding scan_input_def by (auto elim!: one_shape_mono)
  ultimately show ?thesis
    using visible_hot_first [of hot ?c cols] visible_beyond_unmasked [of cols "concat batches" tombs]
      resolve_rows_winners [of hot ?c] by simp
qed

lemma scan_keys_card:
  assumes "scan_input cols hot tombs batches" "ks \<subseteq> scan_keys hot tombs batches"
  shows "card (into_values ` ks) = card ks"
proof -
  have "one_shape cols ks"
    using assms unfolding scan_input_def scan_keys_def by (auto elim!: one_shape_mono)
  then show ?thesis
    by (intro card_image inj_onI) (simp add: one_shape_inj)
qed

lemma hot_batch_retains:
  assumes "scan_input cols hot tombs batches" "finite (seen r)"
  shows "retains r (into_values ` pks_of (hot_versions hot))
     (\<lambda>out. set out = visible_beyond (seen r) (hot_versions hot)) (resolve_hot_batch hot r)"
proof -
  have "one_shape cols (pks_of (hot_versions hot))"
    using assms(1) unfolding scan_input_def by (auto elim!: one_shape_mono)
  then show ?thesis
    using resolve_batch_retain [of cols Hot "map hot_parts hot" r] assms(2) by (simp add: resolve_hot_batch_def)
qed

lemma progressive_scan_retains:
  assumes "scan_input cols hot tombs batches" "seen r = {}" "\<not> skip_cold_identity_retention r"
    and "sorted_wrt (\<lambda>b b'. newest_first (cold_versions b) (cold_versions b')) batches"
  shows "retains r (into_values ` scan_keys hot tombs batches)
     (\<lambda>out. set out = set (resolve_rows hot (unmasked tombs (concat batches)))) (progressive_scan hot tombs batches r)"
proof -
  let ?H = "into_values ` pks_of (hot_versions hot)" and ?T = "into_values ` set tombs"
  let ?c = "cold_versions (concat batches)"
  let ?r1 = "r\<lparr>seen := seen r \<union> ?H\<rparr>"
  let ?r2 = "?r1\<lparr>seen := seen ?r1 \<union> ?T\<rparr>"
  let ?all = "\<lambda>out. set out = set (resolve_rows hot (unmasked tombs (concat batches)))"
  have "one_shape cols (pks_of ?c)"
    using assms(1) unfolding scan_input_def by (auto elim!: one_shape_mono)
  then have cold: "retains ?r2 (into_values ` pks_of ?c) (\<lambda>out. set out = visible_beyond (?H \<union> ?T) ?c)
      (resolve_cold_batches batches ?r2)"
    using cold_batches_retain [of cols batches ?r2] assms by simp
  have step3: "retains ?r2 (into_values ` pks_of ?c \<union> {}) ?all
      (rr_bind (resolve_cold_batches batches ?r2) (\<lambda>rest r. (r, Inr (out @ rest))))"
    if "set out = visible_beyond {} (hot_versions hot)" for out
    by (rule retains_bind [OF cold]) (use assms(2) that scan_output [OF assms(1)] in auto)
  have step2: "retains ?r1 (?T \<union> into_values ` pks_of ?c) ?all
      (rr_bind (mask_older_pks tombs ?r1) (\<lambda>_ r. rr_bind (resolve_cold_batches batches r) (\<lambda>rest r. (r, Inr (out @ rest)))))"
    if "set out = visible_beyond {} (hot_versions hot)" for out
    by (rule retains_bind [OF mask_retains]) (use assms(2) step3 [OF that] in auto)
  have "retains r (?H \<union> (?T \<union> into_values ` pks_of ?c)) ?all (progressive_scan hot tombs batches r)"
    unfolding progressive_scan_def
    by (rule retains_bind [OF hot_batch_retains [OF assms(1)]]) (use assms(2) step2 in auto)
  then show ?thesis
    by (simp add: scan_keys_def image_Un)
qed

lemma progressive_scan_answers:
  assumes "scan_input cols hot tombs batches"
    and "sorted_wrt (\<lambda>b b'. newest_first (cold_versions b) (cold_versions b')) batches"
  shows "\<exists>r out. progressive_scan hot tombs batches (resolver_new []) = (r, Inr out)
    \<and> set out = set (resolve_rows hot (unmasked tombs (concat batches)))
    \<and> seen_key_count r = card (scan_keys hot tombs batches)"
  using progressive_scan_retains [OF assms(1) _ _ assms(2), of "resolver_new []"] scan_keys_card [OF assms(1) order_refl]
  by (auto simp: resolver_new_def retains_def fits_def seen_key_count_def)

lemma progressive_scan_unretained:
  assumes "scan_input cols hot tombs batches"
    and "sorted_wrt (\<lambda>b b'. pks_of (cold_versions b) \<inter> pks_of (cold_versions b') = {}) batches"
  shows "\<exists>r out. progressive_scan hot tombs batches (without_cold_identity_retention (resolver_new [])) = (r, Inr out)
    \<and> set out = set (resolve_rows hot (unmasked tombs (concat batches)))
    \<and> seen_key_count r = card (pks_of (hot_versions hot) \<union> set tombs)"
proof -
  let ?r = "without_cold_identity_retention (resolver_new [])"
  let ?H = "into_values ` pks_of (hot_versions hot)" and ?T = "into_values ` set tombs"
  obtain out where hot: "resolve_hot_batch hot ?r = (?r\<lparr>seen := ?H\<rparr>, Inr out)" "set out = visible_beyond {} (hot_versions hot)"
    using hot_batch_retains [OF assms(1), of ?r]
    by (auto simp: retains_def fits_def resolver_new_def without_cold_identity_retention_def)
  have mask: "mask_older_pks tombs (?r\<lparr>seen := ?H\<rparr>) = (?r\<lparr>seen := ?H \<union> ?T\<rparr>, Inr ())"
    using mask_retains [of "?r\<lparr>seen := ?H\<rparr>" tombs]
    by (auto simp: retains_def fits_def resolver_new_def without_cold_identity_retention_def)
  have "one_shape cols (pks_of (cold_versions (concat batches)))"
    using assms(1) unfolding scan_input_def by (auto elim!: one_shape_mono)
  then obtain rest where "resolve_cold_batches batches (?r\<lparr>seen := ?H \<union> ?T\<rparr>) = (?r\<lparr>seen := ?H \<union> ?T\<rparr>, Inr rest)"
    "set rest = visible_beyond (?H \<union> ?T) (cold_versions (concat batches))"
    using cold_batches_skip [of cols batches "?r\<lparr>seen := ?H \<union> ?T\<rparr>"] assms(2)
    by (auto simp: without_cold_identity_retention_def)
  moreover have "card (?H \<union> ?T) = card (pks_of (hot_versions hot) \<union> set tombs)"
    using scan_keys_card [OF assms(1), of "pks_of (hot_versions hot) \<union> set tombs"]
    by (auto simp: scan_keys_def image_Un)
  ultimately show ?thesis
    using hot mask scan_output [OF assms(1)]
    by (simp add: progressive_scan_def rr_bind_def seen_key_count_def)
qed

text \<open>C18: driven with the hot rows, the tombstones and the cold batches from newest to oldest, the
  streaming resolver always answers, its rows are those of batch resolution over all unmasked rows, and it
  retains one identity per key.\<close>

theorem progressive_scan_refines_batch:
  assumes "scan_input cols hot tombs batches"
    and "sorted_wrt (\<lambda>b b'. newest_first (cold_versions b) (cold_versions b')) batches"
  shows "\<exists>r out. progressive_scan hot tombs batches (resolver_new []) = (r, Inr out)
    \<and> set out = set (resolve_rows hot (unmasked tombs (concat batches)))
    \<and> seen_key_count r = card (scan_keys hot tombs batches)"
  by (rule progressive_scan_answers) (rule assms)+

text \<open>C19: when no key is in two cold batches, not retaining cold identities gives the same rows, and the
  identities kept are only those of the hot rows and the tombstones.\<close>

theorem progressive_scan_without_retention:
  assumes "scan_input cols hot tombs batches"
    and "sorted_wrt (\<lambda>b b'. pks_of (cold_versions b) \<inter> pks_of (cold_versions b') = {}) batches"
  shows "\<exists>r out. progressive_scan hot tombs batches (without_cold_identity_retention (resolver_new [])) = (r, Inr out)
    \<and> set out = set (resolve_rows hot (unmasked tombs (concat batches)))
    \<and> seen_key_count r = card (pks_of (hot_versions hot) \<union> set tombs)"
  by (rule progressive_scan_unretained) (rule assms)+

text \<open>C20: with a cap on retained identities a scan either gives the same rows, when its keys fit the
  cap, or fails with that cap; it never drops rows silently.\<close>

theorem progressive_scan_capped:
  assumes "scan_input cols hot tombs batches"
    and "sorted_wrt (\<lambda>b b'. newest_first (cold_versions b) (cold_versions b')) batches" and "0 < limit"
  shows "if card (scan_keys hot tombs batches) \<le> limit
    then \<exists>r out. progressive_scan hot tombs batches (with_max_seen_keys (Some limit) (resolver_new [])) = (r, Inr out)
           \<and> set out = set (resolve_rows hot (unmasked tombs (concat batches)))
    else \<exists>r e. progressive_scan hot tombs batches (with_max_seen_keys (Some limit) (resolver_new [])) = (r, Inl e)
           \<and> exceeded_limit e = limit \<and> limit \<le> exceeded_seen e"
  using progressive_scan_retains [OF assms(1) _ _ assms(2), of "with_max_seen_keys (Some limit) (resolver_new [])"]
    scan_keys_card [OF assms(1) order_refl] assms(3)
  by (auto simp: resolver_new_def with_max_seen_keys_def retains_def fits_def split: if_splits)

subsection \<open>A concrete scan\<close>

definition sample_pk :: "string \<Rightarrow> LogicalPk" where
  "sample_pk s = [(''id'', JString s)]"

definition sample_hot :: "HotRow list" where
  "sample_hot = [\<lparr>hot_pk = sample_pk ''a'', hot_scope_key = None, hot_seq = 5, hot_deleted = False, hot_row_image = Map.empty\<rparr>]"

definition sample_cold :: "string \<Rightarrow> int \<Rightarrow> ColdRow" where
  "sample_cold s q = \<lparr>cold_pk = sample_pk s, cold_scope_key = None, cold_seq = q, cold_deleted = False,
     cold_schema_version = 1, cold_row_image = Map.empty\<rparr>"

lemmas sample_scan = scan_input_def scan_keys_def one_shape_def newest_first_def pks_of_def hot_versions_def
  cold_versions_def hot_parts_def cold_parts_def sample_hot_def sample_cold_def sample_pk_def

theorem progressive_scan_refines_batch_witness:
  "\<exists>r out. progressive_scan sample_hot [sample_pk ''b''] [[sample_cold ''b'' 3, sample_cold ''c'' 4], [sample_cold ''a'' 1, sample_cold ''c'' 2]]
       (resolver_new []) = (r, Inr out)
     \<and> set out = set (resolve_rows sample_hot (unmasked [sample_pk ''b'']
         [sample_cold ''b'' 3, sample_cold ''c'' 4, sample_cold ''a'' 1, sample_cold ''c'' 2]))"
  using progressive_scan_refines_batch [of "[''id'']" sample_hot "[sample_pk ''b'']"
      "[[sample_cold ''b'' 3, sample_cold ''c'' 4], [sample_cold ''a'' 1, sample_cold ''c'' 2]]"]
  by (auto simp: sample_scan)

theorem progressive_scan_without_retention_witness:
  "\<exists>r out. progressive_scan sample_hot [sample_pk ''b''] [[sample_cold ''b'' 3], [sample_cold ''a'' 1]]
       (without_cold_identity_retention (resolver_new [])) = (r, Inr out)
     \<and> set out = set (resolve_rows sample_hot (unmasked [sample_pk ''b''] [sample_cold ''b'' 3, sample_cold ''a'' 1]))"
  using progressive_scan_without_retention [of "[''id'']" sample_hot "[sample_pk ''b'']" "[[sample_cold ''b'' 3], [sample_cold ''a'' 1]]"]
  by (auto simp: sample_scan)

theorem progressive_scan_capped_witness:
  "\<exists>r e. progressive_scan sample_hot [sample_pk ''b''] [[sample_cold ''c'' 4]] (with_max_seen_keys (Some 2) (resolver_new [])) = (r, Inl e)
     \<and> exceeded_limit e = 2 \<and> 2 \<le> exceeded_seen e"
  using progressive_scan_capped [of "[''id'']" sample_hot "[sample_pk ''b'']" "[[sample_cold ''c'' 4]]" 2]
  by (simp add: sample_scan)

end
