(* ===== verification/Change_Feed.thy ===== *)
theory Change_Feed
  imports Domain
begin

text \<open>
  The latest-state change feed (\<open>koldstore-merge/src/core/changelog.rs\<close>), the mirror overlay
  (\<open>overlay.rs\<close>) and the tombstone decision (\<open>tombstone.rs\<close>).
\<close>

subsection \<open>Overlay and tombstones\<close>

record MirrorOverlay =
  masked_pks :: "LogicalPk set"

definition overlay_new :: "LogicalPk list \<Rightarrow> MirrorOverlay" where
  "overlay_new pks = \<lparr>masked_pks = set pks\<rparr>"

definition retain_unmasked :: "MirrorOverlay \<Rightarrow> ColdRow list \<Rightarrow> ColdRow list \<times> nat" where
  "retain_unmasked ov rows =
     (let kept = filter (\<lambda>row. cold_pk row \<notin> masked_pks ov) rows in (kept, length rows - length kept))"

definition overlay_insert :: "LogicalPk \<Rightarrow> MirrorOverlay \<Rightarrow> MirrorOverlay \<times> bool" where
  "overlay_insert pk ov = (ov\<lparr>masked_pks := insert pk (masked_pks ov)\<rparr>, pk \<notin> masked_pks ov)"

definition overlay_contains :: "MirrorOverlay \<Rightarrow> LogicalPk \<Rightarrow> bool" where
  "overlay_contains ov pk \<longleftrightarrow> pk \<in> masked_pks ov"

definition overlay_len :: "MirrorOverlay \<Rightarrow> nat" where
  "overlay_len ov = card (masked_pks ov)"

datatype TombstoneDecision = PhysicalDelete | KeepTombstone

definition tombstone_required :: "bool \<Rightarrow> TombstoneDecision" where
  "tombstone_required cold_may_contain_pk = (if cold_may_contain_pk then KeepTombstone else PhysicalDelete)"

subsection \<open>Feed\<close>

record ChangeCursor =
  since_seq :: int
  cursor_limit :: nat

record ChangeGap =
  oldest_available :: int

definition changes_since :: "MirrorChange list \<Rightarrow> ChangeCursor \<Rightarrow> SeqId option \<Rightarrow> ChangeGap + MirrorChange list" where
  "changes_since changes cursor oldest =
     (case oldest of
        Some old \<Rightarrow> if since_seq cursor > 0 \<and> since_seq cursor < old - 1 then Inl \<lparr>oldest_available = old\<rparr>
          else Inr (take (cursor_limit cursor)
                 (sort_key change_seq (filter (\<lambda>c. change_seq c > since_seq cursor) changes)))
      | None \<Rightarrow> Inr (take (cursor_limit cursor)
                 (sort_key change_seq (filter (\<lambda>c. change_seq c > since_seq cursor) changes))))"

definition changes_last :: "MirrorChange list \<Rightarrow> nat \<Rightarrow> MirrorChange list" where
  "changes_last changes limit =
     (if limit = 0 then []
      else let selected = sort_key change_seq changes
           in if length selected > limit then drop (length selected - limit) selected else selected)"

definition feed :: "MirrorChange list \<Rightarrow> int \<Rightarrow> MirrorChange list" where
  "feed changes since = sort_key change_seq (filter (\<lambda>c. change_seq c > since) changes)"

lemma filter_sorted_prefix:
  assumes "sorted_wrt (\<lambda>a b. change_seq a < change_seq b) (xs @ ys)" "xs \<noteq> []"
  shows "filter (\<lambda>c. change_seq c > change_seq (last xs)) (xs @ ys) = ys"
proof -
  have "change_seq x \<le> change_seq (last xs)" if "x \<in> set xs" for x
  proof -
    have "sorted_wrt (\<lambda>a b. change_seq a < change_seq b) (butlast xs @ [last xs])"
      using assms by (simp add: sorted_wrt_append)
    then show ?thesis
      using that append_butlast_last_id [OF assms(2)]
      by (metis (no_types, lifting) Un_iff less_imp_le list.set_intros(1) order_refl set_ConsD set_append
          sorted_wrt_append empty_iff list.set(1))
  qed
  moreover have "change_seq y > change_seq (last xs)" if "y \<in> set ys" for y
    using that assms by (auto simp: sorted_wrt_append)
  ultimately show ?thesis
    by (force simp: filter_id_conv filter_empty_conv)
qed

lemma sort_key_strict:
  assumes "distinct (map change_seq cs)"
  shows "sorted_wrt (\<lambda>a b. change_seq a < change_seq b) (sort_key change_seq cs)"
proof -
  have "distinct (map change_seq (sort_key change_seq cs))"
    using assms by (metis distinct_map mset_map mset_sort mset_eq_imp_distinct_iff)
  then have "sorted_wrt (<) (map change_seq (sort_key change_seq cs))"
    by (simp add: strict_sorted_iff)
  then show ?thesis
    by (simp add: sorted_wrt_map)
qed

lemma feed_resume:
  assumes "distinct (map change_seq changes)" "0 < n" "n \<le> length (feed changes since)"
  shows "feed changes (change_seq (feed changes since ! (n - 1))) = drop n (feed changes since)"
proof -
  let ?f = "feed changes since" and ?s = "change_seq (feed changes since ! (n - 1))"
  have nonempty: "take n ?f \<noteq> []"
    using assms(2,3) by auto
  then have last: "last (take n ?f) = ?f ! (n - 1)"
    using assms(2,3) last_conv_nth [OF nonempty] by (simp add: min_def)
  have "sorted_wrt (\<lambda>a b. change_seq a < change_seq b) ?f"
    unfolding feed_def using assms(1) by (intro sort_key_strict) (simp add: distinct_map_filter)
  then have "filter (\<lambda>c. change_seq c > ?s) ?f = drop n ?f"
    using filter_sorted_prefix [of "take n ?f" "drop n ?f"] last nonempty by simp
  moreover have "since < ?s"
    using assms(2,3) nth_mem [of "n - 1" ?f] by (simp add: feed_def)
  then have "feed changes ?s = filter (\<lambda>c. change_seq c > ?s) ?f"
    by (auto simp: feed_def filter_sort intro!: arg_cong [of _ _ "sort_key change_seq"] filter_cong)
  ultimately show ?thesis
    by simp
qed

text \<open>C21: reading the feed page by page, each page starting after the last sequence id of the previous
  one, neither skips nor repeats a change.\<close>

theorem change_feed_pages:
  assumes "distinct (map change_seq changes)"
    and "changes_since changes \<lparr>since_seq = since, cursor_limit = m\<rparr> oldest = Inr page" and "page \<noteq> []"
    and "changes_since changes \<lparr>since_seq = change_seq (last page), cursor_limit = n\<rparr> oldest = Inr page'"
  shows "page @ page' = take (length page + n) (feed changes since)"
proof -
  let ?f = "feed changes since"
  have page: "page = take m ?f" "page' = take n (feed changes (change_seq (last page)))"
    using assms(2,4) by (auto simp: changes_since_def feed_def split: option.splits if_splits)
  have len: "0 < length page" "length page \<le> length ?f" "page = take (length page) ?f"
    using assms(3) page(1) by (simp_all add: min_def)
  then have "last page = ?f ! (length page - 1)"
    using assms(3) by (metis diff_less last_conv_nth nth_take zero_less_one)
  then have "page' = take n (drop (length page) ?f)"
    using page(2) feed_resume [OF assms(1) len(1,2)] by simp
  then show ?thesis
    using len(3) by (metis take_add)
qed

definition sample_change :: "int \<Rightarrow> MirrorChange" where
  "sample_change q = \<lparr>change_table_oid = 1, change_scope_key = None, change_pk_json = JObject [], change_operation = Update,
     change_seq = q, change_deleted = False, change_row_image_json = None, change_source = HotMirror\<rparr>"

theorem change_feed_pages_witness:
  "[sample_change 4, sample_change 6] @ [sample_change 9] = take 3 (feed (map sample_change [9, 4, 6, 2]) 2)"
proof -
  have "changes_since (map sample_change [9, 4, 6, 2]) \<lparr>since_seq = 2, cursor_limit = 2\<rparr> (Some 2)
      = Inr [sample_change 4, sample_change 6]"
    "changes_since (map sample_change [9, 4, 6, 2]) \<lparr>since_seq = 6, cursor_limit = 1\<rparr> (Some 2) = Inr [sample_change 9]"
    by (simp_all add: sample_change_def changes_since_def)
  moreover have "distinct (map change_seq (map sample_change [9, 4, 6, 2]))" "change_seq (sample_change 6) = 6"
    by (simp_all add: sample_change_def)
  ultimately show ?thesis
    using change_feed_pages [of "map sample_change [9, 4, 6, 2]" 2 2 "Some 2" "[sample_change 4, sample_change 6]" 1 "[sample_change 9]"]
    by (simp add: numeral_3_eq_3)
qed

end
