(* ===== verification/Snowflake.thy ===== *)
theory Snowflake
  imports Prelude
begin

text \<open>
  Snowflake sequence ids (\<open>koldstore-common/src/domain/snowflake.rs\<close>).  The shared generator word holds a
  millisecond timestamp above a twelve-bit sequence and is advanced by compare-and-swap; an id puts ten
  worker bits between the two.  The wall clock is an argument: milliseconds since the KoldStore epoch, or
  the error reading it gave.
\<close>

unbundle bit_operations_syntax

subsection \<open>Constants and errors\<close>

definition KOLDSTORE_EPOCH_MILLIS :: u64 where "KOLDSTORE_EPOCH_MILLIS = 1704067200000"
definition TIMESTAMP_SHIFT :: nat where "TIMESTAMP_SHIFT = 22"
definition WORKER_ID_SHIFT :: nat where "WORKER_ID_SHIFT = 12"
definition MAX_WORKER_ID :: u16 where "MAX_WORKER_ID = 1023"
definition MAX_SEQUENCE :: u16 where "MAX_SEQUENCE = 4095"

lemmas snowflake_consts = KOLDSTORE_EPOCH_MILLIS_def TIMESTAMP_SHIFT_def WORKER_ID_SHIFT_def
  MAX_WORKER_ID_def MAX_SEQUENCE_def

datatype SnowflakeError = TimestampBeforeEpoch | ClockUnavailable | WorkerIdOutOfRange u16 | IdOverflow

subsection \<open>Cutoffs\<close>

definition checked_sub :: "u64 \<Rightarrow> u64 \<Rightarrow> u64 option" where
  "checked_sub a b = (if b \<le> a then Some (a - b) else None)"

definition i64_try_from :: "u64 \<Rightarrow> int option" where
  "i64_try_from w = (if int (unat w) \<le> i64_max then Some (int (unat w)) else None)"

definition u64_try_from :: "int \<Rightarrow> u64 option" where
  "u64_try_from i = (if i < 0 then None else Some (of_int i))"

definition minimum_id_at_unix_millis :: "int \<Rightarrow> int option" where
  "minimum_id_at_unix_millis unix_millis =
     (case u64_try_from unix_millis of None \<Rightarrow> None
      | Some ms \<Rightarrow> (case checked_sub ms KOLDSTORE_EPOCH_MILLIS of None \<Rightarrow> None
          | Some elapsed \<Rightarrow> i64_try_from (push_bit TIMESTAMP_SHIFT elapsed)))"

definition unix_millis_from_id :: "int \<Rightarrow> int option" where
  "unix_millis_from_id i =
     (case u64_try_from i of None \<Rightarrow> None
      | Some v \<Rightarrow> (let elapsed = drop_bit TIMESTAMP_SHIFT v in
          if unat KOLDSTORE_EPOCH_MILLIS + unat elapsed > u64_max then None
          else i64_try_from (KOLDSTORE_EPOCH_MILLIS + elapsed)))"

subsection \<open>Generator\<close>

definition pack_timestamp_and_sequence :: "u64 \<Rightarrow> u16 \<Rightarrow> u64" where
  "pack_timestamp_and_sequence timestamp sequence = push_bit 12 timestamp OR ucast sequence"

definition unpack_timestamp_and_sequence :: "u64 \<Rightarrow> u64 \<times> u16" where
  "unpack_timestamp_and_sequence value = (drop_bit 12 value, ucast (value AND ucast MAX_SEQUENCE))"

definition compose_id :: "u64 \<Rightarrow> u16 \<Rightarrow> u16 \<Rightarrow> SnowflakeError + int" where
  "compose_id timestamp worker_id sequence =
     ok_or IdOverflow (i64_try_from
       (push_bit TIMESTAMP_SHIFT timestamp OR push_bit WORKER_ID_SHIFT (ucast worker_id) OR ucast sequence))"

definition worker_id :: "int \<Rightarrow> u16" where
  "worker_id i = ucast (drop_bit WORKER_ID_SHIFT (of_int i :: u64) AND ucast MAX_WORKER_ID)"

text \<open>One turn of the compare-and-swap loop: the pair to store, given the clock and the observed word.\<close>

definition advance_clock :: "u64 \<Rightarrow> u64 \<Rightarrow> u64 \<times> u16" where
  "advance_clock now observed =
     (case unpack_timestamp_and_sequence observed of (last_timestamp, last_sequence) \<Rightarrow>
        if now > last_timestamp then (now, 0)
        else if last_sequence < MAX_SEQUENCE then (last_timestamp, last_sequence + 1)
        else (last_timestamp + 1, 0))"

text \<open>The loop without interference: the first swap succeeds.  Interleaved loops are the step relation
  below.\<close>

definition next_timestamp_and_sequence :: "SnowflakeError + u64 \<Rightarrow> u64 \<Rightarrow> u64 \<times> (SnowflakeError + u64 \<times> u16)" where
  "next_timestamp_and_sequence clock gen =
     (case clock of
        Inl e \<Rightarrow> (gen, Inl e)
      | Inr now \<Rightarrow> (case advance_clock now gen of
          (t, s) \<Rightarrow> (pack_timestamp_and_sequence t s, Inr (t, s))))"

definition next_id :: "SnowflakeError + u64 \<Rightarrow> u16 \<Rightarrow> u64 \<Rightarrow> u64 \<times> (SnowflakeError + int)" where
  "next_id clock w gen =
     (if w > MAX_WORKER_ID then (gen, Inl (WorkerIdOutOfRange w))
      else case next_timestamp_and_sequence clock gen of
          (gen, Inl e) \<Rightarrow> (gen, Inl e)
        | (gen, Inr (t, s)) \<Rightarrow> (gen, compose_id t w s))"

text \<open>The word to store when raising the generator, \<open>None\<close> when it is already past the target.\<close>

definition raise_clock :: "u64 \<Rightarrow> u64 \<Rightarrow> (SnowflakeError + u64) option" where
  "raise_clock timestamp observed =
     (case unpack_timestamp_and_sequence observed of (last_timestamp, last_sequence) \<Rightarrow>
        if last_timestamp > timestamp \<or> (last_timestamp = timestamp \<and> last_sequence = MAX_SEQUENCE) then None
        else if timestamp > last_timestamp then Some (Inr (pack_timestamp_and_sequence timestamp 0))
        else if last_sequence < MAX_SEQUENCE
          then Some (Inr (pack_timestamp_and_sequence last_timestamp (last_sequence + 1)))
        else if unat last_timestamp + 1 > u64_max then Some (Inl IdOverflow)
        else Some (Inr (pack_timestamp_and_sequence (last_timestamp + 1) 0)))"

definition advance_generator_to_timestamp :: "u64 \<Rightarrow> u64 \<Rightarrow> u64 \<times> (SnowflakeError + unit)" where
  "advance_generator_to_timestamp timestamp gen =
     (case raise_clock timestamp gen of
        None \<Rightarrow> (gen, Inr ())
      | Some (Inl e) \<Rightarrow> (gen, Inl e)
      | Some (Inr v) \<Rightarrow> (v, Inr ()))"

definition next_id_after :: "SnowflakeError + u64 \<Rightarrow> SnowflakeError + u64 \<Rightarrow> u16 \<Rightarrow> int \<Rightarrow> u64 \<Rightarrow> u64 \<times> (SnowflakeError + int)" where
  "next_id_after clock clock' w floor_id gen =
     (if w > MAX_WORKER_ID then (gen, Inl (WorkerIdOutOfRange w))
      else if floor_id = i64_max then (gen, Inl IdOverflow)
      else case next_id clock w gen of
          (gen, Inl e) \<Rightarrow> (gen, Inl e)
        | (gen, Inr candidate) \<Rightarrow>
            if candidate > floor_id then (gen, Inr candidate)
            else (let floor_u = (case u64_try_from floor_id of Some v \<Rightarrow> v | None \<Rightarrow> 0);
                      shifted = drop_bit TIMESTAMP_SHIFT floor_u in
              if unat shifted + 1 > u64_max then (gen, Inl IdOverflow)
              else case advance_generator_to_timestamp (shifted + 1) gen of
                  (gen, Inl e) \<Rightarrow> (gen, Inl e)
                | (gen, Inr _) \<Rightarrow> (case next_id clock' w gen of
                      (gen, Inl e) \<Rightarrow> (gen, Inl e)
                    | (gen, Inr raised) \<Rightarrow> (gen, if raised > floor_id then Inr raised else Inl IdOverflow))))"

subsection \<open>Words as numbers\<close>

lemma unat_push_bit:
  fixes x :: u64
  assumes "unat x * 2 ^ n < 2 ^ 64"
  shows "unat (push_bit n x) = unat x * 2 ^ n"
proof -
  have "unat (push_bit n x) = take_bit 64 (push_bit n (unat x))"
    by (simp only: unsigned_push_bit_eq) simp
  also have "\<dots> = take_bit 64 (unat x * 2 ^ n)"
    by (simp only: push_bit_eq_mult)
  also have "\<dots> = unat x * 2 ^ n"
    using assms by (simp add: take_bit_nat_eq_self)
  finally show ?thesis .
qed

lemma shift_or_add:
  fixes x b :: u64
  assumes "unat b < 2 ^ n"
  shows "push_bit n x OR b = push_bit n x + b"
proof -
  have "\<not> bit b k" if "n \<le> k" for k
  proof -
    have "take_bit n (unat b) = unat b"
      using assms by (simp add: take_bit_nat_eq_self)
    then have "\<not> bit (unat b) k"
      using that by (metis bit_take_bit_iff not_le)
    then show ?thesis
      by (simp add: bit_unsigned_iff)
  qed
  then show ?thesis
    by (subst disjunctive_add) (auto simp: bit_simps not_le)
qed

lemma unat_shift_or:
  fixes x b :: u64
  assumes "unat b < 2 ^ n" "unat x * 2 ^ n + unat b < 2 ^ 64"
  shows "unat (push_bit n x OR b) = unat x * 2 ^ n + unat b"
proof -
  have "unat (push_bit n x) = unat x * 2 ^ n"
    using assms(2) by (intro unat_push_bit) simp
  then show ?thesis
    using assms by (simp add: shift_or_add unat_word_ariths)
qed

lemma unat_ucast_16_64 [simp]: "unat (ucast (s :: u16) :: u64) = unat s"
proof -
  have "unat s < 2 ^ 64"
    by (rule order_less_le_trans [OF unsigned_less]) simp
  then show ?thesis
    by (simp add: unsigned_ucast_eq take_bit_nat_eq_self)
qed

lemma unat_pack:
  assumes "unat t < 2 ^ 52" "unat s < 4096"
  shows "unat (pack_timestamp_and_sequence t s) = unat t * 4096 + unat s"
  using unat_shift_or [of "ucast s" 12 t] assms by (simp add: pack_timestamp_and_sequence_def)

lemma unpack_nat:
  "unat (fst (unpack_timestamp_and_sequence v)) = unat v div 4096"
  "unat (snd (unpack_timestamp_and_sequence v)) = unat v mod 4096"
proof -
  show "unat (fst (unpack_timestamp_and_sequence v)) = unat v div 4096"
  proof -
    have "unat (drop_bit 12 v) = drop_bit 12 (take_bit 64 (unat v))"
      by (simp only: unsigned_drop_bit_eq) simp
    moreover have "unat v < 2 ^ 64"
      by (rule order_less_le_trans [OF unsigned_less]) simp
    ultimately show ?thesis
      by (simp add: unpack_timestamp_and_sequence_def take_bit_nat_eq_self drop_bit_eq_div)
  qed
  have "v AND 4095 = take_bit 12 v"
    by (simp add: take_bit_eq_mask mask_eq_exp_minus_1 and.commute)
  then have "unat (v AND 4095) = unat v mod 4096"
    by (simp add: take_bit_eq_mod unat_mod_distrib)
  then show "unat (snd (unpack_timestamp_and_sequence v)) = unat v mod 4096"
    by (simp add: unpack_timestamp_and_sequence_def MAX_SEQUENCE_def unsigned_ucast_eq take_bit_eq_mod mod_mod_cancel)
qed

definition packed :: "u64 \<times> u16 \<Rightarrow> u64" where
  "packed p = pack_timestamp_and_sequence (fst p) (snd p)"

lemma advance_clock_nat:
  assumes "unat now < 2 ^ 52" "unat v div 4096 + 1 < 2 ^ 52"
  shows "unat (packed (advance_clock now v)) = (if unat v div 4096 < unat now then unat now * 4096 else unat v + 1)"
    and "unat (fst (advance_clock now v)) = unat (packed (advance_clock now v)) div 4096"
    and "unat (snd (advance_clock now v)) = unat (packed (advance_clock now v)) mod 4096"
proof -
  obtain t s where ts: "unpack_timestamp_and_sequence v = (t, s)"
    by fastforce
  have t: "unat t = unat v div 4096" and s: "unat s = unat v mod 4096"
    using unpack_nat [of v] ts by simp_all
  have v: "unat v = unat t * 4096 + unat s" "unat s < 4096"
    using t s by simp_all
  consider "unat t < unat now" "advance_clock now v = (now, 0)"
    | "\<not> unat t < unat now" "unat s < 4095" "advance_clock now v = (t, s + 1)"
    | "\<not> unat t < unat now" "unat s = 4095" "advance_clock now v = (t + 1, 0)"
    using v(2) by (cases "unat t < unat now"; cases "unat s = 4095")
      (auto simp: advance_clock_def ts MAX_SEQUENCE_def word_less_nat_alt)
  then have "unat (packed (advance_clock now v)) = (if unat v div 4096 < unat now then unat now * 4096 else unat v + 1)
      \<and> unat (fst (advance_clock now v)) = unat (packed (advance_clock now v)) div 4096
      \<and> unat (snd (advance_clock now v)) = unat (packed (advance_clock now v)) mod 4096"
  proof cases
    case 1
    then show ?thesis
      using assms(1) t by (simp add: packed_def unat_pack)
  next
    case 2
    then have "unat (s + 1) = unat s + 1"
      by (simp add: unat_word_ariths)
    then show ?thesis
      using 2 assms(2) v(2) by (simp add: packed_def unat_pack v(1))
  next
    case 3
    then have "unat (t + 1) = unat t + 1"
      using assms(2) v(2) by (simp add: unat_word_ariths v(1))
    then show ?thesis
      using 3 assms(2) by (simp add: packed_def unat_pack v(1))
  qed
  then show "unat (packed (advance_clock now v)) = (if unat v div 4096 < unat now then unat now * 4096 else unat v + 1)"
    and "unat (fst (advance_clock now v)) = unat (packed (advance_clock now v)) div 4096"
    and "unat (snd (advance_clock now v)) = unat (packed (advance_clock now v)) mod 4096"
    by blast+
qed

lemma i64_try_from_nat: "unat w = n \<Longrightarrow> i64_try_from w = (if n < 2 ^ 63 then Some (int n) else None)"
  unfolding i64_try_from_def i64_max_def by (simp only:) auto

definition id_of :: "nat \<Rightarrow> nat \<Rightarrow> nat \<Rightarrow> nat" where
  "id_of t w s = t * 2 ^ 22 + w * 2 ^ 12 + s"

lemma compose_id_nat:
  assumes "unat t < 2 ^ 42" "unat w < 1024" "unat s < 4096"
  shows "compose_id t w s = (if unat t < 2 ^ 41 then Inr (int (id_of (unat t) (unat w) (unat s))) else Inl IdOverflow)"
proof -
  have lo: "unat (push_bit 12 (ucast w) OR ucast s :: u64) = unat w * 2 ^ 12 + unat s"
    using unat_shift_or [of "ucast s" 12 "ucast w"] assms by simp
  have "unat (push_bit 22 t OR (push_bit 12 (ucast w) OR ucast s)) = id_of (unat t) (unat w) (unat s)"
    using unat_shift_or [of "push_bit 12 (ucast w) OR ucast s" 22 t] lo assms by (simp add: id_of_def)
  then have "i64_try_from (push_bit 22 t OR (push_bit 12 (ucast w) OR ucast s))
      = (if id_of (unat t) (unat w) (unat s) < 2 ^ 63 then Some (int (id_of (unat t) (unat w) (unat s))) else None)"
    by (rule i64_try_from_nat)
  moreover have "id_of (unat t) (unat w) (unat s) < 2 ^ 63 \<longleftrightarrow> unat t < 2 ^ 41"
    using assms unfolding id_of_def by auto
  ultimately show ?thesis
    by (auto simp: compose_id_def snowflake_consts ok_or_def or.assoc)
qed

subsection \<open>Interleaved allocation\<close>

text \<open>Any number of threads run the allocation loop and the raising loop on one word.  A thread has loaded
  the word or not; its swap succeeds only if the word is still the one it loaded.  \<open>issued\<close> records the
  allocated pairs, newest first, and \<open>late\<close> that a timestamp reached the 42 bits an id has room for.\<close>

datatype pc = Idle | Allocating u64 u64 | Raising u64 u64

record gen_state =
  gen_word :: u64
  threads :: "nat \<Rightarrow> pc"
  issued :: "(u64 \<times> u16) list"
  late :: bool

definition in_time :: "u64 \<Rightarrow> u64 \<Rightarrow> bool" where
  "in_time t v \<longleftrightarrow> unat t < 2 ^ 42 \<and> unat v div 4096 + 1 < 2 ^ 42"

inductive gen_step :: "gen_state \<Rightarrow> gen_state \<Rightarrow> bool" where
  load: "threads s i = Idle \<Longrightarrow> gen_step s (s\<lparr>threads := (threads s)(i := Allocating now (gen_word s))\<rparr>)"
| swap: "\<lbrakk>threads s i = Allocating now v; gen_word s = v\<rbrakk> \<Longrightarrow>
    gen_step s (s\<lparr>gen_word := packed (advance_clock now v), threads := (threads s)(i := Idle),
      issued := advance_clock now v # issued s, late := late s \<or> \<not> in_time now v\<rparr>)"
| retry: "\<lbrakk>threads s i = Allocating now v; gen_word s \<noteq> v\<rbrakk> \<Longrightarrow> gen_step s (s\<lparr>threads := (threads s)(i := Idle)\<rparr>)"
| raise_load: "threads s i = Idle \<Longrightarrow> gen_step s (s\<lparr>threads := (threads s)(i := Raising target (gen_word s))\<rparr>)"
| raise_swap: "\<lbrakk>threads s i = Raising target v; gen_word s = v; raise_clock target v = Some (Inr u)\<rbrakk> \<Longrightarrow>
    gen_step s (s\<lparr>gen_word := u, threads := (threads s)(i := Idle), late := late s \<or> \<not> in_time target v\<rparr>)"
| raise_retry: "\<lbrakk>threads s i = Raising target v; gen_word s \<noteq> v\<rbrakk> \<Longrightarrow> gen_step s (s\<lparr>threads := (threads s)(i := Idle)\<rparr>)"
| raise_done: "\<lbrakk>threads s i = Raising target v; raise_clock target v = None \<or> raise_clock target v = Some (Inl e)\<rbrakk> \<Longrightarrow>
    gen_step s (s\<lparr>threads := (threads s)(i := Idle)\<rparr>)"

definition gen_init :: "gen_state" where
  "gen_init = \<lparr>gen_word = 0, threads = (\<lambda>_. Idle), issued = [], late = False\<rparr>"

lemma advance_clock_increases:
  assumes "in_time now v"
  shows "unat v < unat (packed (advance_clock now v))"
proof (cases "unat v div 4096 < unat now")
  case True
  then have "unat v < unat now * 4096"
    by linarith
  then show ?thesis
    using True assms advance_clock_nat(1) [of now v] by (simp add: in_time_def)
qed (use assms advance_clock_nat(1) [of now v] in \<open>simp add: in_time_def\<close>)

lemma raise_clock_increases:
  assumes "in_time target v" "raise_clock target v = Some (Inr u)"
  shows "unat v < unat u" "unat target \<le> unat u div 4096" "unat u div 4096 \<le> max (unat target) (unat v div 4096 + 1)"
proof -
  obtain t s where ts: "unpack_timestamp_and_sequence v = (t, s)"
    by fastforce
  have t: "unat v div 4096 = unat t" and s: "unat s < 4096"
    using unpack_nat [of v] ts by simp_all
  have v: "unat v = unat t * 4096 + unat s"
    using unpack_nat [of v] ts by simp
  consider "unat t < unat target" "u = pack_timestamp_and_sequence target 0"
    | "unat t = unat target" "unat s < 4095" "u = pack_timestamp_and_sequence t (s + 1)"
    using assms(2) s by (cases "unat t < unat target"; cases "unat t = unat target")
      (auto simp: raise_clock_def ts MAX_SEQUENCE_def word_less_nat_alt word_unat_eq_iff split: if_splits)
  then have "unat v < unat u \<and> unat target \<le> unat u div 4096 \<and> unat u div 4096 \<le> max (unat target) (unat v div 4096 + 1)"
  proof cases
    case 1
    then have "unat u = unat target * 4096"
      using assms(1) by (simp add: unat_pack in_time_def)
    then show ?thesis
      using 1 v s by simp
  next
    case 2
    then have "unat (s + 1) = unat s + 1"
      by (simp add: unat_word_ariths)
    then have "unat u = unat t * 4096 + unat s + 1"
      using 2 assms(1) t by (simp add: unat_pack in_time_def)
    moreover have "(unat t * 4096 + unat s + 1) div 4096 = unat t"
      using 2(2) by linarith
    ultimately show ?thesis
      using 2 v s by simp
  qed
  then show "unat v < unat u" "unat target \<le> unat u div 4096" "unat u div 4096 \<le> max (unat target) (unat v div 4096 + 1)"
    by blast+
qed

definition gen_inv :: "gen_state \<Rightarrow> bool" where
  "gen_inv s \<longleftrightarrow> late s \<or>
     (sorted_wrt (\<lambda>a b. unat (packed b) < unat (packed a)) (issued s)
      \<and> (\<forall>a\<in>set (issued s). unat (packed a) \<le> unat (gen_word s) \<and> unat (fst a) < 2 ^ 42 \<and> unat (snd a) < 4096
           \<and> unat (packed a) = unat (fst a) * 4096 + unat (snd a)))"

lemma gen_inv_swap:
  assumes "gen_inv s" "gen_word s = v" "in_time now v"
  shows "gen_inv (s\<lparr>gen_word := packed (advance_clock now v), threads := th,
     issued := advance_clock now v # issued s, late := late s\<rparr>)"
proof -
  let ?a = "advance_clock now v"
  note a = advance_clock_nat [of now v] advance_clock_increases [OF assms(3)]
  have bounds: "unat now < 2 ^ 52" "unat v div 4096 + 1 < 2 ^ 52"
    using assms(3) by (auto simp: in_time_def)
  have "unat (packed ?a) div 4096 \<le> max (unat now) (unat v div 4096 + 1)"
    using a(1) [OF bounds] by auto
  then have "unat (fst ?a) < 2 ^ 42" "unat (snd ?a) < 4096"
    "unat (packed ?a) = unat (fst ?a) * 4096 + unat (snd ?a)"
    using a(2,3) [OF bounds] assms(3) by (auto simp: in_time_def)
  then show ?thesis
    using assms(1,2) a(4) by (fastforce simp: gen_inv_def)
qed

lemma gen_step_inv: "gen_step s s' \<Longrightarrow> gen_inv s \<Longrightarrow> gen_inv s'"
proof (induction rule: gen_step.induct)
  case (swap s i now v)
  then show ?case
    using gen_inv_swap [of s v now "(threads s)(i := Idle)"]
    by (cases "in_time now v") (auto simp: gen_inv_def)
next
  case (raise_swap s i target v u)
  then show ?case
    using raise_clock_increases(1) [of target v u] by (fastforce simp: gen_inv_def)
qed (auto simp: gen_inv_def)

lemma gen_reach_inv: "gen_step\<^sup>*\<^sup>* gen_init s \<Longrightarrow> gen_inv s"
proof (induction rule: rtranclp_induct)
  case base
  then show ?case
    by (simp add: gen_init_def gen_inv_def)
qed (rule gen_step_inv)

lemma id_of_mono:
  assumes "t' * 4096 + s' < t * 4096 + s" "s < 4096" "s' < 4096"
  shows "id_of t' w s' < id_of t w s"
proof -
  have "t' < t \<or> (t' = t \<and> s' < s)"
    using assms by linarith
  then show ?thesis
    using assms by (auto simp: id_of_def)
qed

lemma digit_split:
  fixes a b k :: nat
  assumes "a * k + s = b * k + s'" "s < k" "s' < k"
  shows "a = b \<and> s = s'"
proof -
  have "(a * k + s) div k = a" "(b * k + s') div k = b"
    using assms(2,3) by simp_all
  then show ?thesis
    using assms(1) by auto
qed

lemma id_of_inj:
  assumes "id_of t w s = id_of t' w' s'" "w < 1024" "w' < 1024" "s < 4096" "s' < 4096"
  shows "t = t' \<and> w = w' \<and> s = s'"
proof -
  have "(t * 1024 + w) * 4096 + s = (t' * 1024 + w') * 4096 + s'"
    using assms(1) by (simp add: id_of_def)
  then have "t * 1024 + w = t' * 1024 + w' \<and> s = s'"
    using assms(4,5) by (rule digit_split)
  then show ?thesis
    using digit_split [of t 1024 w t' w'] assms(2,3) by simp
qed

text \<open>C22: whatever the interleaving of allocating and raising threads, and for timestamps that fit the
  42 bits of an id, two allocations never yield the same id, on one worker or on two, and on one worker
  the later allocation yields the larger id.\<close>

theorem snowflake_ids_unique_and_increasing:
  assumes "gen_step\<^sup>*\<^sup>* gen_init s" and "\<not> late s" and "i < j" and "j < length (issued s)"
    and "unat w < 1024" and "unat w' < 1024"
    and "compose_id (fst (issued s ! i)) w (snd (issued s ! i)) = Inr newer"
    and "compose_id (fst (issued s ! j)) w' (snd (issued s ! j)) = Inr older"
  shows "newer \<noteq> older \<and> (w = w' \<longrightarrow> older < newer)"
proof -
  obtain t q t' q' where a: "issued s ! i = (t, q)" and b: "issued s ! j = (t', q')"
    by (meson surj_pair)
  have inv: "sorted_wrt (\<lambda>a b. unat (packed b) < unat (packed a)) (issued s)"
    "\<And>a. a \<in> set (issued s) \<Longrightarrow> unat (fst a) < 2 ^ 42 \<and> unat (snd a) < 4096
       \<and> unat (packed a) = unat (fst a) * 4096 + unat (snd a)"
    using gen_reach_inv [OF assms(1)] assms(2) by (auto simp: gen_inv_def)
  have "(t, q) \<in> set (issued s)" "(t', q') \<in> set (issued s)"
    using assms(3,4) a b by (metis nth_mem order.strict_trans)+
  then have ranges: "unat t < 2 ^ 42" "unat q < 4096" "unat t' < 2 ^ 42" "unat q' < 4096"
    and packed: "unat (packed (t, q)) = unat t * 4096 + unat q" "unat (packed (t', q')) = unat t' * 4096 + unat q'"
    using inv(2) by fastforce+
  have less: "unat t' * 4096 + unat q' < unat t * 4096 + unat q"
    using sorted_wrt_nth_less [OF inv(1) assms(3,4)] packed a b by simp
  have ids: "newer = int (id_of (unat t) (unat w) (unat q))" "older = int (id_of (unat t') (unat w') (unat q'))"
    using assms(5-8) a b ranges compose_id_nat [of t w q] compose_id_nat [of t' w' q'] by (auto split: if_splits)
  show ?thesis
    using ids less ranges assms(5,6) id_of_mono [OF less ranges(2,4), of "unat w"]
      id_of_inj [of "unat t" "unat w" "unat q" "unat t'" "unat w'" "unat q'"] by auto
qed

definition allocated :: "u64 \<Rightarrow> gen_state \<Rightarrow> gen_state" where
  "allocated now s = s\<lparr>gen_word := packed (advance_clock now (gen_word s)),
     issued := advance_clock now (gen_word s) # issued s, late := late s \<or> \<not> in_time now (gen_word s)\<rparr>"

lemma allocate_reach:
  assumes "threads s i = Idle"
  shows "gen_step\<^sup>*\<^sup>* s (allocated now s)"
proof -
  let ?s = "s\<lparr>threads := (threads s)(i := Allocating now (gen_word s))\<rparr>"
  have "gen_step s ?s"
    using assms by (rule gen_step.load)
  moreover have "gen_step ?s (allocated now s)"
    using gen_step.swap [of ?s i now "gen_word s"] assms fun_upd_idem [of "threads s" i Idle]
    by (cases s) (simp add: allocated_def)
  ultimately show ?thesis
    by simp
qed

definition sample_gen :: gen_state where
  "sample_gen = allocated 5 (allocated 5 gen_init)"

lemma sample_gen_eq:
  "gen_step\<^sup>*\<^sup>* gen_init sample_gen" "issued sample_gen = [(5, 1), (5, 0)]" "\<not> late sample_gen"
proof -
  have "gen_step\<^sup>*\<^sup>* gen_init (allocated 5 gen_init)"
    by (rule allocate_reach [of _ 0]) (simp add: gen_init_def)
  moreover have "gen_step\<^sup>*\<^sup>* (allocated 5 gen_init) sample_gen"
    unfolding sample_gen_def by (rule allocate_reach [of _ 1]) (simp add: gen_init_def allocated_def)
  ultimately show "gen_step\<^sup>*\<^sup>* gen_init sample_gen"
    by (rule rtranclp_trans)
  show "issued sample_gen = [(5, 1), (5, 0)]" "\<not> late sample_gen"
    by (simp_all add: sample_gen_def allocated_def gen_init_def advance_clock_def packed_def in_time_def
        pack_timestamp_and_sequence_def unpack_timestamp_and_sequence_def MAX_SEQUENCE_def)
qed

theorem snowflake_ids_unique_and_increasing_witness:
  "(20979713 :: int) \<noteq> 20979712 \<and> (20979712 :: int) < 20979713 \<and> compose_id 5 2 1 = Inr 20979713"
proof -
  have "compose_id 5 2 1 = Inr 20979713" "compose_id 5 2 0 = Inr 20979712"
    by (simp_all add: compose_id_nat id_of_def)
  then show ?thesis
    using snowflake_ids_unique_and_increasing [of sample_gen 0 1 2 2 20979713 20979712] sample_gen_eq by simp
qed

subsection \<open>Ids above a floor\<close>

lemma next_id_nat:
  assumes "unat now < 2 ^ 41" "unat v div 4096 + 1 < 2 ^ 41" "unat w < 1024"
  shows "\<exists>t s v'. next_id (Inr now) w v = (v', Inr (int (id_of t (unat w) s)))
    \<and> s < 4096 \<and> t = unat v' div 4096 \<and> unat v div 4096 \<le> t \<and> t \<le> max (unat now) (unat v div 4096 + 1)"
proof -
  obtain t s where ts: "advance_clock now v = (t, s)"
    by fastforce
  have bounds: "unat now < 2 ^ 52" "unat v div 4096 + 1 < 2 ^ 52"
    using assms by auto
  note a = advance_clock_nat [OF bounds]
  let ?p = "packed (t, s)"
  have p: "unat ?p = (if unat v div 4096 < unat now then unat now * 4096 else unat v + 1)"
    "unat t = unat ?p div 4096" "unat s < 4096"
    using a ts by simp_all
  then have t: "unat v div 4096 \<le> unat t" "unat t \<le> max (unat now) (unat v div 4096 + 1)"
    by (auto simp: max_def)
  have "compose_id t w s = Inr (int (id_of (unat t) (unat w) (unat s)))"
    using compose_id_nat [of t w s] t(2) p(3) assms by auto
  moreover have "\<not> MAX_WORKER_ID < w"
    using assms(3) by (simp add: MAX_WORKER_ID_def word_less_nat_alt)
  ultimately have "next_id (Inr now) w v = (?p, Inr (int (id_of (unat t) (unat w) (unat s))))"
    by (simp add: next_id_def next_timestamp_and_sequence_def ts packed_def)
  then show ?thesis
    using p t by auto
qed

lemma unat_of_int_nat: "n < 2 ^ 64 \<Longrightarrow> unat (of_int (int n) :: u64) = n"
  by (simp add: unsigned_of_nat take_bit_nat_eq_self)

lemma worker_id_of:
  assumes "t < 2 ^ 41" "w < 1024" "s < 4096"
  shows "unat (worker_id (int (id_of t w s))) = w"
proof -
  have "id_of t w s < 2 ^ 64"
    using assms by (auto simp: id_of_def)
  then have n: "unat (of_int (int (id_of t w s)) :: u64) = id_of t w s"
    by (rule unat_of_int_nat)
  have "unat (drop_bit 12 (of_int (int (id_of t w s)) :: u64)) = id_of t w s div 4096"
    using unpack_nat(1) [of "of_int (int (id_of t w s))"] n by (simp add: unpack_timestamp_and_sequence_def)
  also have "id_of t w s div 4096 = t * 1024 + w"
    using assms(3) by (simp add: id_of_def)
  finally have d: "unat (drop_bit 12 (of_int (int (id_of t w s)) :: u64)) = t * 1024 + w" .
  have "unat (x AND 1023) = unat x mod 1024" for x :: u64
  proof -
    have "x AND 1023 = take_bit 10 x"
      by (simp add: take_bit_eq_mask mask_eq_exp_minus_1 and.commute)
    then show ?thesis
      by (simp add: take_bit_eq_mod unat_mod_distrib)
  qed
  then have "unat (drop_bit 12 (of_int (int (id_of t w s)) :: u64) AND 1023) = w"
    using d assms(2) by simp
  then show ?thesis
    using assms(2) by (simp add: worker_id_def snowflake_consts unsigned_ucast_eq take_bit_eq_mod)
qed

lemma advance_generator_nat:
  assumes "in_time target v"
  shows "\<exists>v'. advance_generator_to_timestamp target v = (v', Inr ())
    \<and> unat target \<le> unat v' div 4096 \<and> unat v' div 4096 \<le> max (unat target) (unat v div 4096 + 1)"
proof -
  obtain t s where ts: "unpack_timestamp_and_sequence v = (t, s)"
    by fastforce
  have t: "unat t = unat v div 4096"
    using unpack_nat [of v] ts by simp
  consider "raise_clock target v = None" | u where "raise_clock target v = Some (Inr u)"
    using assms t by (cases "raise_clock target v")
      (auto simp: raise_clock_def ts in_time_def u64_max_def split: if_splits)
  then show ?thesis
  proof cases
    case 1
    then have "unat target \<le> unat t"
      by (auto simp: raise_clock_def ts word_less_nat_alt split: if_splits)
    then show ?thesis
      using 1 t by (simp add: advance_generator_to_timestamp_def)
  next
    case 2
    then show ?thesis
      using raise_clock_increases [OF assms 2] by (simp add: advance_generator_to_timestamp_def)
  qed
qed

text \<open>C23: as long as the clock, the generator and the floor leave room below the largest timestamp, an id
  is always returned, it is strictly above the floor and carries the worker id.\<close>

theorem next_id_after_above_floor:
  assumes "unat now < 2 ^ 41 - 4" and "unat now' < 2 ^ 41 - 4" and "unat v div 4096 < 2 ^ 41 - 5"
    and "unat w < 1024" and "floor_id < (2 ^ 41 - 5) * 2 ^ 22"
  shows "\<exists>v' i. next_id_after (Inr now) (Inr now') w floor_id v = (v', Inr i) \<and> floor_id < i \<and> worker_id i = w"
proof -
  have w: "\<not> MAX_WORKER_ID < w"
    using assms(4) by (simp add: MAX_WORKER_ID_def word_less_nat_alt)
  have fl: "floor_id \<noteq> i64_max"
    using assms(5) by (auto simp: int_ranges)
  have wid: "worker_id (int (id_of t (unat w) s)) = w" if "t < 2 ^ 41" "s < 4096" for t s
    using worker_id_of [OF that(1) assms(4) that(2)] by (simp add: word_unat_eq_iff)
  obtain t s v1 where 1: "next_id (Inr now) w v = (v1, Inr (int (id_of t (unat w) s)))"
    "s < 4096" "t = unat v1 div 4096" "t \<le> max (unat now) (unat v div 4096 + 1)"
    using next_id_nat [of now v w] assms by auto
  show ?thesis
  proof (cases "floor_id < int (id_of t (unat w) s)")
    case True
    then show ?thesis
      using 1 w fl wid [of t s] assms(1,3) by (auto simp: next_id_after_def)
  next
    case False
    then have pos: "0 \<le> floor_id"
      by linarith
    let ?f = "nat floor_id div 2 ^ 22"
    have f: "?f < 2 ^ 41 - 5" "floor_id < int ((?f + 1) * 2 ^ 22)"
      using assms(5) pos by (auto simp: nat_less_iff less_mult_imp_div_less)
    have "nat floor_id < 2 ^ 64"
      using assms(5) pos by (simp add: nat_less_iff)
    then have "unat (of_int floor_id :: u64) = nat floor_id"
      using unat_of_int_nat [of "nat floor_id"] pos by simp
    then have shift: "unat (drop_bit 22 (of_int floor_id :: u64)) = ?f"
      by (simp add: drop_bit_eq_div unat_div_distrib)
    then have m: "unat (drop_bit 22 (of_int floor_id :: u64) + 1) = ?f + 1"
      using f(1) by (simp add: unat_word_ariths)
    have t1: "unat v1 div 4096 < 2 ^ 41 - 4"
      using 1(3,4) assms(1,3) by linarith
    then have "in_time (drop_bit 22 (of_int floor_id) + 1) v1"
      using m f(1) by (simp add: in_time_def)
    then obtain v2 where 2: "advance_generator_to_timestamp (drop_bit 22 (of_int floor_id) + 1) v1 = (v2, Inr ())"
      "?f + 1 \<le> unat v2 div 4096" "unat v2 div 4096 \<le> max (?f + 1) (unat v1 div 4096 + 1)"
      using advance_generator_nat [of "drop_bit 22 (of_int floor_id) + 1" v1] m by auto
    have t2: "unat v2 div 4096 < 2 ^ 41 - 3"
      using 2(3) t1 f(1) by linarith
    obtain t' s' v3 where 3: "next_id (Inr now') w v2 = (v3, Inr (int (id_of t' (unat w) s')))"
      "s' < 4096" "unat v2 div 4096 \<le> t'" "t' \<le> max (unat now') (unat v2 div 4096 + 1)"
      using next_id_nat [of now' v2 w] t2 assms(2,4) by auto
    have t3: "t' < 2 ^ 41"
      using 3(4) t2 assms(2) by linarith
    have "int ((?f + 1) * 2 ^ 22) \<le> int (id_of t' (unat w) s')"
      using 2(2) 3(3) unfolding of_nat_le_iff id_of_def
      by (meson le_add1 le_trans mult_le_mono1 trans_le_add1)
    then have above: "floor_id < int (id_of t' (unat w) s')"
      using f(2) by linarith
    show ?thesis
      using 1(1) 2(1) 3(1) False w fl pos shift f(1) above wid [OF t3 3(2)]
      by (simp add: next_id_after_def u64_try_from_def TIMESTAMP_SHIFT_def u64_max_def Let_def)
  qed
qed

theorem next_id_after_above_floor_witness:
  "\<exists>v' i. next_id_after (Inr 7) (Inr 7) 9 1125899906842666 0 = (v', Inr i) \<and> 1125899906842666 < i \<and> worker_id i = 9"
  by (rule next_id_after_above_floor) simp_all

subsection \<open>Cutoffs and clock readings\<close>

text \<open>C24: for every millisecond an id has room for, the cutoff of that millisecond separates the ids made
  before it from those made in it or later, and the millisecond can be read back from an id.  A cutoff
  \<open>2\<^sup>42\<close> milliseconds after the epoch loses its high bits in the shift and becomes 0.\<close>

theorem snowflake_cutoff:
  assumes "e < 2 ^ 41" and "t < 2 ^ 41" and "w < 1024" and "s < 4096"
  shows "minimum_id_at_unix_millis (1704067200000 + int e) = Some (int e * 2 ^ 22)
    \<and> (int (id_of t w s) < int e * 2 ^ 22 \<longleftrightarrow> t < e)
    \<and> unix_millis_from_id (int (id_of t w s)) = Some (1704067200000 + int t)
    \<and> minimum_id_at_unix_millis (1704067200000 + 2 ^ 42) = Some 0"
proof -
  have cut: "minimum_id_at_unix_millis (1704067200000 + int n) = i64_try_from (push_bit 22 (of_nat n))"
    if "n \<le> 2 ^ 42" for n
  proof -
    have u: "unat (of_int (1704067200000 + int n) :: u64) = 1704067200000 + n"
      using unat_of_int_nat [of "1704067200000 + n"] that by simp
    then have "KOLDSTORE_EPOCH_MILLIS \<le> (of_int (1704067200000 + int n) :: u64)"
      by (simp add: KOLDSTORE_EPOCH_MILLIS_def word_le_nat_alt)
    moreover have "(of_int (1704067200000 + int n) :: u64) - KOLDSTORE_EPOCH_MILLIS = of_nat n"
      by (simp add: KOLDSTORE_EPOCH_MILLIS_def)
    ultimately show ?thesis
      by (simp add: minimum_id_at_unix_millis_def u64_try_from_def checked_sub_def snowflake_consts(2))
  qed
  have "unat (of_nat e :: u64) = e"
    using unat_of_int_nat [of e] assms(1) by simp
  then have "unat (push_bit 22 (of_nat e :: u64)) = e * 2 ^ 22"
    using unat_push_bit [of "of_nat e" 22] assms(1) by simp
  then have "i64_try_from (push_bit 22 (of_nat e)) = Some (int e * 2 ^ 22)"
    using i64_try_from_nat [of "push_bit 22 (of_nat e)" "e * 2 ^ 22"] assms(1) by simp
  then have 1: "minimum_id_at_unix_millis (1704067200000 + int e) = Some (int e * 2 ^ 22)"
    using cut [of e] assms(1) by simp
  have "id_of t w s div 2 ^ 22 = t"
    using assms(3,4) by (simp add: id_of_def)
  then have "id_of t w s < e * 2 ^ 22 \<longleftrightarrow> t < e"
    using div_less_iff_less_mult [of "2 ^ 22" "id_of t w s" e] by simp
  then have "int (id_of t w s) < int (e * 2 ^ 22) \<longleftrightarrow> t < e"
    by (simp only: of_nat_less_iff)
  then have 2: "int (id_of t w s) < int e * 2 ^ 22 \<longleftrightarrow> t < e"
    by (simp only: of_nat_mult of_nat_power of_nat_numeral)
  have "unat (of_int (int (id_of t w s)) :: u64) = id_of t w s"
    using assms by (intro unat_of_int_nat) (auto simp: id_of_def)
  then have el: "unat (drop_bit 22 (of_int (int (id_of t w s)) :: u64)) = t"
    using assms(3,4) by (simp add: drop_bit_eq_div unat_div_distrib id_of_def)
  then have "unat (KOLDSTORE_EPOCH_MILLIS + drop_bit 22 (of_int (int (id_of t w s)))) = 1704067200000 + t"
    using assms(2) by (simp add: KOLDSTORE_EPOCH_MILLIS_def unat_word_ariths)
  then have 3: "unix_millis_from_id (int (id_of t w s)) = Some (1704067200000 + int t)"
    using el assms(2) i64_try_from_nat [of "KOLDSTORE_EPOCH_MILLIS + drop_bit 22 (of_int (int (id_of t w s)))" "1704067200000 + t"]
    by (simp add: unix_millis_from_id_def u64_try_from_def snowflake_consts(2) u64_max_def KOLDSTORE_EPOCH_MILLIS_def)
  have "push_bit 22 (of_nat (2 ^ 42) :: u64) = 0"
    by simp
  then have "minimum_id_at_unix_millis (1704067200000 + 2 ^ 42) = Some 0"
    using cut [of "2 ^ 42"] by (simp add: i64_try_from_def int_ranges)
  then show ?thesis
    using 1 2 3 by blast
qed

theorem snowflake_cutoff_witness:
  "minimum_id_at_unix_millis 1704067200042 = Some 176160768 \<and> unix_millis_from_id (int (id_of 41 1023 4095)) = Some 1704067200041"
  using snowflake_cutoff [of 42 41 1023 4095] by simp

end
