(* ===== verification/Pg_Output.thy ===== *)
theory Pg_Output
  imports Prelude
begin

text \<open>
  The decoder of PostgreSQL's logical replication messages
  (\<open>koldstore-wal-mirror/src/mirror/async/pgoutput.rs\<close>).  A reader is the input with an offset; every
  operation takes a reader and gives an error or a value with the advanced reader, so a decoder is a
  sequence of \<open>rd_bind\<close>s in the order of the source.  The wire format is given as a grammar, independently
  of the decoder, and the properties relate the two.
\<close>

subsection \<open>Messages\<close>

record PgOutputColumn =
  col_key :: bool
  col_name :: string
  col_type_oid :: nat
  col_typmod :: int

record PgOutputRelation =
  rel_id :: nat
  rel_namespace :: string
  rel_name :: string
  rel_replica_identity :: u8
  rel_columns :: "PgOutputColumn list"

datatype PgOutputValue = ValNull | ValUnchangedToast | ValText string | ValBinary bytes

type_synonym PgOutputTuple = "PgOutputValue list"

datatype PgOutputMessage =
    MsgBegin nat nat
  | MsgCommit nat nat
  | MsgRelation PgOutputRelation
  | MsgInsert nat PgOutputTuple
  | MsgUpdate nat "PgOutputTuple option" PgOutputTuple
  | MsgDelete nat PgOutputTuple
  | MsgOrigin string
  | MsgIgnored u8

datatype PgOutputDecodeError =
    Truncated string
  | InvalidUtf8 string
  | UnsupportedTag u8
  | InvalidMarker string u8
  | TrailingBytes nat

subsection \<open>Reader\<close>

record Reader =
  rd_input :: bytes
  rd_offset :: nat

type_synonym 'a decoder = "Reader \<Rightarrow> PgOutputDecodeError + 'a \<times> Reader"

definition rd_return :: "'a \<Rightarrow> 'a decoder" where
  "rd_return a r = Inr (a, r)"

definition rd_fail :: "PgOutputDecodeError \<Rightarrow> 'a decoder" where
  "rd_fail e r = Inl e"

definition rd_bind :: "'a decoder \<Rightarrow> ('a \<Rightarrow> 'b decoder) \<Rightarrow> 'b decoder" where
  "rd_bind d f r = (case d r of Inl e \<Rightarrow> Inl e | Inr (a, r) \<Rightarrow> f a r)"

definition rd_new :: "bytes \<Rightarrow> Reader" where
  "rd_new input = \<lparr>rd_input = input, rd_offset = 0\<rparr>"

definition rd_remaining :: "Reader \<Rightarrow> nat" where
  "rd_remaining r = length (rd_input r) - rd_offset r"

definition rd_is_empty :: "Reader \<Rightarrow> bool" where
  "rd_is_empty r \<longleftrightarrow> rd_remaining r = 0"

definition rd_bytes :: "nat \<Rightarrow> string \<Rightarrow> bytes decoder" where
  "rd_bytes n field r =
     (if rd_offset r + n > u64_max then Inl (Truncated field)
      else if rd_offset r + n \<le> length (rd_input r)
        then Inr (take n (drop (rd_offset r) (rd_input r)), r\<lparr>rd_offset := rd_offset r + n\<rparr>)
      else Inl (Truncated field))"

definition rd_byte :: "string \<Rightarrow> u8 decoder" where
  "rd_byte field = rd_bind (rd_bytes 1 field) (\<lambda>bs. rd_return (bs ! 0))"

definition rd_u16 :: "string \<Rightarrow> nat decoder" where
  "rd_u16 field = rd_bind (rd_bytes 2 field) (\<lambda>bs. rd_return (from_be bs))"

definition rd_u32 :: "string \<Rightarrow> nat decoder" where
  "rd_u32 field = rd_bind (rd_bytes 4 field) (\<lambda>bs. rd_return (from_be bs))"

definition signed_be :: "nat \<Rightarrow> bytes \<Rightarrow> int" where
  "signed_be w bs = (if from_be bs < 2 ^ (w - 1) then int (from_be bs) else int (from_be bs) - 2 ^ w)"

definition rd_i32 :: "string \<Rightarrow> int decoder" where
  "rd_i32 field = rd_bind (rd_bytes 4 field) (\<lambda>bs. rd_return (signed_be 32 bs))"

definition rd_u64 :: "string \<Rightarrow> nat decoder" where
  "rd_u64 field = rd_bind (rd_bytes 8 field) (\<lambda>bs. rd_return (from_be bs))"

definition rd_i64 :: "string \<Rightarrow> int decoder" where
  "rd_i64 field = rd_bind (rd_bytes 8 field) (\<lambda>bs. rd_return (signed_be 64 bs))"

fun position_of :: "u8 \<Rightarrow> bytes \<Rightarrow> nat option" where
  "position_of b [] = None"
| "position_of b (c # cs) = (if c = b then Some 0 else map_option Suc (position_of b cs))"

definition rd_cstring :: "string \<Rightarrow> string decoder" where
  "rd_cstring field r =
     (if rd_offset r > length (rd_input r) then Inl (Truncated field)
      else case position_of 0 (drop (rd_offset r) (rd_input r)) of
          None \<Rightarrow> Inl (Truncated field)
        | Some terminator \<Rightarrow>
            (case rd_bytes terminator field r of
               Inl e \<Rightarrow> Inl e
             | Inr (bs, r) \<Rightarrow>
                 if valid_utf8 bs then Inr (string_of_bytes bs, r\<lparr>rd_offset := rd_offset r + 1\<rparr>)
                 else Inl (InvalidUtf8 field)))"

subsection \<open>Decoders\<close>

definition expect_marker :: "u8 \<Rightarrow> string \<Rightarrow> unit decoder" where
  "expect_marker expected kind = rd_bind (rd_byte kind)
     (\<lambda>marker. if marker = expected then rd_return () else rd_fail (InvalidMarker kind marker))"

fun rd_times :: "nat \<Rightarrow> 'a decoder \<Rightarrow> 'a list decoder" where
  "rd_times 0 d = rd_return []"
| "rd_times (Suc n) d = rd_bind d (\<lambda>a. rd_bind (rd_times n d) (\<lambda>as. rd_return (a # as)))"

definition decode_value :: "PgOutputValue decoder" where
  "decode_value = rd_bind (rd_byte ''tuple value marker'') (\<lambda>marker.
     if marker = byte_of CHR ''n'' then rd_return ValNull
     else if marker = byte_of CHR ''u'' then rd_return ValUnchangedToast
     else if marker = byte_of CHR ''t'' \<or> marker = byte_of CHR ''b'' then
       rd_bind (rd_u32 ''tuple value length'') (\<lambda>len.
       rd_bind (rd_bytes len ''tuple value'') (\<lambda>bs.
         if marker = byte_of CHR ''t'' then
           (if valid_utf8 bs then rd_return (ValText (string_of_bytes bs)) else rd_fail (InvalidUtf8 ''tuple value''))
         else rd_return (ValBinary bs)))
     else rd_fail (InvalidMarker ''tuple value'' marker))"

definition decode_tuple :: "PgOutputTuple decoder" where
  "decode_tuple = rd_bind (rd_u16 ''tuple column count'') (\<lambda>count. rd_times count decode_value)"

definition decode_begin :: "PgOutputMessage decoder" where
  "decode_begin = rd_bind (rd_u64 ''begin final_lsn'') (\<lambda>final_lsn.
     rd_bind (rd_i64 ''begin commit_time'') (\<lambda>_.
     rd_bind (rd_u32 ''begin xid'') (\<lambda>xid. rd_return (MsgBegin final_lsn xid))))"

definition decode_commit :: "PgOutputMessage decoder" where
  "decode_commit = rd_bind (rd_byte ''commit flags'') (\<lambda>_.
     rd_bind (rd_u64 ''commit lsn'') (\<lambda>commit_lsn.
     rd_bind (rd_u64 ''commit end_lsn'') (\<lambda>end_lsn.
     rd_bind (rd_i64 ''commit time'') (\<lambda>_. rd_return (MsgCommit commit_lsn end_lsn)))))"

definition decode_insert :: "PgOutputMessage decoder" where
  "decode_insert = rd_bind (rd_u32 ''insert relation id'') (\<lambda>relation_id.
     rd_bind (expect_marker (byte_of CHR ''N'') ''insert tuple'') (\<lambda>_.
     rd_bind decode_tuple (\<lambda>new. rd_return (MsgInsert relation_id new))))"

definition decode_delete :: "PgOutputMessage decoder" where
  "decode_delete = rd_bind (rd_u32 ''delete relation id'') (\<lambda>relation_id.
     rd_bind (rd_byte ''delete tuple marker'') (\<lambda>marker.
       if marker \<noteq> byte_of CHR ''K'' \<and> marker \<noteq> byte_of CHR ''O''
       then rd_fail (InvalidMarker ''delete tuple'' marker)
       else rd_bind decode_tuple (\<lambda>old. rd_return (MsgDelete relation_id old))))"

definition decode_origin :: "PgOutputMessage decoder" where
  "decode_origin = rd_bind (rd_u64 ''origin lsn'') (\<lambda>_.
     rd_bind (rd_cstring ''origin name'') (\<lambda>name. rd_return (MsgOrigin name)))"

definition decode_column :: "PgOutputColumn decoder" where
  "decode_column = rd_bind (rd_byte ''relation column flags'') (\<lambda>flags.
     rd_bind (rd_cstring ''relation column name'') (\<lambda>name.
     rd_bind (rd_u32 ''relation column type oid'') (\<lambda>type_oid.
     rd_bind (rd_i32 ''relation column typmod'') (\<lambda>typmod.
       rd_return \<lparr>col_key = odd (unat flags), col_name = name, col_type_oid = type_oid, col_typmod = typmod\<rparr>))))"

definition decode_relation :: "PgOutputRelation decoder" where
  "decode_relation = rd_bind (rd_u32 ''relation id'') (\<lambda>rid.
     rd_bind (rd_cstring ''relation namespace'') (\<lambda>namespace.
     rd_bind (rd_cstring ''relation name'') (\<lambda>name.
     rd_bind (rd_byte ''relation replica identity'') (\<lambda>replica_identity.
     rd_bind (rd_u16 ''relation column count'') (\<lambda>column_count.
     rd_bind (rd_times column_count decode_column) (\<lambda>columns.
       rd_return \<lparr>rel_id = rid, rel_namespace = namespace, rel_name = name,
         rel_replica_identity = replica_identity, rel_columns = columns\<rparr>))))))"

definition decode_update :: "PgOutputMessage decoder" where
  "decode_update = rd_bind (rd_u32 ''update relation id'') (\<lambda>relation_id.
     rd_bind (rd_byte ''update tuple marker'') (\<lambda>marker.
     rd_bind
       (if marker = byte_of CHR ''K'' \<or> marker = byte_of CHR ''O'' then
          rd_bind decode_tuple (\<lambda>old.
          rd_bind (rd_byte ''update new tuple marker'') (\<lambda>new_marker. rd_return (Some old, new_marker)))
        else if marker = byte_of CHR ''N'' then rd_return (None, byte_of CHR ''N'')
        else rd_fail (InvalidMarker ''update tuple'' marker))
       (\<lambda>(old, new_marker).
          if new_marker \<noteq> byte_of CHR ''N'' then rd_fail (InvalidMarker ''update new tuple'' new_marker)
          else rd_bind decode_tuple (\<lambda>new. rd_return (MsgUpdate relation_id old new)))))"

definition decode_body :: "u8 \<Rightarrow> PgOutputMessage decoder" where
  "decode_body tag =
     (if tag = byte_of CHR ''B'' then decode_begin
      else if tag = byte_of CHR ''C'' then decode_commit
      else if tag = byte_of CHR ''R'' then rd_bind decode_relation (\<lambda>rel. rd_return (MsgRelation rel))
      else if tag = byte_of CHR ''I'' then decode_insert
      else if tag = byte_of CHR ''U'' then decode_update
      else if tag = byte_of CHR ''D'' then decode_delete
      else if tag = byte_of CHR ''O'' then decode_origin
      else if tag = byte_of CHR ''Y'' \<or> tag = byte_of CHR ''T'' \<or> tag = byte_of CHR ''M'' then rd_return (MsgIgnored tag)
      else rd_fail (UnsupportedTag tag))"

fun is_ignored :: "PgOutputMessage \<Rightarrow> bool" where
  "is_ignored (MsgIgnored tag) = True"
| "is_ignored _ = False"

definition decode_message :: "bytes \<Rightarrow> PgOutputDecodeError + PgOutputMessage" where
  "decode_message input =
     (case rd_bind (rd_byte ''message tag'') decode_body (rd_new input) of
        Inl e \<Rightarrow> Inl e
      | Inr (message, r) \<Rightarrow>
          if \<not> rd_is_empty r \<and> \<not> is_ignored message then Inl (TrailingBytes (rd_remaining r))
          else Inr message)"

subsection \<open>Wire format\<close>

text \<open>The message formats of the protocol documentation: which bytes are an encoding of which message.\<close>

definition wire_nat :: "nat \<Rightarrow> nat \<Rightarrow> bytes \<Rightarrow> bool" where
  "wire_nat n v w \<longleftrightarrow> w = be_bytes n v \<and> v < 256 ^ n"

definition wire_signed :: "nat \<Rightarrow> int \<Rightarrow> bytes \<Rightarrow> bool" where
  "wire_signed n i w \<longleftrightarrow> length w = n \<and> i = signed_be (8 * n) w"

definition wire_cstring :: "string \<Rightarrow> bytes \<Rightarrow> bool" where
  "wire_cstring s w \<longleftrightarrow> w = utf8 s @ [0] \<and> 0 \<notin> set (utf8 s) \<and> valid_utf8 (utf8 s)"

definition wire_blob :: "bytes \<Rightarrow> bytes \<Rightarrow> bool" where
  "wire_blob b w \<longleftrightarrow> w = be_bytes 4 (length b) @ b \<and> length b < 256 ^ 4"

fun wire_value :: "PgOutputValue \<Rightarrow> bytes \<Rightarrow> bool" where
  "wire_value ValNull w \<longleftrightarrow> w = [byte_of CHR ''n'']"
| "wire_value ValUnchangedToast w \<longleftrightarrow> w = [byte_of CHR ''u'']"
| "wire_value (ValText s) w \<longleftrightarrow> (\<exists>v. w = byte_of CHR ''t'' # v \<and> wire_blob (utf8 s) v) \<and> valid_utf8 (utf8 s)"
| "wire_value (ValBinary b) w \<longleftrightarrow> (\<exists>v. w = byte_of CHR ''b'' # v \<and> wire_blob b v)"

definition wire_list :: "('a \<Rightarrow> bytes \<Rightarrow> bool) \<Rightarrow> 'a list \<Rightarrow> bytes \<Rightarrow> bool" where
  "wire_list G as w \<longleftrightarrow> (\<exists>ws. list_all2 G as ws \<and> w = concat ws)"

definition wire_counted :: "('a \<Rightarrow> bytes \<Rightarrow> bool) \<Rightarrow> 'a list \<Rightarrow> bytes \<Rightarrow> bool" where
  "wire_counted G as w \<longleftrightarrow> (\<exists>u v. w = u @ v \<and> wire_nat 2 (length as) u \<and> wire_list G as v)"

definition wire_column :: "PgOutputColumn \<Rightarrow> bytes \<Rightarrow> bool" where
  "wire_column c w \<longleftrightarrow> (\<exists>flags n t m. w = flags # n @ t @ m \<and> col_key c = odd (unat flags)
     \<and> wire_cstring (col_name c) n \<and> wire_nat 4 (col_type_oid c) t \<and> wire_signed 4 (col_typmod c) m)"

definition wire_relation :: "PgOutputRelation \<Rightarrow> bytes \<Rightarrow> bool" where
  "wire_relation rel w \<longleftrightarrow> (\<exists>i ns n cs. w = i @ ns @ n @ rel_replica_identity rel # cs
     \<and> wire_nat 4 (rel_id rel) i \<and> wire_cstring (rel_namespace rel) ns \<and> wire_cstring (rel_name rel) n
     \<and> wire_counted wire_column (rel_columns rel) cs)"

definition key_marker :: "u8 \<Rightarrow> bool" where
  "key_marker m \<longleftrightarrow> m = byte_of CHR ''K'' \<or> m = byte_of CHR ''O''"

fun wire_message :: "PgOutputMessage \<Rightarrow> bytes \<Rightarrow> bool" where
  "wire_message (MsgBegin lsn xid) w \<longleftrightarrow> (\<exists>l time x. w = byte_of CHR ''B'' # l @ time @ x
     \<and> wire_nat 8 lsn l \<and> length time = 8 \<and> wire_nat 4 xid x)"
| "wire_message (MsgCommit lsn end_lsn) w \<longleftrightarrow> (\<exists>flags l e time. w = byte_of CHR ''C'' # flags # l @ e @ time
     \<and> wire_nat 8 lsn l \<and> wire_nat 8 end_lsn e \<and> length time = 8)"
| "wire_message (MsgRelation rel) w \<longleftrightarrow> (\<exists>v. w = byte_of CHR ''R'' # v \<and> wire_relation rel v)"
| "wire_message (MsgInsert rid new) w \<longleftrightarrow> (\<exists>i t. w = byte_of CHR ''I'' # i @ byte_of CHR ''N'' # t
     \<and> wire_nat 4 rid i \<and> wire_counted wire_value new t)"
| "wire_message (MsgUpdate rid old new) w \<longleftrightarrow> (\<exists>i k t. w = byte_of CHR ''U'' # i @ k @ byte_of CHR ''N'' # t
     \<and> wire_nat 4 rid i \<and> wire_counted wire_value new t
     \<and> (case old of None \<Rightarrow> k = [] | Some vs \<Rightarrow> (\<exists>m u. key_marker m \<and> k = m # u \<and> wire_counted wire_value vs u)))"
| "wire_message (MsgDelete rid old) w \<longleftrightarrow> (\<exists>i m t. w = byte_of CHR ''D'' # i @ m # t \<and> key_marker m
     \<and> wire_nat 4 rid i \<and> wire_counted wire_value old t)"
| "wire_message (MsgOrigin name) w \<longleftrightarrow> (\<exists>l n. w = byte_of CHR ''O'' # l @ n \<and> length l = 8 \<and> wire_cstring name n)"
| "wire_message (MsgIgnored tag) w \<longleftrightarrow> (\<exists>body. w = tag # body)
     \<and> (tag = byte_of CHR ''Y'' \<or> tag = byte_of CHR ''T'' \<or> tag = byte_of CHR ''M'')"

subsection \<open>Exact decoders\<close>

definition rd_rest :: "Reader \<Rightarrow> bytes" where
  "rd_rest r = drop (rd_offset r) (rd_input r)"

definition rd_skip :: "nat \<Rightarrow> Reader \<Rightarrow> Reader" where
  "rd_skip n r = r\<lparr>rd_offset := rd_offset r + n\<rparr>"

definition rd_ok :: "Reader \<Rightarrow> bool" where
  "rd_ok r \<longleftrightarrow> rd_offset r \<le> length (rd_input r) \<and> length (rd_input r) \<le> u64_max"

text \<open>A decoder is exact for a format when it consumes precisely an encoding and returns its value,
  succeeds on nothing else, and reports truncation on every proper prefix of an encoding.\<close>

definition accepts :: "'a decoder \<Rightarrow> ('a \<Rightarrow> bytes \<Rightarrow> bool) \<Rightarrow> bool" where
  "accepts d G \<longleftrightarrow> (\<forall>r a w v. rd_ok r \<longrightarrow> G a w \<longrightarrow> rd_rest r = w @ v \<longrightarrow> d r = Inr (a, rd_skip (length w) r))"

definition only :: "'a decoder \<Rightarrow> ('a \<Rightarrow> bytes \<Rightarrow> bool) \<Rightarrow> bool" where
  "only d G \<longleftrightarrow> (\<forall>r a r'. rd_ok r \<longrightarrow> d r = Inr (a, r') \<longrightarrow>
     (\<exists>w v. G a w \<and> rd_rest r = w @ v \<and> r' = rd_skip (length w) r))"

definition truncates :: "'a decoder \<Rightarrow> ('a \<Rightarrow> bytes \<Rightarrow> bool) \<Rightarrow> bool" where
  "truncates d G \<longleftrightarrow> (\<forall>r a v. rd_ok r \<longrightarrow> G a (rd_rest r @ v) \<longrightarrow> v \<noteq> [] \<longrightarrow> (\<exists>f. d r = Inl (Truncated f)))"

definition exact :: "'a decoder \<Rightarrow> ('a \<Rightarrow> bytes \<Rightarrow> bool) \<Rightarrow> bool" where
  "exact d G \<longleftrightarrow> accepts d G \<and> only d G \<and> truncates d G"

lemma rd_skip_simps:
  assumes "rd_ok r" "rd_rest r = w @ v"
  shows "rd_ok (rd_skip (length w) r)" "rd_rest (rd_skip (length w) r) = v"
    and "rd_skip n (rd_skip m r) = rd_skip (m + n) r"
proof -
  have "length (rd_rest r) = length w + length v"
    using assms(2) by simp
  then show "rd_ok (rd_skip (length w) r)"
    using assms(1) by (auto simp: rd_ok_def rd_rest_def rd_skip_def)
  show "rd_rest (rd_skip (length w) r) = v"
    using assms(2) by (auto simp: rd_rest_def rd_skip_def add.commute simp flip: drop_drop)
  show "rd_skip n (rd_skip m r) = rd_skip (m + n) r"
    by (simp add: rd_skip_def add.assoc)
qed

lemma exact_cong: "exact d G \<Longrightarrow> (\<And>a w. G a w = G' a w) \<Longrightarrow> exact d G'"
  by (simp add: exact_def accepts_def only_def truncates_def)

lemma exact_return: "exact (rd_return a) (\<lambda>b w. b = a \<and> w = [])"
  by (auto simp: exact_def accepts_def only_def truncates_def rd_return_def rd_skip_def)

lemma exact_fail: "exact (rd_fail e) (\<lambda>_ _. False)"
  by (auto simp: exact_def accepts_def only_def truncates_def rd_fail_def)

lemma exact_if: "(c \<Longrightarrow> exact d G) \<Longrightarrow> (\<not> c \<Longrightarrow> exact e H) \<Longrightarrow>
    exact (if c then d else e) (\<lambda>a w. if c then G a w else H a w)"
  by simp

lemma exact_bytes: "exact (rd_bytes n field) (\<lambda>a w. a = w \<and> length w = n)"
proof -
  have "accepts (rd_bytes n field) (\<lambda>a w. a = w \<and> length w = n)"
    unfolding accepts_def
  proof (intro allI impI)
    fix r :: Reader and a w v
    assume r: "rd_ok r" "a = w \<and> length w = n" "rd_rest r = w @ v"
    have "length (rd_rest r) = n + length v"
      using r by simp
    then have "rd_offset r + n \<le> length (rd_input r)"
      using r(1) by (auto simp: rd_rest_def rd_ok_def)
    moreover have "take n (drop (rd_offset r) (rd_input r)) = w"
      using r by (simp add: rd_rest_def)
    ultimately show "rd_bytes n field r = Inr (a, rd_skip (length w) r)"
      using r by (simp add: rd_bytes_def rd_ok_def rd_skip_def)
  qed
  moreover have "only (rd_bytes n field) (\<lambda>a w. a = w \<and> length w = n)"
    unfolding only_def
    by (auto simp: rd_bytes_def rd_rest_def rd_skip_def rd_ok_def split: if_splits)
      (metis append_take_drop_id)
  moreover have "truncates (rd_bytes n field) (\<lambda>a w. a = w \<and> length w = n)"
    unfolding truncates_def
  proof (intro allI impI)
    fix r :: Reader and a v
    assume r: "rd_ok r" "a = rd_rest r @ v \<and> length (rd_rest r @ v) = n" "v \<noteq> []"
    then have "0 < length v" "length (rd_input r) - rd_offset r + length v = n"
      by (simp_all add: rd_rest_def)
    then show "\<exists>f. rd_bytes n field r = Inl (Truncated f)"
      using r(1) by (auto simp: rd_bytes_def rd_ok_def simp del: length_greater_0_conv)
  qed
  ultimately show ?thesis
    by (simp add: exact_def)
qed

lemma exact_bind:
  assumes "exact d G" "\<And>a. exact (f a) (H a)"
  shows "exact (rd_bind d f) (\<lambda>b w. \<exists>a u v. w = u @ v \<and> G a u \<and> H a b v)"
proof -
  have acc: "accepts d G" "\<And>a. accepts (f a) (H a)" and only: "only d G" "\<And>a. only (f a) (H a)"
    and tr: "truncates d G" "\<And>a. truncates (f a) (H a)"
    using assms by (simp_all add: exact_def)
  let ?K = "\<lambda>b w. \<exists>a u v. w = u @ v \<and> G a u \<and> H a b v"
  have "accepts (rd_bind d f) ?K"
    unfolding accepts_def
  proof (intro allI impI, elim exE conjE)
    fix r :: Reader and b w x a u v
    assume r: "rd_ok r" "rd_rest r = w @ x" "G a u" "H a b v" "w = u @ v"
    have "d r = Inr (a, rd_skip (length u) r)"
      using acc(1) r unfolding accepts_def by (metis append_assoc)
    moreover have "rd_ok (rd_skip (length u) r)" "rd_rest (rd_skip (length u) r) = v @ x"
      using rd_skip_simps [of r u "v @ x"] r by simp_all
    then have "f a (rd_skip (length u) r) = Inr (b, rd_skip (length v) (rd_skip (length u) r))"
      using acc(2) r unfolding accepts_def by metis
    ultimately show "rd_bind d f r = Inr (b, rd_skip (length w) r)"
      using r by (simp add: rd_bind_def rd_skip_def add.assoc)
  qed
  moreover have "only (rd_bind d f) ?K"
    unfolding only_def
  proof (intro allI impI)
    fix r b r'
    assume r: "rd_ok r" "rd_bind d f r = Inr (b, r')"
    then obtain a s where a: "d r = Inr (a, s)" "f a s = Inr (b, r')"
      by (auto simp: rd_bind_def split: sum.splits)
    then obtain u x where u: "G a u" "rd_rest r = u @ x" "s = rd_skip (length u) r"
      using only(1) r unfolding only_def by blast
    then have s: "rd_ok s" "rd_rest s = x"
      using rd_skip_simps [of r u x] r by simp_all
    then obtain v y where v: "H a b v" "x = v @ y" "r' = rd_skip (length v) s"
      using only(2) a(2) unfolding only_def by metis
    have "r' = rd_skip (length (u @ v)) r"
      using u v by (simp add: rd_skip_def add.assoc)
    then show "\<exists>w z. ?K b w \<and> rd_rest r = w @ z \<and> r' = rd_skip (length w) r"
      using u v by (metis append_assoc)
  qed
  moreover have "truncates (rd_bind d f) ?K"
    unfolding truncates_def
  proof (intro allI impI, elim exE conjE)
    fix r b x a u v
    assume r: "rd_ok r" "x \<noteq> []" "G a u" "H a b v" "rd_rest r @ x = u @ v"
    show "\<exists>e. rd_bind d f r = Inl (Truncated e)"
    proof (cases "\<exists>y. y \<noteq> [] \<and> u = rd_rest r @ y")
      case True
      then show ?thesis
        using tr(1) r unfolding truncates_def by (fastforce simp: rd_bind_def)
    next
      case False
      then obtain y where y: "rd_rest r = u @ y" "v = y @ x"
        using r(5) by (metis append_eq_append_conv2 append_Nil2)
      then have "d r = Inr (a, rd_skip (length u) r)"
        using acc(1) r unfolding accepts_def by metis
      moreover have "rd_ok (rd_skip (length u) r)" "rd_rest (rd_skip (length u) r) = y"
        using rd_skip_simps [of r u y] r y by simp_all
      then have "\<exists>e. f a (rd_skip (length u) r) = Inl (Truncated e)"
        using tr(2) r y unfolding truncates_def by metis
      ultimately show ?thesis
        by (auto simp: rd_bind_def)
    qed
  qed
  ultimately show ?thesis
    by (simp add: exact_def)
qed

lemma exact_byte: "exact (rd_byte field) (\<lambda>b w. w = [b])"
  unfolding rd_byte_def
  by (rule exact_cong [OF exact_bind [OF exact_bytes exact_return]])
    (auto simp: length_Suc_conv)

lemma exact_nat: "exact (rd_bind (rd_bytes n field) (\<lambda>bs. rd_return (from_be bs))) (wire_nat n)"
  by (rule exact_cong [OF exact_bind [OF exact_bytes exact_return]])
    (use from_be_less in \<open>auto simp: wire_nat_def be_bytes_from_be\<close>)

lemma exact_signed:
  "exact (rd_bind (rd_bytes n field) (\<lambda>bs. rd_return (signed_be (8 * n) bs))) (wire_signed n)"
  by (rule exact_cong [OF exact_bind [OF exact_bytes exact_return]]) (auto simp: wire_signed_def)

lemmas exact_ints = exact_nat [of 2, folded rd_u16_def] exact_nat [of 4, folded rd_u32_def]
  exact_nat [of 8, folded rd_u64_def] exact_signed [of 4, simplified, folded rd_i32_def]
  exact_signed [of 8, simplified, folded rd_i64_def]

lemma position_of_append: "b \<notin> set u \<Longrightarrow> position_of b (u @ b # v) = Some (length u)"
  by (induction u) auto

lemma position_of_None: "b \<notin> set u \<Longrightarrow> position_of b u = None"
  by (induction u) auto

lemma exact_times: "exact d G \<Longrightarrow> exact (rd_times n d) (\<lambda>as w. length as = n \<and> wire_list G as w)"
proof (induction n)
  case 0
  show ?case
    unfolding rd_times.simps
    by (rule exact_cong [OF exact_return]) (auto simp: wire_list_def)
next
  case (Suc n)
  have "exact (rd_times (Suc n) d) (\<lambda>b w. \<exists>a u v. w = u @ v \<and> G a u \<and>
      (\<exists>as x y. v = x @ y \<and> (length as = n \<and> wire_list G as x) \<and> (b = a # as \<and> y = [])))"
    unfolding rd_times.simps
    by (intro exact_bind [OF Suc.prems] exact_bind [OF Suc.IH [OF Suc.prems]] exact_return)
  then show ?case
    by (rule exact_cong) (auto simp: wire_list_def length_Suc_conv list_all2_Cons1; force)
qed

lemma rd_bytes_append:
  "\<lbrakk>rd_ok r; rd_rest r = w @ v\<rbrakk> \<Longrightarrow> rd_bytes (length w) field r = Inr (w, rd_skip (length w) r)"
  using exact_bytes [of "length w" field] unfolding exact_def accepts_def by blast

lemma rd_cstring_found:
  assumes "rd_ok r" "rd_rest r = u @ 0 # v" "0 \<notin> set u"
  shows "rd_cstring field r =
    (if valid_utf8 u then Inr (string_of_bytes u, rd_skip (length (u @ [0])) r) else Inl (InvalidUtf8 field))"
  using assms rd_bytes_append [of r u "0 # v"]
  by (simp add: rd_cstring_def rd_ok_def rd_rest_def rd_skip_def position_of_append)

lemma rd_cstring_missing:
  "\<lbrakk>rd_ok r; 0 \<notin> set (rd_rest r)\<rbrakk> \<Longrightarrow> rd_cstring field r = Inl (Truncated field)"
  by (simp add: rd_cstring_def rd_ok_def rd_rest_def position_of_None)

lemma exact_cstring: "exact (rd_cstring field) wire_cstring"
proof -
  have "accepts (rd_cstring field) wire_cstring"
    by (auto simp: accepts_def wire_cstring_def rd_cstring_found)
  moreover have "only (rd_cstring field) wire_cstring"
    unfolding only_def
  proof (intro allI impI)
    fix r :: Reader and s r'
    assume r: "rd_ok r" "rd_cstring field r = Inr (s, r')"
    then have "0 \<in> set (rd_rest r)"
      using rd_cstring_missing by fastforce
    then obtain u v where u: "rd_rest r = u @ 0 # v" "0 \<notin> set u"
      by (meson split_list_first)
    then have "wire_cstring s (u @ [0]) \<and> rd_rest r = (u @ [0]) @ v \<and> r' = rd_skip (length (u @ [0])) r"
      using r rd_cstring_found [OF r(1) u] by (auto simp: wire_cstring_def split: if_splits)
    then show "\<exists>w v. wire_cstring s w \<and> rd_rest r = w @ v \<and> r' = rd_skip (length w) r"
      by blast
  qed
  moreover have "truncates (rd_cstring field) wire_cstring"
    unfolding truncates_def
  proof (intro allI impI)
    fix r :: Reader and s v
    assume r: "rd_ok r" "wire_cstring s (rd_rest r @ v)" "v \<noteq> []"
    then have "rd_rest r @ butlast v = utf8 s"
      by (auto simp: wire_cstring_def butlast_append dest: arg_cong [of _ _ butlast])
    then have "0 \<notin> set (rd_rest r)"
      using r(2) by (metis UnI1 set_append wire_cstring_def)
    then show "\<exists>f. rd_cstring field r = Inl (Truncated f)"
      using r(1) rd_cstring_missing by blast
  qed
  ultimately show ?thesis
    by (simp add: exact_def)
qed

lemma exact_marker: "exact (expect_marker m kind) (\<lambda>_ w. w = [m])"
  unfolding expect_marker_def
  by (rule exact_cong [OF exact_bind [OF exact_byte exact_if [OF exact_return exact_fail]]]) auto

lemma exact_counted: "exact d G \<Longrightarrow> exact (rd_bind (rd_u16 field) (\<lambda>n. rd_times n d)) (wire_counted G)"
  by (rule exact_cong [OF exact_bind [OF exact_ints(1) exact_times]]) (auto simp: wire_counted_def)

lemmas exact_rules = exact_bind exact_if exact_return exact_fail exact_byte exact_bytes exact_ints
  exact_cstring exact_marker

lemma exact_blob:
  assumes "\<And>b. exact (f b) (H b)"
  shows "exact (rd_bind (rd_u32 x) (\<lambda>n. rd_bind (rd_bytes n y) f)) (\<lambda>a w. \<exists>b u v. w = u @ v \<and> wire_blob b u \<and> H b a v)"
  by (rule exact_cong [OF exact_bind [OF exact_ints(2) exact_bind [OF exact_bytes assms]]])
    (auto simp: wire_blob_def wire_nat_def; force)

lemma exact_tag:
  assumes "\<And>m. exact (f m) (H m)"
  shows "exact (rd_bind (rd_byte field) f) (\<lambda>a w. \<exists>m v. w = m # v \<and> H m a v)"
  by (rule exact_cong [OF exact_bind [OF exact_byte assms]]) auto

lemma exact_value: "exact decode_value wire_value"
proof -
  have "exact decode_value (\<lambda>a w. \<exists>m v. w = m # v \<and>
      (if m = byte_of CHR ''n'' then a = ValNull \<and> v = []
       else if m = byte_of CHR ''u'' then a = ValUnchangedToast \<and> v = []
       else if m = byte_of CHR ''t'' \<or> m = byte_of CHR ''b'' then
         \<exists>b x y. v = x @ y \<and> wire_blob b x \<and> (if m = byte_of CHR ''t''
           then if valid_utf8 b then a = ValText (string_of_bytes b) \<and> y = [] else False
           else a = ValBinary b \<and> y = [])
       else False))"
    unfolding decode_value_def by (intro exact_tag exact_blob exact_rules)
  then show ?thesis
  proof (rule exact_cong, goal_cases)
    case (1 a w)
    show ?case
      by (cases w; cases a) (auto split: if_splits)
  qed
qed

lemma exact_tuple: "exact decode_tuple (wire_counted wire_value)"
  unfolding decode_tuple_def by (rule exact_counted [OF exact_value])

lemmas bind_u16 = exact_bind [OF exact_ints(1)]
  and bind_u32 = exact_bind [OF exact_ints(2)]
  and bind_u64 = exact_bind [OF exact_ints(3)]
  and bind_i32 = exact_bind [OF exact_ints(4)]
  and bind_i64 = exact_bind [OF exact_ints(5)]
  and bind_cstring = exact_bind [OF exact_cstring]
  and bind_tuple = exact_bind [OF exact_tuple]

lemma exact_column: "exact decode_column wire_column"
  unfolding decode_column_def
proof (rule exact_cong [OF exact_tag [OF bind_cstring [OF bind_u32 [OF bind_i32 [OF exact_return]]]]], goal_cases)
  case (1 c w)
  show ?case
    by (cases c) (simp add: wire_column_def, metis)
qed

lemma exact_relation: "exact decode_relation wire_relation"
  unfolding decode_relation_def
proof (rule exact_cong [OF bind_u32 [OF bind_cstring [OF bind_cstring [OF exact_tag
      [OF bind_u16 [OF exact_bind [OF exact_times [OF exact_column] exact_return]]]]]]], goal_cases)
  case (1 rel w)
  show ?case
    by (cases rel) (simp add: wire_relation_def wire_counted_def, intro iffI; elim exE conjE; hypsubst_thin; fast)
qed

lemma exact_update_tail:
  "exact (case p of (old, m) \<Rightarrow> if m \<noteq> byte_of CHR ''N'' then rd_fail (InvalidMarker ''update new tuple'' m)
      else rd_bind decode_tuple (\<lambda>new. rd_return (MsgUpdate rid old new)))
    (\<lambda>msg w. snd p = byte_of CHR ''N'' \<and> (\<exists>new. msg = MsgUpdate rid (fst p) new \<and> wire_counted wire_value new w))"
  unfolding case_prod_beta
  by (rule exact_cong [OF exact_if [OF exact_fail bind_tuple [OF exact_return]]]) auto

lemma exact_update_head:
  "exact (if m = byte_of CHR ''K'' \<or> m = byte_of CHR ''O'' then
        rd_bind decode_tuple (\<lambda>old. rd_bind (rd_byte field) (\<lambda>n. rd_return (Some old, n)))
      else if m = byte_of CHR ''N'' then rd_return (None, byte_of CHR ''N'') else rd_fail e)
    (\<lambda>p w. if key_marker m then \<exists>u old. w = u @ [snd p] \<and> fst p = Some old \<and> wire_counted wire_value old u
      else m = byte_of CHR ''N'' \<and> p = (None, byte_of CHR ''N'') \<and> w = [])"
  unfolding key_marker_def
  by (rule exact_cong [OF exact_if [OF bind_tuple [OF exact_tag [OF exact_return]] exact_if [OF exact_return exact_fail]]])
    auto

lemma exact_update: "exact decode_update (\<lambda>m w. wire_message m (byte_of CHR ''U'' # w))"
  unfolding decode_update_def
proof (rule exact_cong [OF bind_u32 [OF exact_tag [OF exact_bind [OF exact_update_head exact_update_tail]]]], goal_cases)
  case (1 msg w)
  have N [simp]: "\<not> key_marker (byte_of CHR ''N'')"
    by (simp add: key_marker_def)
  show ?case
  proof (cases msg)
    case (MsgUpdate rid old new)
    show ?thesis
    proof (cases old)
      case None
      show ?thesis
        unfolding MsgUpdate None by (auto split: if_splits; metis N)
    next
      case (Some vs)
      show ?thesis
        unfolding MsgUpdate Some
        by (auto split: if_splits; metis append.assoc append_Cons append_Nil)
    qed
  qed auto
qed

lemma exact_delete_tail:
  "exact (if m \<noteq> byte_of CHR ''K'' \<and> m \<noteq> byte_of CHR ''O'' then rd_fail e
      else rd_bind decode_tuple (\<lambda>old. rd_return (MsgDelete rid old)))
    (\<lambda>msg w. key_marker m \<and> (\<exists>old. msg = MsgDelete rid old \<and> wire_counted wire_value old w))"
  unfolding key_marker_def
  by (rule exact_cong [OF exact_if [OF exact_fail bind_tuple [OF exact_return]]]) auto

lemma exact_delete: "exact decode_delete (\<lambda>m w. wire_message m (byte_of CHR ''D'' # w))"
  unfolding decode_delete_def
proof (rule exact_cong [OF bind_u32 [OF exact_tag [OF exact_delete_tail]]], goal_cases)
  case (1 msg w)
  show ?case
    by (cases msg) (auto, blast)
qed

lemma exact_begin: "exact decode_begin (\<lambda>m w. wire_message m (byte_of CHR ''B'' # w))"
  unfolding decode_begin_def
proof (rule exact_cong [OF bind_u64 [OF bind_i64 [OF bind_u32 [OF exact_return]]]], goal_cases)
  case (1 msg w)
  show ?case
  proof (cases msg)
    case (MsgBegin lsn xid)
    then show ?thesis
      by (auto simp: wire_signed_def; blast)
  qed auto
qed

lemma exact_commit: "exact decode_commit (\<lambda>m w. wire_message m (byte_of CHR ''C'' # w))"
  unfolding decode_commit_def
proof (rule exact_cong [OF exact_tag [OF bind_u64 [OF bind_u64 [OF bind_i64 [OF exact_return]]]]], goal_cases)
  case (1 msg w)
  show ?case
  proof (cases msg)
    case (MsgCommit lsn end_lsn)
    then show ?thesis
      by (auto simp: wire_signed_def; blast)
  qed auto
qed

lemma exact_insert: "exact decode_insert (\<lambda>m w. wire_message m (byte_of CHR ''I'' # w))"
  unfolding decode_insert_def
proof (rule exact_cong [OF bind_u32 [OF exact_bind [OF exact_marker bind_tuple [OF exact_return]]]], goal_cases)
  case (1 msg w)
  show ?case
    by (cases msg) auto
qed

lemma exact_origin: "exact decode_origin (\<lambda>m w. wire_message m (byte_of CHR ''O'' # w))"
  unfolding decode_origin_def
proof (rule exact_cong [OF bind_u64 [OF bind_cstring [OF exact_return]]], goal_cases)
  case (1 msg w)
  show ?case
  proof (cases msg)
    case (MsgOrigin name)
    have "(\<exists>n. wire_nat 8 n u) \<longleftrightarrow> length u = 8" for u
      unfolding wire_nat_def by (metis be_bytes_from_be from_be_less length_be_bytes)
    then show ?thesis
      unfolding MsgOrigin by auto metis+
  qed auto
qed

lemma exact_relation_message:
  "exact (rd_bind decode_relation (\<lambda>rel. rd_return (MsgRelation rel))) (\<lambda>m w. wire_message m (byte_of CHR ''R'' # w))"
proof (rule exact_cong [OF exact_bind [OF exact_relation exact_return]], goal_cases)
  case (1 msg w)
  show ?case
    by (cases msg) auto
qed


definition wire_frame :: "PgOutputMessage \<Rightarrow> bytes \<Rightarrow> bool" where
  "wire_frame m w \<longleftrightarrow> wire_message m w \<and> (is_ignored m \<longrightarrow> length w = 1)"

lemma exact_if_same: "(c \<Longrightarrow> exact d G) \<Longrightarrow> (\<not> c \<Longrightarrow> exact e G) \<Longrightarrow> exact (if c then d else e) G"
  by simp

lemma exact_body: "exact (decode_body tag) (\<lambda>m w. wire_frame m (tag # w))"
proof -
  let ?ign = "tag = byte_of CHR ''Y'' \<or> tag = byte_of CHR ''T'' \<or> tag = byte_of CHR ''M''"
  have plain: "exact d (\<lambda>m w. wire_frame m (tag # w))"
    if "tag = byte_of c" "c \<notin> {CHR ''Y'', CHR ''T'', CHR ''M''}" "exact d (\<lambda>m w. wire_message m (byte_of c # w))" for d c
  proof (rule exact_cong [OF that(3)], goal_cases)
    case (1 m w)
    show ?case
      using that(1,2) by (cases m) (auto simp: wire_frame_def)
  qed
  have ignored: "exact (rd_return (MsgIgnored tag)) (\<lambda>m w. wire_frame m (tag # w))" if ?ign
  proof (rule exact_cong [OF exact_return], goal_cases)
    case (1 m w)
    show ?case
      using that by (cases m) (auto simp: wire_frame_def)
  qed
  have other: "exact (rd_fail e) (\<lambda>m w. wire_frame m (tag # w))"
    if "\<not> ?ign" "\<forall>c\<in>{CHR ''B'', CHR ''C'', CHR ''R'', CHR ''I'', CHR ''U'', CHR ''D'', CHR ''O''}. tag \<noteq> byte_of c" for e
  proof (rule exact_cong [OF exact_fail], goal_cases)
    case (1 m w)
    show ?case
      using that by (cases m) (auto simp: wire_frame_def)
  qed
  show ?thesis
    unfolding decode_body_def
    by (intro exact_if_same ignored other plain [OF _ _ exact_begin] plain [OF _ _ exact_commit]
        plain [OF _ _ exact_relation_message] plain [OF _ _ exact_insert] plain [OF _ _ exact_update]
        plain [OF _ _ exact_delete] plain [OF _ _ exact_origin]) simp_all
qed

lemma exact_frame: "exact (rd_bind (rd_byte field) decode_body) wire_frame"
proof (rule exact_cong [OF exact_tag [OF exact_body]], goal_cases)
  case (1 m w)
  show ?case
    by (cases w; cases m) (auto simp: wire_frame_def)
qed

subsection \<open>Messages decoded\<close>

lemma rd_new_rest [simp]: "rd_rest (rd_new bs) = bs" "rd_ok (rd_new bs) \<longleftrightarrow> length bs \<le> u64_max"
  by (simp_all add: rd_rest_def rd_new_def rd_ok_def)

lemma decode_frame:
  assumes "length (w @ v) \<le> u64_max" "wire_frame m w"
  shows "decode_message (w @ v) = (if v \<noteq> [] \<and> \<not> is_ignored m then Inl (TrailingBytes (length v)) else Inr m)"
proof -
  have "rd_bind (rd_byte ''message tag'') decode_body (rd_new (w @ v)) = Inr (m, rd_skip (length w) (rd_new (w @ v)))"
    using exact_frame assms unfolding exact_def accepts_def by (metis rd_new_rest)
  then show ?thesis
    by (simp add: decode_message_def rd_is_empty_def rd_remaining_def rd_skip_def rd_new_def)
qed

lemma decode_frame_only:
  assumes "length bs \<le> u64_max" "decode_message bs = Inr m"
  shows "\<exists>w v. bs = w @ v \<and> wire_frame m w \<and> (v = [] \<or> is_ignored m)"
proof -
  obtain r where r: "rd_bind (rd_byte ''message tag'') decode_body (rd_new bs) = Inr (m, r)" "rd_is_empty r \<or> is_ignored m"
    using assms(2) by (auto simp: decode_message_def split: sum.splits if_splits)
  then obtain w v where w: "wire_frame m w" "bs = w @ v" "r = rd_skip (length w) (rd_new bs)"
    using exact_frame assms(1) unfolding exact_def only_def by (metis rd_new_rest)
  then have "rd_remaining r = length v"
    by (simp add: rd_remaining_def rd_skip_def rd_new_def)
  then show ?thesis
    using r(2) w by (auto simp: rd_is_empty_def)
qed

lemma decode_prefix:
  assumes "length bs \<le> u64_max" "wire_frame m (bs @ v)" "v \<noteq> []"
  shows "\<exists>f. decode_message bs = Inl (Truncated f)"
proof -
  obtain f where "rd_bind (rd_byte ''message tag'') decode_body (rd_new bs) = Inl (Truncated f)"
    using exact_frame assms unfolding exact_def truncates_def by (metis rd_new_rest)
  then show ?thesis
    by (simp add: decode_message_def)
qed

lemma wire_message_frame:
  "wire_message m bs \<longleftrightarrow> (\<exists>w v. bs = w @ v \<and> wire_frame m w \<and> (v = [] \<or> is_ignored m))"
proof (cases "is_ignored m")
  case True
  then obtain tag where "m = MsgIgnored tag"
    by (cases m) auto
  then show ?thesis
    by (auto simp: wire_frame_def length_Suc_conv; metis append_Cons append_Nil)
qed (auto simp: wire_frame_def)

text \<open>
  C25.  The decoder and the wire format agree in both directions: the decoder returns a message exactly
  on the byte strings the protocol's format gives that message, for every kind of message and any number
  of columns and tuple values.
\<close>

theorem decode_message_exact:
  assumes "length bs \<le> u64_max"
  shows "decode_message bs = Inr m \<longleftrightarrow> wire_message m bs"
  using decode_frame_only [OF assms] decode_frame assms unfolding wire_message_frame by fastforce

lemmas decode_defs = decode_message_def decode_body_def decode_insert_def decode_begin_def decode_origin_def
  decode_tuple_def decode_value_def expect_marker_def rd_byte_def rd_u16_def rd_u32_def rd_u64_def rd_i64_def
  rd_bytes_def rd_cstring_def rd_bind_def rd_return_def rd_fail_def rd_new_def rd_is_empty_def rd_remaining_def

lemma rd_times_numeral:
  "rd_times (numeral k) d = rd_bind d (\<lambda>a. rd_bind (rd_times (pred_numeral k) d) (\<lambda>as. rd_return (a # as)))"
  by (simp add: numeral_eq_Suc)

lemma decode_insert_example: "decode_message [73, 0, 0, 0, 7, 78, 0, 2, 110, 116, 0, 0, 0, 2, 104, 105]
    = Inr (MsgInsert 7 [ValNull, ValText ''hi''])"
  by (simp add: decode_defs byte_of_def from_be_def u64_max_def rd_times_numeral valid_utf8.simps string_of_bytes_def
      char_of_eq_iff)

theorem decode_message_exact_witness:
  "wire_message (MsgInsert 7 [ValNull, ValText ''hi'']) [73, 0, 0, 0, 7, 78, 0, 2, 110, 116, 0, 0, 0, 2, 104, 105]"
  using decode_insert_example by (subst (asm) decode_message_exact) (simp_all add: u64_max_def)

text \<open>
  C26.  Framing.  For the messages the decoder reads (begin, commit, relation, insert, update, delete,
  origin) every proper prefix is rejected as truncated, and a message followed by further bytes is rejected
  with their number.  For the types it skips (type, truncate, logical message) only the tag is read: the
  message is accepted with whatever follows the tag, cut short or extended, and only the empty prefix is
  rejected.
\<close>

theorem decode_message_framing:
  assumes "wire_message m w" "length (w @ extra) \<le> u64_max" "k < length w" "extra \<noteq> []"
  shows "if is_ignored m
    then decode_message (take k w) = (if k = 0 then Inl (Truncated ''message tag'') else Inr m)
      \<and> decode_message (w @ extra) = Inr m
    else (\<exists>field. decode_message (take k w) = Inl (Truncated field))
      \<and> decode_message (w @ extra) = Inl (TrailingBytes (length extra))"
proof (cases "is_ignored m")
  case True
  then obtain tag where m: "m = MsgIgnored tag"
    by (cases m) auto
  obtain body where w: "w = tag # body"
    using assms(1) m by auto
  have frame: "wire_frame m [tag]"
    using assms(1) m by (simp add: wire_frame_def)
  have accepted: "decode_message (tag # v) = Inr m" if "length (tag # v) \<le> u64_max" for v
    using decode_frame [of "[tag]" v m] that frame True by simp
  have "decode_message (take k w) = (if k = 0 then Inl (Truncated ''message tag'') else Inr m)"
  proof (cases k)
    case 0
    then show ?thesis
      by (simp add: decode_defs)
  next
    case (Suc j)
    then show ?thesis
      using accepted [of "take j body"] w assms(2) by (simp add: min_def)
  qed
  then show ?thesis
    using True accepted [of "body @ extra"] w assms(2) by simp
next
  case False
  then have frame: "wire_frame m w"
    using assms(1) by (simp add: wire_frame_def)
  then have "\<exists>field. decode_message (take k w) = Inl (Truncated field)"
    using assms(2,3) by (intro decode_prefix [of _ m "drop k w"]) auto
  then show ?thesis
    using decode_frame [OF assms(2) frame] assms(4) False by simp
qed

theorem decode_message_framing_witness:
  "(\<exists>field. decode_message [79, 0, 0] = Inl (Truncated field))
    \<and> decode_message [79, 0, 0, 0, 0, 0, 0, 0, 1, 104, 0, 9, 9] = Inl (TrailingBytes 2)
    \<and> decode_message [84, 5] = Inr (MsgIgnored 84) \<and> decode_message [84, 5, 6, 7] = Inr (MsgIgnored 84)"
proof -
  have "wire_message (MsgOrigin ''h'') [79, 0, 0, 0, 0, 0, 0, 0, 1, 104, 0]"
    by (simp add: wire_cstring_def utf8_def byte_of_def valid_utf8.simps)
  moreover have "wire_message (MsgIgnored 84) [84, 5, 6]"
    by (simp add: byte_of_def)
  ultimately show ?thesis
    using decode_message_framing [of "MsgOrigin ''h''" "[79, 0, 0, 0, 0, 0, 0, 0, 1, 104, 0]" "[9, 9]" 3]
      decode_message_framing [of "MsgIgnored 84" "[84, 5, 6]" "[7]" 2]
    by (simp add: u64_max_def)
qed

end
