(* ===== verification/Compaction.thy ===== *)
theory Compaction
  imports Prelude
begin

text \<open>
  Compaction planning (\<open>koldstore-flush/src/compaction.rs\<close>): the key-box test of two segments, the
  overlap components found by a sweep over the sorted segments with a union-find forest, the
  disjointness test, and the choice of the units to rewrite.  An array access that may fail and a loop
  that may not end give an option: \<open>None\<close> is a panic or a loop that does not return.
\<close>

subsection \<open>Segments\<close>

record SegmentRange =
  seg_row_count :: int
  seg_bounds :: "(bytes \<times> bytes) list"
  seg_tuple :: "(bytes \<times> bytes) option"

definition seg_single :: "int \<Rightarrow> bytes \<Rightarrow> bytes \<Rightarrow> SegmentRange" where
  "seg_single row_count mn mx = \<lparr>seg_row_count = row_count, seg_bounds = [(mn, mx)], seg_tuple = None\<rparr>"

definition intervals_meet :: "bytes \<times> bytes \<Rightarrow> bytes \<times> bytes \<Rightarrow> bool" where
  "intervals_meet a b \<longleftrightarrow> fst a \<le> snd b \<and> fst b \<le> snd a"

definition may_share_keys :: "SegmentRange \<Rightarrow> SegmentRange \<Rightarrow> bool" where
  "may_share_keys s t \<longleftrightarrow>
     (if \<not> (length (seg_bounds s) = length (seg_bounds t)
            \<and> list_all (\<lambda>(a, b). intervals_meet a b) (zip (seg_bounds s) (seg_bounds t)))
      then False
      else case (seg_tuple s, seg_tuple t) of (Some a, Some b) \<Rightarrow> intervals_meet a b | _ \<Rightarrow> True)"

subsection \<open>Overlap components\<close>

partial_function (option) uf_find :: "nat list \<Rightarrow> nat \<Rightarrow> (nat list \<times> nat) option" where
  "uf_find parent node =
     (if node \<ge> length parent then None
      else if parent ! node = node then Some (parent, node)
      else if parent ! node \<ge> length parent then None
      else let parent = parent[node := parent ! (parent ! node)] in uf_find parent (parent ! node))"

definition retain_active :: "SegmentRange list \<Rightarrow> bytes \<Rightarrow> nat list \<Rightarrow> nat list" where
  "retain_active segments lead_min active =
     filter (\<lambda>k. case seg_bounds (segments ! k) of [] \<Rightarrow> False | b # _ \<Rightarrow> snd b \<ge> lead_min) active"

definition uf_union :: "nat list \<Rightarrow> nat \<Rightarrow> nat \<Rightarrow> nat list option" where
  "uf_union parent i k =
     (case uf_find parent i of
        None \<Rightarrow> None
      | Some (parent, a) \<Rightarrow>
          (case uf_find parent k of
             None \<Rightarrow> None
           | Some (parent, b) \<Rightarrow> Some (if a \<noteq> b then parent[max a b := min a b] else parent)))"

fun union_active :: "SegmentRange list \<Rightarrow> nat \<Rightarrow> nat list \<Rightarrow> nat list \<Rightarrow> nat list option" where
  "union_active segments i [] parent = Some parent"
| "union_active segments i (k # ks) parent =
     (case (if may_share_keys (segments ! i) (segments ! k) then uf_union parent i k else Some parent) of
        None \<Rightarrow> None
      | Some parent \<Rightarrow> union_active segments i ks parent)"

fun sweep :: "SegmentRange list \<Rightarrow> nat list \<Rightarrow> nat list \<Rightarrow> nat list \<Rightarrow> nat list option" where
  "sweep segments [] active parent = Some parent"
| "sweep segments (i # is) active parent =
     (case seg_bounds (segments ! i) of
        [] \<Rightarrow> sweep segments is active parent
      | lead # _ \<Rightarrow>
          let active = retain_active segments (fst lead) active in
          (case union_active segments i active parent of
             None \<Rightarrow> None
           | Some parent \<Rightarrow> sweep segments is (active @ [i]) parent))"

fun group_roots :: "nat list \<Rightarrow> nat list \<Rightarrow> nat list \<Rightarrow> (nat \<rightharpoonup> nat list) \<Rightarrow> (nat list \<times> (nat \<rightharpoonup> nat list)) option" where
  "group_roots [] parent order groups = Some (order, groups)"
| "group_roots (i # is) parent order groups =
     (case uf_find parent i of
        None \<Rightarrow> None
      | Some (parent, root) \<Rightarrow>
          let group = (case groups root of None \<Rightarrow> [] | Some g \<Rightarrow> g);
              order = (if group = [] then order @ [root] else order)
          in group_roots is parent order (groups(root \<mapsto> group @ [i])))"

fun take_groups :: "nat list \<Rightarrow> (nat \<rightharpoonup> nat list) \<Rightarrow> nat list list" where
  "take_groups [] groups = []"
| "take_groups (r # rs) groups =
     (case groups r of
        None \<Rightarrow> take_groups rs groups
      | Some g \<Rightarrow> g # take_groups rs (groups(r := None)))"

definition overlap_components :: "SegmentRange list \<Rightarrow> nat list list option" where
  "overlap_components segments =
     (case sweep segments [0..<length segments] [] [0..<length segments] of
        None \<Rightarrow> None
      | Some parent \<Rightarrow>
          (case group_roots [0..<length segments] parent [] Map.empty of
             None \<Rightarrow> None
           | Some (order, groups) \<Rightarrow> Some (take_groups order groups)))"

subsection \<open>Disjointness\<close>

text \<open>The scan of the active segments: the updated count of examined pairs, or the value the function
  returns early.\<close>

fun examine_active :: "SegmentRange list \<Rightarrow> nat \<Rightarrow> nat \<Rightarrow> nat list \<Rightarrow> nat \<Rightarrow> bool option + nat" where
  "examine_active segments max_pairs i [] examined = Inr examined"
| "examine_active segments max_pairs i (k # ks) examined =
     (let examined = examined + 1 in
      if examined > max_pairs then Inl None
      else if may_share_keys (segments ! i) (segments ! k) then Inl (Some False)
      else examine_active segments max_pairs i ks examined)"

fun disjoint_sweep :: "SegmentRange list \<Rightarrow> nat \<Rightarrow> nat list \<Rightarrow> nat list \<Rightarrow> nat \<Rightarrow> bool option" where
  "disjoint_sweep segments max_pairs [] active examined = Some True"
| "disjoint_sweep segments max_pairs (i # is) active examined =
     (case seg_bounds (segments ! i) of
        [] \<Rightarrow> None
      | lead # _ \<Rightarrow>
          let active = retain_active segments (fst lead) active in
          (case examine_active segments max_pairs i active examined of
             Inl r \<Rightarrow> r
           | Inr examined \<Rightarrow> disjoint_sweep segments max_pairs is (active @ [i]) examined))"

definition keys_disjoint :: "SegmentRange list \<Rightarrow> nat \<Rightarrow> bool option" where
  "keys_disjoint segments max_pairs = disjoint_sweep segments max_pairs [0..<length segments] [] 0"

subsection \<open>Units\<close>

record CompactionUnit =
  unit_members :: "nat list"
  unit_rows :: int
  unit_overlapping :: bool

record CompactionPlan =
  plan_units :: "CompactionUnit list"
  plan_skipped_over_cap :: nat
  plan_oversized :: "CompactionUnit list"

definition wrap_i64 :: "int \<Rightarrow> int" where
  "wrap_i64 x = (x + 2 ^ 63) mod 2 ^ 64 - 2 ^ 63"

definition saturating_mul_i64 :: "int \<Rightarrow> int \<Rightarrow> int" where
  "saturating_mul_i64 x y = sat_i64 (x * y)"

definition close_run :: "nat list \<Rightarrow> int \<Rightarrow> CompactionPlan \<Rightarrow> CompactionPlan" where
  "close_run run run_rows plan =
     (if length run \<ge> 2
      then plan\<lparr>plan_units := plan_units plan @ [\<lparr>unit_members = run, unit_rows = run_rows, unit_overlapping = False\<rparr>]\<rparr>
      else plan)"

definition component_rows :: "SegmentRange list \<Rightarrow> nat list \<Rightarrow> int" where
  "component_rows segments component = foldl (\<lambda>s i. wrap_i64 (s + seg_row_count (segments ! i))) 0 component"

fun plan_components :: "SegmentRange list \<Rightarrow> int \<Rightarrow> int \<Rightarrow> nat list list \<Rightarrow> nat list \<Rightarrow> int \<Rightarrow> CompactionPlan \<Rightarrow> CompactionPlan" where
  "plan_components segments target cap [] run run_rows plan = close_run run run_rows plan"
| "plan_components segments target cap (component # cs) run run_rows plan =
     (let rows = component_rows segments component in
      if length component > 1 then
        (let plan = close_run run run_rows plan;
             u = \<lparr>unit_members = component, unit_rows = rows, unit_overlapping = True\<rparr>;
             plan = (if rows > cap
                     then plan\<lparr>plan_skipped_over_cap := plan_skipped_over_cap plan + 1, plan_oversized := plan_oversized plan @ [u]\<rparr>
                     else plan\<lparr>plan_units := plan_units plan @ [u]\<rparr>)
         in plan_components segments target cap cs [] 0 plan)
      else
        let index = component ! 0;
            row_count = seg_row_count (segments ! index)
        in if saturating_mul_i64 row_count 2 > target
           then plan_components segments target cap cs [] 0 (close_run run run_rows plan)
           else if wrap_i64 (run_rows + row_count) > min target cap
           then plan_components segments target cap cs [index] row_count (close_run run run_rows plan)
           else plan_components segments target cap cs (run @ [index]) (wrap_i64 (run_rows + row_count)) plan)"

definition plan_compaction_units :: "SegmentRange list \<Rightarrow> int \<Rightarrow> int \<Rightarrow> CompactionPlan option" where
  "plan_compaction_units segments max_rows_per_file max_unit_rows =
     (case overlap_components segments of
        None \<Rightarrow> None
      | Some components \<Rightarrow>
          Some (plan_components segments (max max_rows_per_file 1) (max max_unit_rows 1) components [] 0
            \<lparr>plan_units = [], plan_skipped_over_cap = 0, plan_oversized = []\<rparr>))"

subsection \<open>The union-find forest\<close>

text \<open>Every link of the forest goes to a smaller index, so following links ends.\<close>

definition forest :: "nat \<Rightarrow> nat list \<Rightarrow> bool" where
  "forest n p \<longleftrightarrow> length p = n \<and> (\<forall>i<n. p ! i \<le> i)"

function uf_root :: "nat list \<Rightarrow> nat \<Rightarrow> nat" where
  "uf_root p i = (if i < length p \<and> p ! i < i then uf_root p (p ! i) else i)"
  by auto
termination
  by (relation "measure snd") auto

declare uf_root.simps [simp del]

lemma uf_root_eq: "forest n p \<Longrightarrow> i < n \<Longrightarrow> uf_root p (p ! i) = uf_root p i"
  using uf_root.simps [of p i] by (cases "p ! i < i") (auto simp: forest_def order.order_iff_strict)

lemma uf_root_fix: "p ! i = i \<Longrightarrow> uf_root p i = i"
  by (simp add: uf_root.simps)

lemma uf_root_le: "uf_root p i \<le> i"
proof (induction p i rule: uf_root.induct)
  case (1 p i)
  then show ?case
    by (subst uf_root.simps) (auto intro: order.trans)
qed

lemma uf_root_root: "forest n p \<Longrightarrow> i < n \<Longrightarrow> p ! uf_root p i = uf_root p i"
proof (induction p i rule: uf_root.induct)
  case (1 p i)
  show ?case
  proof (cases "p ! i < i")
    case True
    then show ?thesis
      using 1 uf_root.simps [of p i] by (auto simp: forest_def)
  next
    case False
    then show ?thesis
      using 1(2,3) uf_root.simps [of p i] by (auto simp: forest_def intro!: le_antisym)
  qed
qed

lemma uf_root_idem: "forest n p \<Longrightarrow> i < n \<Longrightarrow> uf_root p (uf_root p i) = uf_root p i"
  by (rule uf_root_fix) (rule uf_root_root)

lemma forest_update: "forest n p \<Longrightarrow> v \<le> k \<Longrightarrow> forest n (p[k := v])"
  unfolding forest_def by (cases "k < length p") (auto simp: nth_list_update)

text \<open>Path halving keeps every root; linking a root below another merges exactly their classes.\<close>

lemma uf_root_halve:
  assumes "forest n p" "k < n"
  shows "uf_root (p[k := p ! (p ! k)]) i = uf_root p i"
proof (induction i rule: less_induct)
  case (less i)
  let ?q = "p[k := p ! (p ! k)]"
  have pk: "p ! k \<le> k" "p ! k < n" "p ! (p ! k) \<le> p ! k"
    using assms by (auto simp: forest_def intro: le_less_trans)
  have q: "forest n ?q"
    using forest_update [OF assms(1)] pk by force
  show ?case
  proof (cases "i < n \<and> ?q ! i < i")
    case True
    have "uf_root p (?q ! i) = uf_root p i"
      using True uf_root_eq [OF assms(1)] pk assms by (cases "i = k") (auto simp: forest_def)
    then show ?thesis
      using less.IH [of "?q ! i"] True uf_root_eq [OF q, of i] by simp
  next
    case False
    then have "i < n \<Longrightarrow> p ! i = i"
      using q pk assms by (cases "i = k") (auto simp: forest_def intro: le_antisym)
    moreover have "uf_root ?q i = i"
      using False assms(1) by (subst uf_root.simps) (auto simp: forest_def)
    ultimately show ?thesis
      using assms(1) by (subst (2) uf_root.simps) (auto simp: forest_def)
  qed
qed

lemma uf_root_link:
  assumes "forest n p" "a < b" "b < n" "p ! a = a" "p ! b = b" "i < n"
  shows "uf_root (p[b := a]) i = (if uf_root p i = b then a else uf_root p i)"
  using assms(6)
proof (induction i rule: less_induct)
  case (less i)
  have len: "length p = n"
    using assms(1) by (simp add: forest_def)
  have le: "p ! i \<le> i"
    using assms(1) less.prems by (simp add: forest_def)
  have a: "uf_root (p[b := a]) a = a"
    using assms by (intro uf_root_fix) simp
  consider "i = b" | "i \<noteq> b" "p ! i = i" | "i \<noteq> b" "p ! i < i"
    using le by fastforce
  then show ?case
  proof cases
    case 1
    then show ?thesis
      using assms a len uf_root_fix [of p b] by (subst uf_root.simps) auto
  next
    case 2
    then show ?thesis
      using uf_root_fix [of p i] uf_root_fix [of "p[b := a]" i] by simp
  next
    case 3
    then have "uf_root (p[b := a]) i = uf_root (p[b := a]) (p ! i)" "uf_root p i = uf_root p (p ! i)"
      using less.prems len uf_root.simps [of "p[b := a]" i] uf_root.simps [of p i] by auto
    then show ?thesis
      using less.IH [of "p ! i"] 3 less.prems by simp
  qed
qed

lemma uf_find_root:
  assumes "forest n p" "i < n"
  shows "\<exists>q. uf_find p i = Some (q, uf_root p i) \<and> forest n q \<and> (\<forall>j. uf_root q j = uf_root p j)"
  using assms
proof (induction i arbitrary: p rule: less_induct)
  case (less i)
  have len: "length p = n" and pi: "p ! i \<le> i" "p ! i < n" "p ! (p ! i) \<le> p ! i"
    using less.prems by (auto simp: forest_def intro: le_less_trans)
  show ?case
  proof (cases "p ! i = i")
    case True
    then show ?thesis
      using less.prems len uf_root_fix by (simp add: uf_find.simps)
  next
    case False
    let ?q = "p[i := p ! (p ! i)]"
    have q: "forest n ?q" "?q ! i < i"
      using forest_update [OF less.prems(1)] pi False less.prems len by auto
    have step: "uf_find p i = uf_find ?q (?q ! i)"
      using False less.prems len pi by (subst uf_find.simps) (simp add: Let_def)
    have root: "uf_root ?q j = uf_root p j" for j
      by (rule uf_root_halve [OF less.prems])
    then have "uf_root ?q (?q ! i) = uf_root p i"
      using uf_root_eq [OF q(1) less.prems(2)] by simp
    then show ?thesis
      using less.IH [OF q(2) q(1)] q(2) less.prems(2) root step by fastforce
  qed
qed

lemma uf_union_root:
  assumes "forest n p" "i < n" "k < n"
  obtains q where "uf_union p i k = Some q" "forest n q"
    "\<And>j. j < n \<Longrightarrow> uf_root q j =
       (if uf_root p j = max (uf_root p i) (uf_root p k) then min (uf_root p i) (uf_root p k) else uf_root p j)"
proof -
  obtain p1 where p1: "uf_find p i = Some (p1, uf_root p i)" "forest n p1" "\<forall>j. uf_root p1 j = uf_root p j"
    using uf_find_root [OF assms(1,2)] by blast
  obtain p2 where p2: "uf_find p1 k = Some (p2, uf_root p k)" "forest n p2" "\<forall>j. uf_root p2 j = uf_root p j"
    using uf_find_root [OF p1(2) assms(3)] p1(3) by force
  let ?a = "uf_root p i" and ?b = "uf_root p k"
  have u: "uf_union p i k = Some (if ?a \<noteq> ?b then p2[max ?a ?b := min ?a ?b] else p2)"
    by (simp add: uf_union_def p1(1) p2(1))
  have bound: "?a < n" "?b < n"
    using uf_root_le assms by (meson le_less_trans)+
  have roots: "p2 ! ?a = ?a" "p2 ! ?b = ?b"
    using uf_root_root [OF p2(2)] p2(3) assms by metis+
  show ?thesis
  proof (cases "?a = ?b")
    case True
    then show ?thesis
      using that [of p2] u p2(2,3) by simp
  next
    case False
    have "forest n (p2[max ?a ?b := min ?a ?b])"
      by (rule forest_update [OF p2(2)]) simp
    moreover have "uf_root (p2[max ?a ?b := min ?a ?b]) j
        = (if uf_root p j = max ?a ?b then min ?a ?b else uf_root p j)" if "j < n" for j
      using uf_root_link [OF p2(2), of "min ?a ?b" "max ?a ?b" j] False bound roots that p2(3)
      by (cases "?a < ?b") (simp_all add: min_def max_def)
    ultimately show ?thesis
      using that u False by simp
  qed
qed

subsection \<open>The sweep\<close>

lemma intervals_meet_sym: "intervals_meet a b = intervals_meet b a"
  by (auto simp: intervals_meet_def)

lemma may_share_keys_sym: "may_share_keys s t = may_share_keys t s"
proof -
  have "list_all (\<lambda>(a, b). intervals_meet a b) (zip xs ys) = list_all (\<lambda>(a, b). intervals_meet a b) (zip ys xs)"
    if "length xs = length ys" for xs ys
    using that by (induction xs ys rule: list_induct2) (auto simp: intervals_meet_sym)
  then show ?thesis
    by (auto simp: may_share_keys_def intervals_meet_sym split: option.splits)
qed

definition has_bounds :: "SegmentRange list \<Rightarrow> nat \<Rightarrow> bool" where
  "has_bounds segs i \<longleftrightarrow> i < length segs \<and> seg_bounds (segs ! i) \<noteq> []"

definition shares :: "SegmentRange list \<Rightarrow> nat \<Rightarrow> nat \<Rightarrow> bool" where
  "shares segs i j \<longleftrightarrow> has_bounds segs i \<and> has_bounds segs j \<and> may_share_keys (segs ! i) (segs ! j)"

lemma shares_sym: "shares segs i j \<Longrightarrow> shares segs j i"
  by (simp add: shares_def may_share_keys_sym)

lemma shares_chain_sym: "(shares segs)\<^sup>*\<^sup>* i j \<Longrightarrow> (shares segs)\<^sup>*\<^sup>* j i"
  by (induction rule: rtranclp_induct) (auto intro: converse_rtranclp_into_rtranclp shares_sym)

text \<open>The order the planner expects: ascending minima of the leading key column.\<close>

definition lead_sorted :: "SegmentRange list \<Rightarrow> bool" where
  "lead_sorted segs \<longleftrightarrow> (\<forall>j<length segs. \<forall>i<j. has_bounds segs i \<longrightarrow> has_bounds segs j \<longrightarrow>
     fst (hd (seg_bounds (segs ! i))) \<le> fst (hd (seg_bounds (segs ! j))))"

definition covers :: "SegmentRange list \<Rightarrow> nat \<Rightarrow> nat list \<Rightarrow> bool" where
  "covers segs i active \<longleftrightarrow> (\<forall>k\<in>set active. k < i \<and> has_bounds segs k)
     \<and> (\<forall>k<i. k \<notin> set active \<longrightarrow> (\<forall>j\<ge>i. \<not> shares segs k j))"

lemma shares_lead:
  assumes "shares segs k j"
  shows "fst (hd (seg_bounds (segs ! j))) \<le> snd (hd (seg_bounds (segs ! k)))"
proof -
  obtain a as where a: "seg_bounds (segs ! k) = a # as"
    using assms by (auto simp: shares_def has_bounds_def neq_Nil_conv)
  obtain b bs where b: "seg_bounds (segs ! j) = b # bs"
    using assms by (auto simp: shares_def has_bounds_def neq_Nil_conv)
  show ?thesis
    using assms by (auto simp: shares_def may_share_keys_def intervals_meet_def a b split: if_splits)
qed

lemma covers_retain:
  assumes "covers segs i active" "lead_sorted segs" "has_bounds segs i"
  shows "covers segs i (retain_active segs (fst (hd (seg_bounds (segs ! i)))) active)"
proof -
  let ?lead = "fst (hd (seg_bounds (segs ! i)))"
  have "\<not> shares segs k j" if k: "k < i" "i \<le> j" "k \<notin> set (retain_active segs ?lead active)" for k j
  proof
    assume share: "shares segs k j"
    then have bounds: "has_bounds segs k" "has_bounds segs j"
      by (auto simp: shares_def)
    then have "k \<in> set active"
      using assms(1) k share by (auto simp: covers_def)
    then have "snd (hd (seg_bounds (segs ! k))) < ?lead"
      using k(3) bounds(1) by (auto simp: retain_active_def has_bounds_def neq_Nil_conv)
    also have "?lead \<le> fst (hd (seg_bounds (segs ! j)))"
      using assms(2,3) k(2) bounds(2) by (cases "i = j") (auto simp: lead_sorted_def has_bounds_def)
    finally show False
      using shares_lead [OF share] by simp
  qed
  then show ?thesis
    using assms(1) by (auto simp: covers_def retain_active_def)
qed

lemma covers_push: "covers segs i active \<Longrightarrow> has_bounds segs i \<Longrightarrow> covers segs (Suc i) (active @ [i])"
  by (auto simp: covers_def less_Suc_eq)

lemma covers_skip: "covers segs i active \<Longrightarrow> \<not> has_bounds segs i \<Longrightarrow> covers segs (Suc i) active"
  by (auto simp: covers_def less_Suc_eq shares_def)

definition sound_forest :: "SegmentRange list \<Rightarrow> nat list \<Rightarrow> bool" where
  "sound_forest segs p \<longleftrightarrow> forest (length segs) p
     \<and> (\<forall>x<length segs. \<forall>y<length segs. uf_root p x = uf_root p y \<longrightarrow> (shares segs)\<^sup>*\<^sup>* x y)"

definition coarser :: "nat \<Rightarrow> nat list \<Rightarrow> nat list \<Rightarrow> bool" where
  "coarser n p q \<longleftrightarrow> (\<forall>x<n. \<forall>y<n. uf_root p x = uf_root p y \<longrightarrow> uf_root q x = uf_root q y)"

lemma uf_union_step:
  assumes "sound_forest segs p" "shares segs i k"
  shows "\<exists>q. uf_union p i k = Some q \<and> sound_forest segs q \<and> coarser (length segs) p q \<and> uf_root q i = uf_root q k"
proof -
  let ?n = "length segs"
  have p: "forest ?n p" and ik: "i < ?n" "k < ?n"
    using assms by (auto simp: sound_forest_def shares_def has_bounds_def)
  obtain q where q: "uf_union p i k = Some q" "forest ?n q"
    "\<And>j. j < ?n \<Longrightarrow> uf_root q j =
       (if uf_root p j = max (uf_root p i) (uf_root p k) then min (uf_root p i) (uf_root p k) else uf_root p j)"
    using uf_union_root [OF p ik] by blast
  have chain: "(shares segs)\<^sup>*\<^sup>* x y" if "x < ?n" "y < ?n" "uf_root p x = uf_root p y" for x y
    using assms(1) that by (auto simp: sound_forest_def)
  have link: "(shares segs)\<^sup>*\<^sup>* x y"
    if "x < ?n" "y < ?n" "uf_root p x = uf_root p i" "uf_root p y = uf_root p k" for x y
    using chain [OF that(1) ik(1) that(3)] chain [OF ik(2) that(2) that(4) [symmetric]] assms(2)
    by (meson rtranclp.rtrancl_into_rtrancl rtranclp_trans)
  have "(shares segs)\<^sup>*\<^sup>* x y" if xy: "x < ?n" "y < ?n" "uf_root q x = uf_root q y" for x y
  proof -
    have "uf_root p x = uf_root p y \<or> uf_root p x = uf_root p i \<and> uf_root p y = uf_root p k
        \<or> uf_root p x = uf_root p k \<and> uf_root p y = uf_root p i"
      using xy(3) unfolding q(3) [OF xy(1)] q(3) [OF xy(2)]
      by (cases "uf_root p i \<le> uf_root p k") (simp_all add: min_def max_def split: if_splits)
    then show ?thesis
      using chain link shares_chain_sym xy by blast
  qed
  then have "sound_forest segs q"
    using q(2) by (simp add: sound_forest_def)
  moreover have "coarser ?n p q"
    using q(3) by (simp add: coarser_def)
  moreover have "uf_root q i = uf_root q k"
    unfolding q(3) [OF ik(1)] q(3) [OF ik(2)]
    by (cases "uf_root p i \<le> uf_root p k") (simp_all add: min_def max_def)
  ultimately show ?thesis
    using q(1) by blast
qed

lemma union_active_step:
  assumes "sound_forest segs p" "has_bounds segs i" "\<forall>k\<in>set ks. has_bounds segs k"
  shows "\<exists>q. union_active segs i ks p = Some q \<and> sound_forest segs q \<and> coarser (length segs) p q
    \<and> (\<forall>k\<in>set ks. shares segs i k \<longrightarrow> uf_root q i = uf_root q k)"
  using assms
proof (induction ks arbitrary: p)
  case Nil
  then show ?case
    by (simp add: coarser_def)
next
  case (Cons k ks)
  let ?n = "length segs"
  have "\<exists>p1. (if may_share_keys (segs ! i) (segs ! k) then uf_union p i k else Some p) = Some p1
    \<and> sound_forest segs p1 \<and> coarser ?n p p1 \<and> (shares segs i k \<longrightarrow> uf_root p1 i = uf_root p1 k)"
  proof (cases "may_share_keys (segs ! i) (segs ! k)")
    case True
    then have "shares segs i k"
      using Cons.prems(2,3) by (simp add: shares_def)
    then show ?thesis
      using uf_union_step [OF Cons.prems(1)] True by simp
  next
    case False
    then show ?thesis
      using Cons.prems(1) by (simp add: shares_def coarser_def)
  qed
  then obtain p1 where p1: "(if may_share_keys (segs ! i) (segs ! k) then uf_union p i k else Some p) = Some p1"
    "sound_forest segs p1" "coarser ?n p p1" "shares segs i k \<longrightarrow> uf_root p1 i = uf_root p1 k"
    by blast
  obtain q where q: "union_active segs i ks p1 = Some q" "sound_forest segs q" "coarser ?n p1 q"
    "\<forall>k\<in>set ks. shares segs i k \<longrightarrow> uf_root q i = uf_root q k"
    using Cons.IH [OF p1(2) Cons.prems(2)] Cons.prems(3) unfolding list.set by blast
  have "shares segs i k \<longrightarrow> uf_root q i = uf_root q k"
    using p1(4) q(3) by (auto simp: coarser_def shares_def has_bounds_def)
  moreover have "union_active segs i (k # ks) p = Some q"
    using p1(1) q(1) by simp
  moreover have "coarser ?n p q"
    using p1(3) q(3) unfolding coarser_def by blast
  ultimately show ?case
    using q(2,4) by simp
qed

lemma sweep_step:
  assumes "lead_sorted segs" "i \<le> length segs" "sound_forest segs p" "covers segs i active"
    "\<forall>x<i. \<forall>y<i. shares segs x y \<longrightarrow> uf_root p x = uf_root p y"
  shows "\<exists>q. sweep segs [i..<length segs] active p = Some q \<and> sound_forest segs q
    \<and> (\<forall>x y. shares segs x y \<longrightarrow> uf_root q x = uf_root q y)"
  using assms(2-)
proof (induction "length segs - i" arbitrary: i active p)
  case 0
  then show ?case
    by (auto simp: shares_def has_bounds_def)
next
  case (Suc d)
  let ?n = "length segs"
  have i: "i < ?n" "d = ?n - Suc i"
    using Suc.hyps(2) by auto
  show ?case
  proof (cases "has_bounds segs i")
    case False
    then have "sweep segs [i..<?n] active p = sweep segs [Suc i..<?n] active p"
      using i(1) by (simp add: upt_conv_Cons has_bounds_def)
    moreover have "\<forall>x<Suc i. \<forall>y<Suc i. shares segs x y \<longrightarrow> uf_root p x = uf_root p y"
      using Suc.prems(4) False by (auto simp: less_Suc_eq shares_def)
    ultimately show ?thesis
      using Suc.hyps(1) [OF i(2) _ Suc.prems(2) covers_skip [OF Suc.prems(3) False]] i(1) by simp
  next
    case True
    let ?active = "retain_active segs (fst (hd (seg_bounds (segs ! i)))) active"
    have cov: "covers segs i ?active"
      by (rule covers_retain [OF Suc.prems(3) assms(1) True])
    then have "\<forall>k\<in>set ?active. has_bounds segs k"
      by (simp add: covers_def)
    from union_active_step [OF Suc.prems(2) True this]
    obtain q where q: "union_active segs i ?active p = Some q" "sound_forest segs q" "coarser ?n p q"
      "\<forall>k\<in>set ?active. shares segs i k \<longrightarrow> uf_root q i = uf_root q k"
      by blast
    have old: "uf_root q i = uf_root q x" if "x < i" "shares segs i x" for x
      using that q(4) cov shares_sym [OF that(2)] unfolding covers_def by blast
    have "uf_root q x = uf_root q y" if "x < Suc i" "y < Suc i" "shares segs x y" for x y
    proof (cases "x = i \<or> y = i")
      case True
      then show ?thesis
        using that old shares_sym [OF that(3)] by (auto simp: less_Suc_eq)
    next
      case False
      then show ?thesis
        using that Suc.prems(4) q(3) i(1) by (auto simp: less_Suc_eq coarser_def)
    qed
    moreover have "sweep segs [i..<?n] active p = sweep segs [Suc i..<?n] (?active @ [i]) q"
      using i(1) True q(1) by (auto simp: upt_conv_Cons has_bounds_def Let_def neq_Nil_conv)
    ultimately show ?thesis
      using Suc.hyps(1) [OF i(2) _ q(2) covers_push [OF cov True]] i(1) by simp
  qed
qed

definition classes_below :: "(nat \<Rightarrow> nat) \<Rightarrow> nat \<Rightarrow> nat \<rightharpoonup> nat list" where
  "classes_below f i = (\<lambda>r. if filter (\<lambda>x. f x = r) [0..<i] = [] then None else Some (filter (\<lambda>x. f x = r) [0..<i]))"

lemma group_roots_classes:
  assumes "i \<le> n" "forest n p"
  shows "group_roots [i..<n] p (filter (\<lambda>x. uf_root p x = x) [0..<i]) (classes_below (uf_root p) i)
    = Some (filter (\<lambda>x. uf_root p x = x) [0..<n], classes_below (uf_root p) n)"
  using assms
proof (induction "n - i" arbitrary: i p)
  case (Suc d)
  have i: "i < n" "d = n - Suc i"
    using Suc.hyps(2) by auto
  obtain q where q: "uf_find p i = Some (q, uf_root p i)" "forest n q" "\<forall>j. uf_root q j = uf_root p j"
    using uf_find_root [OF Suc.prems(2) i(1)] by blast
  then have f: "uf_root q = uf_root p"
    by auto
  let ?r = "uf_root p i" and ?g = "filter (\<lambda>x. uf_root p x = uf_root p i) [0..<i]"
  have first: "?g = [] \<longleftrightarrow> ?r = i"
  proof
    assume "?g = []"
    then show "?r = i"
      using uf_root_idem [OF Suc.prems(2) i(1)] uf_root_le [of p i]
      by (auto simp: filter_empty_conv order.order_iff_strict)
  next
    assume r: "?r = i"
    have "uf_root p x \<noteq> ?r" if "x < i" for x
      using uf_root_le [of p x] that r by simp
    then show "?g = []"
      by (simp add: filter_empty_conv)
  qed
  have "(classes_below (uf_root p) i)(?r \<mapsto> ?g @ [i]) = classes_below (uf_root p) (Suc i)"
    by (auto simp: classes_below_def fun_eq_iff filter_empty_conv)
  moreover have "(case classes_below (uf_root p) i ?r of None \<Rightarrow> [] | Some g \<Rightarrow> g) = ?g"
    by (simp add: classes_below_def)
  ultimately have "group_roots [i..<n] p (filter (\<lambda>x. uf_root p x = x) [0..<i]) (classes_below (uf_root p) i)
      = group_roots [Suc i..<n] q (filter (\<lambda>x. uf_root p x = x) [0..<Suc i]) (classes_below (uf_root p) (Suc i))"
    using i(1) q(1) first by (simp add: upt_conv_Cons Let_def)
  then show ?case
    using Suc.hyps(1) [OF i(2) _ q(2)] i(1) f by simp
qed (auto simp: group_roots.simps)

lemma take_groups_distinct:
  assumes "distinct rs" "\<forall>r\<in>set rs. groups r = Some (g r)"
  shows "take_groups rs groups = map g rs"
  using assms
proof (induction rs arbitrary: groups)
  case (Cons r rs)
  then have "\<forall>x\<in>set rs. (groups(r := None)) x = Some (g x)"
    by auto
  then show ?case
    using Cons by simp
qed simp

lemma overlap_components_roots:
  assumes "lead_sorted segs"
  obtains f where "overlap_components segs = Some (map (\<lambda>r. filter (\<lambda>i. f i = r) [0..<length segs])
      (filter (\<lambda>r. f r = r) [0..<length segs]))"
    "\<And>i. i < length segs \<Longrightarrow> f i \<le> i \<and> f (f i) = f i"
    "\<And>i j. i < length segs \<Longrightarrow> j < length segs \<Longrightarrow> f i = f j \<longleftrightarrow> (shares segs)\<^sup>*\<^sup>* i j"
proof -
  let ?n = "length segs"
  have root: "uf_root [0..<?n] i = i" if "i < ?n" for i
    using that by (simp add: uf_root_fix)
  have "sound_forest segs [0..<?n]"
    using root by (auto simp: sound_forest_def forest_def)
  then obtain p where p: "sweep segs [0..<?n] [] [0..<?n] = Some p" "sound_forest segs p"
    "\<forall>x y. shares segs x y \<longrightarrow> uf_root p x = uf_root p y"
    using sweep_step [OF assms, of 0 "[0..<?n]" "[]"] by (auto simp: covers_def)
  have f: "forest ?n p"
    using p(2) by (simp add: sound_forest_def)
  have groups: "group_roots [0..<?n] p [] Map.empty =
      Some (filter (\<lambda>x. uf_root p x = x) [0..<?n], classes_below (uf_root p) ?n)"
    using group_roots_classes [of 0 ?n p] f by (simp add: classes_below_def)
  have "classes_below (uf_root p) ?n r = Some (filter (\<lambda>i. uf_root p i = r) [0..<?n])"
    if "r \<in> set (filter (\<lambda>x. uf_root p x = x) [0..<?n])" for r
    using that by (auto simp: classes_below_def filter_empty_conv)
  then have "overlap_components segs = Some (map (\<lambda>r. filter (\<lambda>i. uf_root p i = r) [0..<?n])
      (filter (\<lambda>r. uf_root p r = r) [0..<?n]))"
    using take_groups_distinct [of "filter (\<lambda>x. uf_root p x = x) [0..<?n]" "classes_below (uf_root p) ?n"
        "\<lambda>r. filter (\<lambda>i. uf_root p i = r) [0..<?n]"]
    by (simp add: overlap_components_def p(1) groups)
  moreover have "uf_root p i = uf_root p j" if "(shares segs)\<^sup>*\<^sup>* i j" for i j
    using that by (induction rule: rtranclp_induct) (use p(3) in auto)
  ultimately show ?thesis
    using that [of "uf_root p"] uf_root_le uf_root_idem [OF f] p(2) unfolding sound_forest_def by blast
qed

subsection \<open>Planning returns\<close>

lemma sweep_returns:
  assumes "sound_forest segs p" "\<forall>k\<in>set active. has_bounds segs k" "\<forall>i\<in>set is. i < length segs"
  shows "\<exists>q. sweep segs is active p = Some q \<and> sound_forest segs q"
  using assms
proof (induction "is" arbitrary: active p)
  case (Cons i "is")
  show ?case
  proof (cases "seg_bounds (segs ! i)")
    case Nil
    then show ?thesis
      using Cons by simp
  next
    case (Cons lead bs)
    let ?active = "retain_active segs (fst lead) active"
    have i: "has_bounds segs i"
      using Cons Cons.prems(3) by (simp add: has_bounds_def)
    have active: "\<forall>k\<in>set ?active. has_bounds segs k"
      using Cons.prems(2) by (simp add: retain_active_def)
    obtain q where q: "union_active segs i ?active p = Some q" "sound_forest segs q"
      using union_active_step [OF Cons.prems(1) i active] by blast
    have "sweep segs (i # is) active p = sweep segs is (?active @ [i]) q"
      using Cons q(1) by (simp add: Let_def)
    then show ?thesis
      using Cons.IH [OF q(2), of "?active @ [i]"] active i Cons.prems(3) by simp
  qed
qed simp

lemma overlap_components_returns: "\<exists>cs. overlap_components segs = Some cs"
proof -
  let ?n = "length segs"
  have "sound_forest segs [0..<?n]"
    by (auto simp: sound_forest_def forest_def uf_root_fix)
  then obtain p where p: "sweep segs [0..<?n] [] [0..<?n] = Some p" "forest ?n p"
    using sweep_returns [of segs "[0..<?n]" "[]" "[0..<?n]"] by (auto simp: sound_forest_def)
  then show ?thesis
    using group_roots_classes [of 0 ?n p] by (simp add: overlap_components_def classes_below_def)
qed

text \<open>
  C27.  Compaction planning ends on every input: each lookup in the union-find forest returns without an
  index out of range, so both the grouping into components and the planning of units return a value.
\<close>

theorem compaction_planning_returns:
  "\<exists>components plan. overlap_components segments = Some components
    \<and> plan_compaction_units segments max_rows_per_file max_unit_rows = Some plan"
  using overlap_components_returns [of segments] by (auto simp: plan_compaction_units_def)

subsection \<open>Components\<close>

lemma overlap_components_classes:
  assumes "lead_sorted segments"
  shows "\<exists>components. overlap_components segments = Some components
    \<and> distinct (concat components) \<and> set (concat components) = {..<length segments}
    \<and> [] \<notin> set components \<and> sorted (map hd components) \<and> list_all sorted components
    \<and> (\<forall>i<length segments. \<forall>j<length segments.
         (\<exists>c\<in>set components. i \<in> set c \<and> j \<in> set c) \<longleftrightarrow> (shares segments)\<^sup>*\<^sup>* i j)"
proof -
  let ?n = "length segments"
  obtain f where f: "overlap_components segments = Some (map (\<lambda>r. filter (\<lambda>i. f i = r) [0..<?n])
      (filter (\<lambda>r. f r = r) [0..<?n]))"
    "\<And>i. i < ?n \<Longrightarrow> f i \<le> i \<and> f (f i) = f i"
    "\<And>i j. i < ?n \<Longrightarrow> j < ?n \<Longrightarrow> f i = f j \<longleftrightarrow> (shares segments)\<^sup>*\<^sup>* i j"
    using overlap_components_roots [OF assms] by blast
  let ?rs = "filter (\<lambda>r. f r = r) [0..<?n]" and ?g = "\<lambda>r. filter (\<lambda>i. f i = r) [0..<?n]"
  have nonempty: "r \<in> set (?g r)" if "r \<in> set ?rs" for r
    using that by auto
  have hd: "hd (?g r) = r" if "r \<in> set ?rs" for r
  proof -
    have "sorted (?g r)" "?g r \<noteq> []"
      using that by (auto simp: sorted_wrt_filter filter_empty_conv)
    then have "hd (?g r) \<le> r" "hd (?g r) \<in> set (?g r)"
      using nonempty [OF that] by (cases "?g r"; auto)+
    then show ?thesis
      using f(2) [of "hd (?g r)"] by auto
  qed
  have "inj_on ?g (set ?rs)"
    by (rule inj_on_inverseI [of _ hd]) (rule hd)
  then have "distinct (concat (map ?g ?rs))"
    by (intro distinct_concat) (auto simp: distinct_map)
  moreover have "set (concat (map ?g ?rs)) = {..<?n}"
    using f(2) by (auto intro: le_less_trans)
  moreover have "[] \<notin> set (map ?g ?rs)"
    by (auto simp: filter_empty_conv dest: sym [of "[]"])
  moreover have "map hd (map ?g ?rs) = ?rs"
    unfolding map_map by (rule map_idI) (simp only: o_apply hd)
  moreover have "list_all sorted (map ?g ?rs)"
    by (simp add: list_all_iff sorted_wrt_filter)
  moreover have "(\<exists>c\<in>set (map ?g ?rs). i \<in> set c \<and> j \<in> set c) \<longleftrightarrow> f i = f j" if "i < ?n" "j < ?n" for i j
    using f(2) [OF that(1)] f(2) [OF that(2)] that by (auto intro: le_less_trans)
  ultimately show ?thesis
    using f(1,3) by (simp add: sorted_wrt_filter)
qed

text \<open>
  C28.  Over segments in key order, the components are a partition of the segments, listed by their first
  members and each in input order, and two segments are in one component exactly when a chain of segments
  that may share keys links them.
\<close>

theorem overlap_components_partition:
  assumes "lead_sorted segments"
  shows "\<exists>components. overlap_components segments = Some components
    \<and> distinct (concat components) \<and> set (concat components) = {..<length segments}
    \<and> [] \<notin> set components \<and> sorted (map hd components) \<and> list_all sorted components
    \<and> (\<forall>i<length segments. \<forall>j<length segments.
         (\<exists>c\<in>set components. i \<in> set c \<and> j \<in> set c) \<longleftrightarrow> (shares segments)\<^sup>*\<^sup>* i j)"
  using overlap_components_classes [OF assms] .

theorem overlap_components_partition_witness:
  "\<exists>components. overlap_components [seg_single 5 [1] [4], seg_single 5 [3] [6], seg_single 5 [9] [9]] = Some components
    \<and> distinct (concat components)"
proof -
  have "lead_sorted [seg_single 5 [1] [4], seg_single 5 [3] [6], seg_single 5 [9] [9]]"
    by (auto simp: lead_sorted_def has_bounds_def seg_single_def less_Suc_eq numeral_3_eq_3)
  from overlap_components_partition [OF this] show ?thesis
    by blast
qed

subsection \<open>Keys in the segments\<close>

text \<open>A segment's recorded ranges hold a key when each column's encoding lies within the column's bounds
  and, where the segment records it, the encoded tuple lies within the tuple interval.\<close>

definition segment_holds :: "SegmentRange \<Rightarrow> bytes list \<Rightarrow> bytes \<Rightarrow> bool" where
  "segment_holds s columns tuple \<longleftrightarrow>
     list_all2 (\<lambda>k b. fst b \<le> k \<and> k \<le> snd b) columns (seg_bounds s)
     \<and> (case seg_tuple s of None \<Rightarrow> True | Some b \<Rightarrow> fst b \<le> tuple \<and> tuple \<le> snd b)"

lemma common_point_meet: "fst a \<le> k \<and> k \<le> snd a \<Longrightarrow> fst b \<le> k \<and> k \<le> snd b \<Longrightarrow> intervals_meet a b"
  unfolding intervals_meet_def by (meson order.trans)

lemma common_columns_meet:
  "\<lbrakk>list_all2 (\<lambda>k b. fst b \<le> k \<and> k \<le> snd b) ks bs; list_all2 (\<lambda>k b. fst b \<le> k \<and> k \<le> snd b) ks bs'\<rbrakk>
    \<Longrightarrow> list_all (\<lambda>(a, b). intervals_meet a b) (zip bs bs')"
proof (induction ks arbitrary: bs bs')
  case (Cons k ks)
  then obtain a as b cs where "bs = a # as" "bs' = b # cs"
    by (auto simp: list_all2_Cons1)
  then show ?case
    using Cons common_point_meet [of a k b] by simp
qed simp

lemma common_key_shares: "segment_holds s ks t \<Longrightarrow> segment_holds s' ks t \<Longrightarrow> may_share_keys s s'"
  using common_columns_meet [of ks "seg_bounds s" "seg_bounds s'"]
  by (auto simp: segment_holds_def may_share_keys_def common_point_meet split: option.splits dest!: list_all2_lengthD)

lemma examine_active_result:
  "case examine_active segs mp i ks c of
      Inr c' \<Rightarrow> c' = c + length ks \<and> (\<forall>k\<in>set ks. \<not> may_share_keys (segs ! i) (segs ! k))
    | Inl (Some b) \<Rightarrow> \<not> b \<and> (\<exists>k\<in>set ks. may_share_keys (segs ! i) (segs ! k))
    | Inl None \<Rightarrow> c + length ks > mp"
proof (induction ks arbitrary: c)
  case (Cons k ks)
  show ?case
    using Cons.IH [of "Suc c"] by (auto simp: Let_def split: sum.splits option.splits)
qed simp

lemma disjoint_sweep_result:
  assumes "lead_sorted segs" "i \<le> length segs" "covers segs i active" "distinct active"
    "\<forall>x<i. \<forall>y<i. x \<noteq> y \<longrightarrow> \<not> shares segs x y"
  shows "case disjoint_sweep segs mp [i..<length segs] active c of
      None \<Rightarrow> (\<exists>x<length segs. \<not> has_bounds segs x) \<or> c + (length segs - i) * length segs > mp
    | Some b \<Rightarrow> b \<longleftrightarrow> (\<forall>x y. x \<noteq> y \<longrightarrow> \<not> shares segs x y)"
  using assms(2-)
proof (induction "length segs - i" arbitrary: i active c)
  case 0
  then show ?case
    by (auto simp: shares_def has_bounds_def)
next
  case (Suc d)
  let ?n = "length segs"
  have i: "i < ?n" "d = ?n - Suc i"
    using Suc.hyps(2) by auto
  show ?case
  proof (cases "has_bounds segs i")
    case False
    then show ?thesis
      using i(1) by (auto simp: upt_conv_Cons has_bounds_def)
  next
    case True
    then obtain lead bs where lead: "seg_bounds (segs ! i) = lead # bs"
      by (auto simp: has_bounds_def neq_Nil_conv)
    let ?active = "retain_active segs (fst lead) active"
    let ?r = "examine_active segs mp i ?active c"
    have cov: "covers segs i ?active"
      using covers_retain [OF Suc.prems(2) assms(1) True] by (simp add: lead)
    have dist: "distinct ?active"
      using Suc.prems(3) by (simp add: retain_active_def)
    have below: "\<forall>k\<in>set ?active. k < i"
      using cov by (simp add: covers_def)
    then have "set ?active \<subseteq> {..<i}"
      by auto
    then have len: "length ?active \<le> ?n"
      using card_mono [of "{..<i}" "set ?active"] distinct_card [OF dist] i(1) by simp
    have step: "disjoint_sweep segs mp [i..<?n] active c =
        (case ?r of Inl r \<Rightarrow> r | Inr c \<Rightarrow> disjoint_sweep segs mp [Suc i..<?n] (?active @ [i]) c)"
      using i(1) by (simp add: upt_conv_Cons lead Let_def)
    have sharing: "shares segs i k \<longleftrightarrow> may_share_keys (segs ! i) (segs ! k)" if "k \<in> set ?active" for k
      using that cov True by (simp add: covers_def shares_def)
    have count: "length ?active + (?n - Suc i) * ?n \<le> (?n - i) * ?n"
      using len i(1) by (simp add: Suc_diff_Suc [symmetric])
    note examined = examine_active_result [where segs = segs and mp = mp and i = i and ks = ?active and c = c]
    consider (over) "?r = Inl None" | (hit) b where "?r = Inl (Some b)" | (pass) c' where "?r = Inr c'"
      by (metis old.sum.exhaust option.exhaust)
    then show ?thesis
    proof cases
      case over
      then have "mp < c + length ?active"
        using examined by simp
      then show ?thesis
        using step over count by simp
    next
      case (hit b)
      then obtain k where k: "\<not> b" "k \<in> set ?active" "shares segs i k"
        using examined sharing by auto
      have "i \<noteq> k"
        using below k(2) by force
      then have "\<exists>x y. x \<noteq> y \<and> shares segs x y"
        using k(3) by (intro exI conjI)
      then show ?thesis
        unfolding step hit using k(1) by simp
    next
      case (pass c')
      then have c': "c' = c + length ?active" and "\<forall>k\<in>set ?active. \<not> may_share_keys (segs ! i) (segs ! k)"
        using examined by simp_all
      then have none: "\<forall>k\<in>set ?active. \<not> shares segs i k"
        using sharing by blast
      have "\<not> shares segs i x" if "x < i" for x
        using none cov that shares_sym unfolding covers_def by blast
      then have "\<forall>x<Suc i. \<forall>y<Suc i. x \<noteq> y \<longrightarrow> \<not> shares segs x y"
        using Suc.prems(4) shares_sym unfolding less_Suc_eq by blast
      then have "case disjoint_sweep segs mp [Suc i..<?n] (?active @ [i]) c' of
          None \<Rightarrow> (\<exists>x<?n. \<not> has_bounds segs x) \<or> c' + (?n - Suc i) * ?n > mp
        | Some b \<Rightarrow> b \<longleftrightarrow> (\<forall>x y. x \<noteq> y \<longrightarrow> \<not> shares segs x y)"
        using below dist i(1) by (intro Suc.hyps(1) [OF i(2) _ covers_push [OF cov True]]) auto
      then show ?thesis
        unfolding step pass using count c' by (cases "disjoint_sweep segs mp [Suc i..<?n] (?active @ [i]) c'") auto
    qed
  qed
qed

lemma keys_disjoint_result:
  assumes "lead_sorted segs" "\<forall>i<length segs. has_bounds segs i"
  shows "case keys_disjoint segs max_pairs of
      None \<Rightarrow> length segs * length segs > max_pairs
    | Some b \<Rightarrow> b = (\<forall>i<length segs. \<forall>j<length segs. i \<noteq> j \<longrightarrow> \<not> may_share_keys (segs ! i) (segs ! j))"
proof -
  have none: "(\<forall>x y. x \<noteq> y \<longrightarrow> \<not> shares segs x y) \<longleftrightarrow>
      (\<forall>i<length segs. \<forall>j<length segs. i \<noteq> j \<longrightarrow> \<not> may_share_keys (segs ! i) (segs ! j))"
    using assms(2) by (auto simp: shares_def has_bounds_def)
  show ?thesis
    using disjoint_sweep_result [OF assms(1), of 0 "[]" max_pairs 0] assms(2)
    unfolding keys_disjoint_def none by (auto simp: covers_def split: option.splits)
qed

lemma keys_disjoint_no_common_key:
  assumes "lead_sorted segs" "\<forall>i<length segs. has_bounds segs i" "keys_disjoint segs max_pairs = Some True"
    and "i < length segs" "j < length segs" "segment_holds (segs ! i) ks t" "segment_holds (segs ! j) ks t"
  shows "i = j"
  using keys_disjoint_result [OF assms(1,2), of max_pairs] assms(3-) common_key_shares by force

text \<open>
  C29.  The disjointness test is exact where it answers: it says true exactly when no two segments may
  share a key, and then no key is held by two segments; and it answers whenever the pair budget is at
  least the square of the number of segments.
\<close>

theorem keys_disjoint_exact:
  assumes "lead_sorted segments" "\<forall>i<length segments. has_bounds segments i"
  shows "(\<forall>b. keys_disjoint segments max_pairs = Some b \<longrightarrow>
      b = (\<forall>i<length segments. \<forall>j<length segments. i \<noteq> j \<longrightarrow> \<not> may_share_keys (segments ! i) (segments ! j)))
    \<and> (keys_disjoint segments max_pairs = Some True \<longrightarrow> (\<forall>i<length segments. \<forall>j<length segments. \<forall>columns tuple.
      segment_holds (segments ! i) columns tuple \<longrightarrow> segment_holds (segments ! j) columns tuple \<longrightarrow> i = j))
    \<and> (length segments * length segments \<le> max_pairs \<longrightarrow> keys_disjoint segments max_pairs \<noteq> None)"
  using keys_disjoint_result [OF assms, of max_pairs] keys_disjoint_no_common_key [OF assms, of max_pairs]
  by (cases "keys_disjoint segments max_pairs") (simp; blast)+

theorem keys_disjoint_exact_witness:
  "keys_disjoint [seg_single 5 [1] [4], seg_single 5 [6] [9]] 4 \<noteq> None"
proof -
  have "lead_sorted [seg_single 5 [1] [4], seg_single 5 [6] [9]]"
    "\<forall>i<length [seg_single 5 [1] [4], seg_single 5 [6] [9]]. has_bounds [seg_single 5 [1] [4], seg_single 5 [6] [9]] i"
    by (auto simp: lead_sorted_def has_bounds_def seg_single_def less_Suc_eq)
  from keys_disjoint_exact [OF this, of 4] show ?thesis
    by simp
qed

subsection \<open>Planned units\<close>

definition total_rows :: "SegmentRange list \<Rightarrow> nat list \<Rightarrow> int" where
  "total_rows segs is = sum_list (map (\<lambda>i. seg_row_count (segs ! i)) is)"

definition unit_ok :: "SegmentRange list \<Rightarrow> int \<Rightarrow> int \<Rightarrow> nat list list \<Rightarrow> CompactionUnit \<Rightarrow> bool" where
  "unit_ok segs target cap cs u \<longleftrightarrow> length (unit_members u) \<ge> 2 \<and> unit_rows u = total_rows segs (unit_members u)
     \<and> unit_rows u \<le> cap
     \<and> (if unit_overlapping u then unit_members u \<in> set cs
        else unit_rows u \<le> target
          \<and> (\<forall>i\<in>set (unit_members u). [i] \<in> set cs \<and> saturating_mul_i64 (seg_row_count (segs ! i)) 2 \<le> target))"

definition oversized_ok :: "SegmentRange list \<Rightarrow> int \<Rightarrow> nat list list \<Rightarrow> CompactionUnit \<Rightarrow> bool" where
  "oversized_ok segs cap cs u \<longleftrightarrow> length (unit_members u) \<ge> 2 \<and> unit_rows u = total_rows segs (unit_members u)
     \<and> unit_rows u > cap \<and> unit_overlapping u \<and> unit_members u \<in> set cs"

definition planned :: "CompactionPlan \<Rightarrow> nat list list" where
  "planned plan = map unit_members (plan_units plan @ plan_oversized plan)"

definition plan_ok :: "SegmentRange list \<Rightarrow> int \<Rightarrow> int \<Rightarrow> nat list list \<Rightarrow> CompactionPlan \<Rightarrow> bool" where
  "plan_ok segs target cap cs plan \<longleftrightarrow> (\<forall>u\<in>set (plan_units plan). unit_ok segs target cap cs u)
     \<and> (\<forall>u\<in>set (plan_oversized plan). oversized_ok segs cap cs u)
     \<and> plan_skipped_over_cap plan = length (plan_oversized plan)
     \<and> distinct (concat (planned plan)) \<and> (\<forall>c\<in>set cs. length c > 1 \<longrightarrow> c \<in> set (planned plan))
     \<and> set (concat (planned plan)) \<subseteq> set (concat cs)"

definition run_ok :: "SegmentRange list \<Rightarrow> int \<Rightarrow> int \<Rightarrow> nat list list \<Rightarrow> nat list \<Rightarrow> int \<Rightarrow> CompactionPlan \<Rightarrow> bool" where
  "run_ok segs target cap cs run rows plan \<longleftrightarrow> rows = total_rows segs run \<and> distinct run
     \<and> (length run \<ge> 2 \<longrightarrow> rows \<le> min target cap)
     \<and> (\<forall>i\<in>set run. [i] \<in> set cs \<and> saturating_mul_i64 (seg_row_count (segs ! i)) 2 \<le> target)
     \<and> set run \<inter> set (concat (planned plan)) = {}"

lemma close_run_ok:
  "plan_ok segs target cap cs plan \<Longrightarrow> run_ok segs target cap cs run rows plan \<Longrightarrow>
    plan_ok segs target cap cs (close_run run rows plan)"
  by (auto simp: plan_ok_def run_ok_def close_run_def planned_def unit_ok_def)

lemma wrap_i64_id: "in_i64 x \<Longrightarrow> wrap_i64 x = x"
  by (simp add: wrap_i64_def int_ranges in_i64_def)

definition rows_fit :: "SegmentRange list \<Rightarrow> bool" where
  "rows_fit segs \<longleftrightarrow> (\<forall>s\<in>set segs. 0 \<le> seg_row_count s) \<and> sum_list (map seg_row_count segs) \<le> i64_max"

lemma total_rows_fit:
  assumes "rows_fit segs" "distinct is" "set is \<subseteq> {..<length segs}"
  shows "0 \<le> total_rows segs is" "total_rows segs is \<le> i64_max"
proof -
  let ?f = "\<lambda>i. seg_row_count (segs ! i)"
  have nonneg: "\<forall>i\<in>{..<length segs}. 0 \<le> ?f i"
    using assms(1) by (auto simp: rows_fit_def)
  have tot: "total_rows segs is = (\<Sum>i\<in>set is. ?f i)"
    using assms(2) by (simp add: total_rows_def sum_list_distinct_conv_sum_set)
  show "0 \<le> total_rows segs is"
    unfolding tot using nonneg assms(3) by (intro sum_nonneg) auto
  have "(\<Sum>i\<in>set is. ?f i) \<le> (\<Sum>i\<in>{..<length segs}. ?f i)"
    using nonneg assms(3) by (intro sum_mono2) auto
  also have "\<dots> = sum_list (map seg_row_count segs)"
    by (simp add: sum_list_sum_nth atLeast0LessThan)
  finally show "total_rows segs is \<le> i64_max"
    unfolding tot using assms(1) by (simp add: rows_fit_def)
qed

lemma component_rows_total:
  assumes "rows_fit segs" "distinct c" "set c \<subseteq> {..<length segs}"
  shows "component_rows segs c = total_rows segs c"
  using assms(2,3)
proof (induction c rule: rev_induct)
  case Nil
  show ?case
    by (simp add: component_rows_def total_rows_def)
next
  case (snoc i c)
  have "component_rows segs (c @ [i]) = wrap_i64 (total_rows segs (c @ [i]))"
    using snoc by (simp add: component_rows_def total_rows_def)
  then show ?case
    using total_rows_fit [OF assms(1) snoc.prems] by (simp add: wrap_i64_id in_i64_def int_ranges)
qed

lemma plan_ok_single: "plan_ok segs target cap cs plan \<Longrightarrow> length c \<le> 1 \<Longrightarrow> plan_ok segs target cap (cs @ [c]) plan"
  by (auto simp: plan_ok_def unit_ok_def oversized_ok_def)

lemma run_ok_more: "run_ok segs target cap cs run rows plan \<Longrightarrow> run_ok segs target cap (cs @ [c]) run rows plan"
  by (auto simp: run_ok_def)

lemma run_ok_empty [simp]: "run_ok segs target cap cs [] 0 plan"
  by (simp add: run_ok_def total_rows_def)

lemma plan_ok_component:
  assumes "plan_ok segs target cap cs plan" "length c > 1" "distinct (concat (cs @ [c]))"
  defines "u \<equiv> \<lparr>unit_members = c, unit_rows = total_rows segs c, unit_overlapping = True\<rparr>"
  shows "plan_ok segs target cap (cs @ [c])
    (if total_rows segs c > cap
     then plan\<lparr>plan_skipped_over_cap := plan_skipped_over_cap plan + 1, plan_oversized := plan_oversized plan @ [u]\<rparr>
     else plan\<lparr>plan_units := plan_units plan @ [u]\<rparr>)"
proof -
  have "set (concat (planned plan)) \<subseteq> set (concat cs)" "distinct c" "set (concat cs) \<inter> set c = {}"
    using assms(1,3) by (simp_all add: plan_ok_def)
  then have "set c \<inter> set (concat (planned plan)) = {}" "distinct c"
    by blast+
  then show ?thesis
    using assms(1,2) unfolding plan_ok_def planned_def u_def
    by (auto simp: unit_ok_def oversized_ok_def)
qed

lemma planned_close_run: "set (concat (planned (close_run run rows plan))) \<subseteq> set run \<union> set (concat (planned plan))"
  by (auto simp: close_run_def planned_def)

lemma plan_components_ok:
  assumes "rows_fit segs" "distinct (concat (cs @ rest))" "set (concat (cs @ rest)) \<subseteq> {..<length segs}"
    "[] \<notin> set rest" "plan_ok segs target cap cs plan" "run_ok segs target cap cs run rows plan"
  shows "plan_ok segs target cap (cs @ rest) (plan_components segs target cap rest run rows plan)"
  using assms(2-)
proof (induction rest arbitrary: cs run rows plan)
  case Nil
  then show ?case
    by (simp add: close_run_ok)
next
  case (Cons c rest)
  have c: "distinct c" "set c \<subseteq> {..<length segs}" "c \<noteq> []" "set c \<inter> set (concat cs) = {}"
    using Cons.prems by auto
  have closed: "plan_ok segs target cap cs (close_run run rows plan)"
    by (rule close_run_ok [OF Cons.prems(4,5)])
  have next_step: "plan_ok segs target cap (cs @ c # rest) (plan_components segs target cap rest run' rows' plan')"
    if "plan_ok segs target cap (cs @ [c]) plan'" "run_ok segs target cap (cs @ [c]) run' rows' plan'" for run' rows' plan'
    using Cons.IH [of "cs @ [c]" plan' run' rows'] Cons.prems that by simp
  show ?case
  proof (cases "length c > 1")
    case True
    have "distinct (concat (cs @ [c]))"
      using Cons.prems(1) by auto
    from next_step [OF plan_ok_component [OF closed True this] run_ok_empty]
    show ?thesis
      using True by (simp add: Let_def component_rows_total [OF assms(1) c(1,2)])
  next
    case False
    then obtain i where i: "c = [i]"
      using c(3) by (cases c) (auto simp: Suc_le_eq)
    have "x \<in> set (concat cs)" if "x \<in> set run" for x
    proof -
      have "[x] \<in> set cs"
        using that Cons.prems(5) by (simp add: run_ok_def)
      then show ?thesis
        unfolding set_concat by (rule UN_I) simp
    qed
    then have old: "set run \<subseteq> set (concat cs)"
      by blast
    moreover have "set (concat (planned plan)) \<subseteq> set (concat cs)"
      using Cons.prems(4) by (simp add: plan_ok_def)
    moreover have "i \<notin> set (concat cs)"
      using c(4) unfolding i by simp
    ultimately have fresh: "i \<notin> set run" "i \<notin> set (concat (planned plan))"
      by blast+
    have single: "plan_ok segs target cap (cs @ [c]) p" if "plan_ok segs target cap cs p" for p
      using that False by (intro plan_ok_single) auto
    have grow: "set (run @ [i]) \<subseteq> {..<length segs}" "distinct (run @ [i])"
      using Cons.prems(2,5) fresh(1) old c(2) i by (auto simp: run_ok_def)
    have "rows + seg_row_count (segs ! i) = total_rows segs (run @ [i])"
      using Cons.prems(5) by (simp add: run_ok_def total_rows_def)
    then have sum: "wrap_i64 (rows + seg_row_count (segs ! i)) = total_rows segs (run @ [i])"
      using total_rows_fit [OF assms(1) grow(2,1)] by (simp add: wrap_i64_id in_i64_def int_ranges)
    have small: "run_ok segs target cap (cs @ [c]) [i] (seg_row_count (segs ! i)) (close_run run rows plan)"
      if "saturating_mul_i64 (seg_row_count (segs ! i)) 2 \<le> target"
      using that fresh planned_close_run [of run rows plan] i by (auto simp: run_ok_def total_rows_def)
    have grown: "run_ok segs target cap (cs @ [c]) (run @ [i]) (total_rows segs (run @ [i])) plan"
      if "saturating_mul_i64 (seg_row_count (segs ! i)) 2 \<le> target" "total_rows segs (run @ [i]) \<le> min target cap"
      using that fresh Cons.prems(5) i by (simp add: run_ok_def)
    show ?thesis
      using next_step [OF single [OF closed] run_ok_empty] next_step [OF single [OF closed] small]
        next_step [OF single [OF Cons.prems(4)] grown] i sum
      by (simp add: Let_def not_less)
  qed
qed

text \<open>
  C30.  The units planned for a table whose row counts are non-negative and fit an i64 together: no segment
  is in two units; every unit has at least two members, states their true row total and stays within the
  unit cap; an overlapping unit is a whole component, so no segment outside it can hold one of its keys; the
  other units are runs of small segments within the file target that share no key with any other segment; and
  every component of several segments is either planned or listed as oversized, with its count.
\<close>

theorem compaction_plan_correct:
  assumes "lead_sorted segments" "rows_fit segments" "\<forall>i<length segments. has_bounds segments i"
  shows "\<exists>components plan. overlap_components segments = Some components
    \<and> plan_compaction_units segments max_rows_per_file max_unit_rows = Some plan
    \<and> plan_ok segments (max max_rows_per_file 1) (max max_unit_rows 1) components plan
    \<and> (\<forall>u\<in>set (plan_units plan). \<forall>i\<in>set (unit_members u). \<forall>j<length segments. \<forall>columns tuple.
         segment_holds (segments ! i) columns tuple \<longrightarrow> segment_holds (segments ! j) columns tuple \<longrightarrow>
         (if unit_overlapping u then j \<in> set (unit_members u) else j = i))"
proof -
  let ?n = "length segments" and ?t = "max max_rows_per_file 1" and ?c = "max max_unit_rows 1"
  let ?empty = "\<lparr>plan_units = [], plan_skipped_over_cap = 0, plan_oversized = []\<rparr>"
  obtain cs where cs: "overlap_components segments = Some cs" "distinct (concat cs)" "set (concat cs) = {..<?n}" "[] \<notin> set cs"
    "\<forall>i<?n. \<forall>j<?n. (\<exists>c\<in>set cs. i \<in> set c \<and> j \<in> set c) \<longleftrightarrow> (shares segments)\<^sup>*\<^sup>* i j"
    using overlap_components_classes [OF assms(1)] by blast
  define plan where "plan = plan_components segments ?t ?c cs [] 0 ?empty"
  have ok: "plan_ok segments ?t ?c cs plan"
    using plan_components_ok [OF assms(2), of "[]" cs ?t ?c ?empty "[]" 0] cs(2-4)
    by (simp add: plan_def plan_ok_def planned_def)
  have "if unit_overlapping u then j \<in> set (unit_members u) else j = i"
    if u: "u \<in> set (plan_units plan)" "i \<in> set (unit_members u)" "j < ?n"
      "segment_holds (segments ! i) columns tuple" "segment_holds (segments ! j) columns tuple" for u i j columns tuple
  proof -
    have uok: "unit_ok segments ?t ?c cs u"
      using ok u(1) by (simp add: plan_ok_def)
    define d where "d = (if unit_overlapping u then unit_members u else [i])"
    have d: "d \<in> set cs" "i \<in> set d"
      using uok u(2) by (auto simp: unit_ok_def d_def)
    then have i: "i < ?n"
      using cs(3) by auto
    have "shares segments i j"
      using common_key_shares [OF u(4,5)] assms(3) i u(3) by (simp add: shares_def)
    then obtain c where c: "c \<in> set cs" "i \<in> set c" "j \<in> set c"
      using cs(5) i u(3) by blast
    then have "c = d"
      using d cs(2) by (metis IntI distinct_concat_iff empty_iff)
    then show ?thesis
      using c(3) by (auto simp: d_def split: if_splits)
  qed
  then show ?thesis
    using cs(1) ok by (auto simp: plan_compaction_units_def plan_def)
qed

theorem compaction_plan_correct_witness:
  "\<exists>components plan. overlap_components [seg_single 5 [1] [4], seg_single 5 [3] [6]] = Some components
    \<and> plan_compaction_units [seg_single 5 [1] [4], seg_single 5 [3] [6]] 100 100 = Some plan
    \<and> plan_ok [seg_single 5 [1] [4], seg_single 5 [3] [6]] 100 100 components plan"
proof -
  have "lead_sorted [seg_single 5 [1] [4], seg_single 5 [3] [6]]" "rows_fit [seg_single 5 [1] [4], seg_single 5 [3] [6]]"
    "\<forall>i<length [seg_single 5 [1] [4], seg_single 5 [3] [6]]. has_bounds [seg_single 5 [1] [4], seg_single 5 [3] [6]] i"
    by (auto simp: lead_sorted_def has_bounds_def rows_fit_def seg_single_def less_Suc_eq int_ranges)
  from compaction_plan_correct [OF this, of 100 100] show ?thesis
    by auto
qed

end
