(* ===== verification/Scan_Plan.thy ===== *)
theory Scan_Plan
  imports Resolver Sort_Key_Encode "HOL-Library.Product_Lexorder"
begin

text \<open>
  Planning of merged hot/cold scans (\<open>koldstore-merge/src/scan\<close>, \<open>planning/quals.rs\<close>, \<open>planning/rls.rs\<close>, and
  \<open>koldstore-common/src/domain/filter.rs\<close>): which predicates may prune before the merge, how segments are
  batched by sequence range, which row groups an ordered scan must still open, and which paths are offered.
  \<open>binary_search\<close> on a sorted vector is membership, as the standard library documents it.
\<close>

subsection \<open>Predicates\<close>

datatype ColumnClass = ClsPrimaryKey | ClsScope | ClsSeq | ClsImmutable | ClsMutable | ClsSecurity

datatype PredicateValue = PEq json | PIn "json list" | PRange int int | PExpression string

record Predicate =
  pred_column_id :: ColumnId
  pred_column :: string
  pred_class :: ColumnClass
  pred_value :: PredicateValue

datatype PredicateClass = SafePrune | Residual | Security

definition classify :: "Predicate \<Rightarrow> KoldstoreError + PredicateClass" where
  "classify p =
     (let inverted = (case pred_value p of PRange mn mx \<Rightarrow> mn > mx | _ \<Rightarrow> False) in
      if inverted then Inl (UnsafePredicate (''range minimum exceeds maximum for '' @ pred_column p))
      else Inr (case pred_class p of
          ClsPrimaryKey \<Rightarrow> SafePrune | ClsScope \<Rightarrow> SafePrune | ClsSeq \<Rightarrow> SafePrune | ClsImmutable \<Rightarrow> SafePrune
        | ClsMutable \<Rightarrow> Residual
        | ClsSecurity \<Rightarrow> Security))"

record PruningRange =
  pr_column_id :: ColumnId
  pr_column :: string
  pr_min :: int
  pr_max :: int

record PruningPlan =
  pk_columns :: "ColumnId list"
  scope_columns :: "ColumnId list"
  seq_range :: "PruningRange option"
  immutable_stat_columns :: "ColumnId list"
  residual_columns :: "ColumnId list"

record ClassifiedPredicates =
  cls_safe :: "Predicate list"
  cls_residual :: "Predicate list"
  cls_security :: "Predicate list"

definition requires_post_merge_filtering :: "ClassifiedPredicates \<Rightarrow> bool" where
  "requires_post_merge_filtering c \<longleftrightarrow> cls_residual c \<noteq> [] \<or> cls_security c \<noteq> []"

definition safe_pruning_column_ids :: "ClassifiedPredicates \<Rightarrow> ColumnId list" where
  "safe_pruning_column_ids c = map pred_column_id (cls_safe c)"

fun classify_loop :: "Predicate list \<Rightarrow> ClassifiedPredicates \<Rightarrow> KoldstoreError + ClassifiedPredicates" where
  "classify_loop [] c = Inr c"
| "classify_loop (p # ps) c =
     (case classify p of
        Inl e \<Rightarrow> Inl e
      | Inr SafePrune \<Rightarrow> classify_loop ps (c\<lparr>cls_safe := cls_safe c @ [p]\<rparr>)
      | Inr Residual \<Rightarrow> classify_loop ps (c\<lparr>cls_residual := cls_residual c @ [p]\<rparr>)
      | Inr Security \<Rightarrow> classify_loop ps (c\<lparr>cls_security := cls_security c @ [p]\<rparr>))"

definition classify_predicates :: "Predicate list \<Rightarrow> KoldstoreError + ClassifiedPredicates" where
  "classify_predicates ps = classify_loop ps \<lparr>cls_safe = [], cls_residual = [], cls_security = []\<rparr>"

definition range_from_predicate :: "Predicate \<Rightarrow> PruningRange option" where
  "range_from_predicate p =
     (case pred_value p of
        PRange mn mx \<Rightarrow> Some \<lparr>pr_column_id = pred_column_id p, pr_column = pred_column p, pr_min = mn, pr_max = mx\<rparr>
      | _ \<Rightarrow> None)"

definition add_safe :: "PruningPlan \<Rightarrow> Predicate \<Rightarrow> PruningPlan" where
  "add_safe plan p =
     (case pred_class p of
        ClsPrimaryKey \<Rightarrow> plan\<lparr>pk_columns := pk_columns plan @ [pred_column_id p]\<rparr>
      | ClsScope \<Rightarrow> plan\<lparr>scope_columns := scope_columns plan @ [pred_column_id p]\<rparr>
      | ClsSeq \<Rightarrow> plan\<lparr>seq_range := range_from_predicate p\<rparr>
      | ClsImmutable \<Rightarrow> plan\<lparr>immutable_stat_columns := immutable_stat_columns plan @ [pred_column_id p]\<rparr>
      | _ \<Rightarrow> plan)"

definition build_pruning_plan :: "Predicate list \<Rightarrow> KoldstoreError + PruningPlan" where
  "build_pruning_plan ps =
     (case classify_predicates ps of
        Inl e \<Rightarrow> Inl e
      | Inr c \<Rightarrow> Inr (foldl add_safe
          \<lparr>pk_columns = [], scope_columns = [], seq_range = None, immutable_stat_columns = [],
           residual_columns = map pred_column_id (cls_residual c @ cls_security c)\<rparr> (cls_safe c)))"

subsection \<open>Security quals\<close>

definition unsupported_rls_error :: string where
  "unsupported_rls_error = ''koldstore cannot enforce this RLS policy on cold rows''"

record SecurityQualPlan =
  can_enforce :: bool
  required_projection :: "string list"

definition enforce_or_fail_closed :: "bool \<Rightarrow> string + unit" where
  "enforce_or_fail_closed ok = (if ok then Inr () else Inl unsupported_rls_error)"

fun security_loop :: "Predicate list \<Rightarrow> string list \<Rightarrow> string + string list" where
  "security_loop [] projection = Inr projection"
| "security_loop (q # qs) projection =
     (if pred_class q \<noteq> ClsSecurity then security_loop qs projection
      else case pred_value q of
          PExpression _ \<Rightarrow> Inl unsupported_rls_error
        | _ \<Rightarrow> security_loop qs (if pred_column q \<in> set projection then projection else projection @ [pred_column q]))"

definition plan_security_quals :: "Predicate list \<Rightarrow> string list \<Rightarrow> string + SecurityQualPlan" where
  "plan_security_quals quals base_projection =
     (case security_loop quals base_projection of
        Inl e \<Rightarrow> Inl e
      | Inr projection \<Rightarrow> Inr \<lparr>can_enforce = True, required_projection = projection\<rparr>)"

subsection \<open>Segment pruning predicates\<close>

record SegmentPrunePredicate =
  spp_column_id :: ColumnId
  spp_column :: string
  spp_min :: "SortKeyValue option"
  spp_max :: "SortKeyValue option"
  spp_any_of :: "SortKeyValue list"

definition is_equality :: "SegmentPrunePredicate \<Rightarrow> bool" where
  "is_equality p = (case (spp_min p, spp_max p) of (Some mn, Some mx) \<Rightarrow> mn = mx | _ \<Rightarrow> False)"

definition spp_equality :: "ColumnId \<Rightarrow> string \<Rightarrow> SortKeyValue \<Rightarrow> SegmentPrunePredicate" where
  "spp_equality cid col v = \<lparr>spp_column_id = cid, spp_column = col, spp_min = Some v, spp_max = Some v, spp_any_of = []\<rparr>"

definition spp_closed_range :: "ColumnId \<Rightarrow> string \<Rightarrow> SortKeyValue \<Rightarrow> SortKeyValue \<Rightarrow> SegmentPrunePredicate" where
  "spp_closed_range cid col mn mx =
     \<lparr>spp_column_id = cid, spp_column = col, spp_min = Some mn, spp_max = Some mx, spp_any_of = []\<rparr>"

definition spp_lower_bound :: "ColumnId \<Rightarrow> string \<Rightarrow> SortKeyValue \<Rightarrow> SegmentPrunePredicate" where
  "spp_lower_bound cid col mn = \<lparr>spp_column_id = cid, spp_column = col, spp_min = Some mn, spp_max = None, spp_any_of = []\<rparr>"

definition spp_upper_bound :: "ColumnId \<Rightarrow> string \<Rightarrow> SortKeyValue \<Rightarrow> SegmentPrunePredicate" where
  "spp_upper_bound cid col mx = \<lparr>spp_column_id = cid, spp_column = col, spp_min = None, spp_max = Some mx, spp_any_of = []\<rparr>"

fun dedup_key :: "('a \<Rightarrow> 'k) \<Rightarrow> 'a list \<Rightarrow> 'a list" where
  "dedup_key f (a # b # xs) = (if f a = f b then dedup_key f (a # xs) else a # dedup_key f (b # xs))"
| "dedup_key f xs = xs"

fun keyed_values :: "sort_ext \<Rightarrow> SortKeyValue list \<Rightarrow> (bytes \<times> SortKeyValue) list option" where
  "keyed_values x [] = Some []"
| "keyed_values x (v # vs) =
     (case encode_sort_key x v of
        Inl e \<Rightarrow> None
      | Inr k \<Rightarrow> map_option (\<lambda>ks. (k, v) # ks) (keyed_values x vs))"

definition any_of :: "sort_ext \<Rightarrow> ColumnId \<Rightarrow> string \<Rightarrow> SortKeyValue list \<Rightarrow> SegmentPrunePredicate option" where
  "any_of x cid col values =
     (case keyed_values x values of
        None \<Rightarrow> None
      | Some keyed \<Rightarrow>
          let keyed = dedup_key fst (sort_key fst keyed) in
          if length keyed < 2 then None
          else Some \<lparr>spp_column_id = cid, spp_column = col, spp_min = Some (snd (hd keyed)),
            spp_max = Some (snd (last keyed)), spp_any_of = map snd keyed\<rparr>)"

record ColdPruneColumnPolicy =
  is_primary_key :: bool
  is_scope :: bool
  is_order_column :: bool
  sort_key_indexable :: bool

definition allows_predicate :: "ColdPruneColumnPolicy \<Rightarrow> bool" where
  "allows_predicate p =
     (if \<not> (is_primary_key p \<or> is_scope p \<or> is_order_column p) then False else sort_key_indexable p)"

definition retain_pre_merge_cold_prune_predicates ::
  "SegmentPrunePredicate list \<Rightarrow> (ColumnId \<Rightarrow> ColdPruneColumnPolicy option) \<Rightarrow> SegmentPrunePredicate list" where
  "retain_pre_merge_cold_prune_predicates ps policy_for =
     filter (\<lambda>p. case policy_for (spp_column_id p) of None \<Rightarrow> False | Some q \<Rightarrow> allows_predicate q) ps"

fun validate_prune_predicates_indexed :: "SegmentPrunePredicate list \<Rightarrow> ColumnId list \<Rightarrow> KoldstoreError + unit" where
  "validate_prune_predicates_indexed [] indexed = Inr ()"
| "validate_prune_predicates_indexed (p # ps) indexed =
     (if spp_column_id p \<notin> set indexed
      then Inl (UnsafePredicate (''cold filter column `'' @ spp_column p @
        ''` is not indexed; koldstore cold reads require WHERE filters on indexed columns''))
      else validate_prune_predicates_indexed ps indexed)"

subsection \<open>Segments and plans\<close>

record MergeMetadataAttnums =
  att_seq :: int
  att_deleted :: int
  att_scope :: "int option"

record SegmentHint =
  hint_segment_id :: string
  hint_scope_key :: "ScopeKey option"
  hint_object_path :: string
  hint_selected_row_groups :: "nat list"
  hint_min_seq :: SeqId
  hint_max_seq :: SeqId

record SegmentStatsHint =
  ssh_object_path :: string
  ssh_schema_version :: int
  ssh_physical_names :: "int \<rightharpoonup> string"
  ssh_byte_size :: "nat option"
  ssh_min_seq :: SeqId
  ssh_max_seq :: SeqId
  ssh_selected_row_groups :: "nat list option"
  ssh_scope_id :: "string option"

definition physical_name_for_segment_column :: "int \<Rightarrow> string \<Rightarrow> SegmentStatsHint \<Rightarrow> int \<Rightarrow> string option" where
  "physical_name_for_segment_column cid logical_name h current_schema_version =
     (case ssh_physical_names h cid of
        Some name \<Rightarrow> Some name
      | None \<Rightarrow> if ssh_schema_version h = current_schema_version then Some logical_name else None)"

datatype MirrorOverlayStrategy = MirrorMask

record MergeScanPlan =
  msp_table_oid :: nat
  msp_scanrelid :: nat
  msp_primary_key_columns :: "string list"
  msp_merge_metadata_attnums :: MergeMetadataAttnums
  msp_scope_key :: "ScopeKey option"
  msp_safe_quals :: "Predicate list"
  msp_residual_quals :: "Predicate list"
  msp_security_quals :: "Predicate list"
  msp_projection :: "string list"
  msp_segment_hints :: "SegmentHint list"
  msp_overlay_strategy :: MirrorOverlayStrategy

definition merge_scan_plan_new :: "nat \<Rightarrow> string list \<Rightarrow> MergeScanPlan" where
  "merge_scan_plan_new table_oid primary_key_columns =
     \<lparr>msp_table_oid = table_oid, msp_scanrelid = 0, msp_primary_key_columns = primary_key_columns,
      msp_merge_metadata_attnums = \<lparr>att_seq = 0, att_deleted = 0, att_scope = None\<rparr>, msp_scope_key = None,
      msp_safe_quals = [], msp_residual_quals = [], msp_security_quals = [], msp_projection = [],
      msp_segment_hints = [], msp_overlay_strategy = MirrorMask\<rparr>"

definition custom_exprs :: "MergeScanPlan \<Rightarrow> Predicate list" where
  "custom_exprs plan = msp_residual_quals plan @ msp_security_quals plan"

definition custom_private_projection :: "MergeScanPlan \<Rightarrow> string list" where
  "custom_private_projection plan = msp_projection plan"

subsection \<open>Grouping by sequence range\<close>

definition segment_seq_range :: "SegmentStatsHint \<Rightarrow> KoldstoreError + SeqId \<times> SeqId" where
  "segment_seq_range s =
     (if ssh_min_seq s > ssh_max_seq s
      then Inl (InvalidColdSegmentMetadata (''cold segment `'' @ ssh_object_path s @ ''` has reversed `seq` range ''
        @ show_int (ssh_min_seq s) @ ''..='' @ show_int (ssh_max_seq s)))
      else Inr (ssh_min_seq s, ssh_max_seq s))"

definition ranged :: "SegmentStatsHint list \<Rightarrow> KoldstoreError + (SegmentStatsHint \<times> SeqId \<times> SeqId) list" where
  "ranged segments = res_list (\<lambda>s. case segment_seq_range s of Inl e \<Rightarrow> Inl e | Inr r \<Rightarrow> Inr (s, r)) segments"

fun newest_key :: "SegmentStatsHint \<times> SeqId \<times> SeqId \<Rightarrow> int \<times> int \<times> string" where
  "newest_key (s, mn, mx) = (- mx, - mn, ssh_object_path s)"

fun newest_loop :: "(SegmentStatsHint \<times> SeqId \<times> SeqId) list \<Rightarrow> SegmentStatsHint list \<Rightarrow> SeqId option
    \<Rightarrow> SegmentStatsHint list list" where
  "newest_loop [] current current_min = (if current \<noteq> [] then [current] else [])"
| "newest_loop ((s, mn, mx) # rest) current current_min =
     (if (case current_min of None \<Rightarrow> False | Some group_min \<Rightarrow> mx < group_min)
      then current # newest_loop rest [s] (Some mn)
      else newest_loop rest (current @ [s])
        (Some (case current_min of None \<Rightarrow> mn | Some group_min \<Rightarrow> min group_min mn)))"

definition group_segments_newest_first :: "SegmentStatsHint list \<Rightarrow> KoldstoreError + SegmentStatsHint list list" where
  "group_segments_newest_first segments =
     (case ranged segments of
        Inl e \<Rightarrow> Inl e
      | Inr rs \<Rightarrow> Inr (newest_loop (sort_key newest_key rs) [] None))"

fun oldest_key :: "SegmentStatsHint \<times> SeqId \<times> SeqId \<Rightarrow> int \<times> int \<times> string" where
  "oldest_key (s, mn, mx) = (mn, mx, ssh_object_path s)"

fun oldest_loop :: "(SegmentStatsHint \<times> SeqId \<times> SeqId) list \<Rightarrow> SegmentStatsHint list \<Rightarrow> SeqId option
    \<Rightarrow> SegmentStatsHint list list" where
  "oldest_loop [] current current_max = (if current \<noteq> [] then [current] else [])"
| "oldest_loop ((s, mn, mx) # rest) current current_max =
     (if (case current_max of None \<Rightarrow> False | Some group_max \<Rightarrow> mn > group_max)
      then current # oldest_loop rest [s] (Some mx)
      else oldest_loop rest (current @ [s])
        (Some (case current_max of None \<Rightarrow> mx | Some group_max \<Rightarrow> max group_max mx)))"

definition group_segments_oldest_first :: "SegmentStatsHint list \<Rightarrow> KoldstoreError + SegmentStatsHint list list" where
  "group_segments_oldest_first segments =
     (case ranged segments of
        Inl e \<Rightarrow> Inl e
      | Inr rs \<Rightarrow> Inr (oldest_loop (sort_key oldest_key rs) [] None))"

subsection \<open>Ordered frontier\<close>

datatype OrderDirection = Asc | Desc

datatype FrontierDecision = HotStrictlyWins | ColdMayWinOrTie

definition compare_hot_to_cold_bound :: "OrderDirection \<Rightarrow> bytes option \<Rightarrow> bytes option \<Rightarrow> FrontierDecision" where
  "compare_hot_to_cold_bound direction hot_key cold_best_bound =
     (case hot_key of
        None \<Rightarrow> ColdMayWinOrTie
      | Some hot \<Rightarrow>
          (case cold_best_bound of
             None \<Rightarrow> HotStrictlyWins
           | Some cold \<Rightarrow>
               (case direction of
                  Asc \<Rightarrow> if hot < cold then HotStrictlyWins else ColdMayWinOrTie
                | Desc \<Rightarrow> if hot > cold then HotStrictlyWins else ColdMayWinOrTie)))"

definition hot_keys_dominate_bound :: "OrderDirection \<Rightarrow> bytes option list \<Rightarrow> bytes option \<Rightarrow> bool" where
  "hot_keys_dominate_bound direction hot_keys cold_bound =
     (if hot_keys = [] then cold_bound = None
      else list_all (\<lambda>key. compare_hot_to_cold_bound direction key cold_bound = HotStrictlyWins) hot_keys)"

definition get_bound :: "bytes option list \<Rightarrow> nat \<Rightarrow> bytes option" where
  "get_bound xs i = (if i < length xs then xs ! i else None)"

definition select_competitive_row_groups ::
  "OrderDirection \<Rightarrow> bytes option \<Rightarrow> bytes option list \<Rightarrow> bytes option list \<Rightarrow> nat list" where
  "select_competitive_row_groups direction hot_key mins maxs =
     (let n = max (length mins) (length maxs) in
      case hot_key of
        None \<Rightarrow> [0..<n]
      | Some hot \<Rightarrow> filter (\<lambda>i. case direction of
            Asc \<Rightarrow> (case get_bound mins i of None \<Rightarrow> True | Some b \<Rightarrow> b \<le> hot)
          | Desc \<Rightarrow> (case get_bound maxs i of None \<Rightarrow> True | Some b \<Rightarrow> b \<ge> hot)) [0..<n])"

definition intersect_row_group_selections :: "nat list \<Rightarrow> nat list \<Rightarrow> nat list" where
  "intersect_row_group_selections planned competitive =
     (let competitive = dedup_key (\<lambda>i. i) (sort competitive) in filter (\<lambda>g. g \<in> set competitive) planned)"

subsection \<open>Late materialisation\<close>

record ColumnRef =
  ref_column_id :: ColumnId
  ref_name :: string

record ColdProjectionPlan =
  cpp_compete :: "ColumnRef list"
  cpp_body :: "ColumnRef list"

definition for_ordered :: "ColumnRef list \<Rightarrow> ColumnRef list \<Rightarrow> ColumnRef \<Rightarrow> ColdProjectionPlan option" where
  "for_ordered full primary_key leading =
     (let compete = dedup_key ref_column_id (sort_key ref_column_id (primary_key @ [leading]));
          body = filter (\<lambda>c. ref_column_id c \<notin> ref_column_id ` set compete) full
      in if body = [] \<or> length compete \<ge> length full then None
         else Some \<lparr>cpp_compete = compete, cpp_body = body\<rparr>)"

definition body_with_primary_key :: "ColdProjectionPlan \<Rightarrow> ColumnRef list \<Rightarrow> ColumnRef list" where
  "body_with_primary_key plan primary_key =
     foldl (\<lambda>columns pk. if \<not> list_ex (\<lambda>c. ref_column_id c = ref_column_id pk) columns then columns @ [pk] else columns)
       (cpp_body plan) primary_key"

subsection \<open>Path strategies\<close>

record OrderedPathSpec =
  ops_sort_order_id :: int
  ops_leading_column_id :: int
  ops_primary_key_columns :: "int list"
  ops_scope_key :: string

definition ordered_path_spec_new :: "int \<Rightarrow> int \<Rightarrow> int list \<Rightarrow> OrderedPathSpec" where
  "ordered_path_spec_new sort_order leading pk =
     \<lparr>ops_sort_order_id = sort_order, ops_leading_column_id = leading, ops_primary_key_columns = pk, ops_scope_key = []\<rparr>"

definition with_scope_key :: "int \<Rightarrow> int \<Rightarrow> int list \<Rightarrow> string \<Rightarrow> OrderedPathSpec" where
  "with_scope_key sort_order leading pk scope =
     \<lparr>ops_sort_order_id = sort_order, ops_leading_column_id = leading, ops_primary_key_columns = pk, ops_scope_key = scope\<rparr>"

datatype KoldPathStrategy = ExactPrimaryKey | UnorderedHotFirst | OrderedProgressive OrderedPathSpec | GeneralMerge

datatype OrderColumnSupport = OrdPrimaryKey | OrdSegmentOrder | MutableOrUnsupported

record StrategyRequest =
  req_exact_full_primary_key_equality :: bool
  req_order_column :: "OrderColumnSupport option"
  req_sort_order_id :: int
  req_leading_column_id :: int
  req_primary_key_columns :: "int list"
  req_scope_key :: string

definition classify_path_strategy :: "StrategyRequest \<Rightarrow> KoldPathStrategy" where
  "classify_path_strategy r =
     (if req_exact_full_primary_key_equality r then ExactPrimaryKey
      else case req_order_column r of
          None \<Rightarrow> UnorderedHotFirst
        | Some MutableOrUnsupported \<Rightarrow> GeneralMerge
        | Some _ \<Rightarrow> OrderedProgressive (with_scope_key (req_sort_order_id r) (req_leading_column_id r)
            (req_primary_key_columns r) (req_scope_key r)))"

subsection \<open>Path portfolio\<close>

text \<open>A cost is the bit pattern of an f64; \<open>total_cmp\<close> orders the patterns by sign and magnitude.\<close>

definition total_key :: "u64 \<Rightarrow> int" where
  "total_key w = (let m = int (unat w mod 2 ^ 63) in if unat w < 2 ^ 63 then m else - m - 1)"

datatype PlannerPathKind = SeqScan | IndexScan | BitmapScan | CustomScan

record PlannerPath =
  path_name :: string
  path_kind :: PlannerPathKind
  path_cost :: u64

definition explain_label :: "PlannerPath \<Rightarrow> string" where
  "explain_label p =
     (case path_kind p of
        CustomScan \<Rightarrow> ''Custom Scan (KoldMergeScan)''
      | SeqScan \<Rightarrow> ''Seq Scan''
      | IndexScan \<Rightarrow> ''Index Scan''
      | BitmapScan \<Rightarrow> ''Bitmap Heap Scan'')"

record PortfolioPathEntry =
  ent_strategy :: KoldPathStrategy
  ent_prefers_hot_path_kind :: PlannerPathKind
  ent_hot_child :: PlannerPath
  ent_startup_bias :: u64
  ent_advertises_order :: bool

record PathPortfolioDecision =
  pf_entries :: "PortfolioPathEntry list"
  pf_removed_heap_final_paths :: nat

definition heap_only_final_path_available :: "PathPortfolioDecision \<Rightarrow> bool" where
  "heap_only_final_path_available d = False"

record HotChildCandidate =
  child_path :: PlannerPath
  child_order_column :: "OrderColumnSupport option"
  child_sort_order_id :: int
  child_leading_column_id :: int
  child_primary_key_columns :: "int list"
  child_exact_full_primary_key_equality :: bool
  child_scope_key :: string

definition strategy_request :: "HotChildCandidate \<Rightarrow> StrategyRequest" where
  "strategy_request c =
     \<lparr>req_exact_full_primary_key_equality = child_exact_full_primary_key_equality c,
      req_order_column = child_order_column c, req_sort_order_id = child_sort_order_id c,
      req_leading_column_id = child_leading_column_id c,
      req_primary_key_columns = child_primary_key_columns c, req_scope_key = child_scope_key c\<rparr>"

text \<open>\<open>min_by\<close>: the first child of least cost.\<close>

fun cheapest :: "HotChildCandidate \<Rightarrow> HotChildCandidate list \<Rightarrow> HotChildCandidate" where
  "cheapest c [] = c"
| "cheapest c (d # ds) =
     cheapest (if total_key (path_cost (child_path d)) < total_key (path_cost (child_path c)) then d else c) ds"

definition wrap_child :: "KoldPathStrategy \<Rightarrow> HotChildCandidate \<Rightarrow> u64 \<Rightarrow> bool \<Rightarrow> PortfolioPathEntry" where
  "wrap_child strategy c startup_bias advertises =
     \<lparr>ent_strategy = strategy, ent_prefers_hot_path_kind = path_kind (child_path c), ent_hot_child = child_path c,
      ent_startup_bias = startup_bias, ent_advertises_order = advertises\<rparr>"

fun ordered_entries :: "u64 \<Rightarrow> HotChildCandidate list \<Rightarrow> PortfolioPathEntry list" where
  "ordered_entries startup_bias [] = []"
| "ordered_entries startup_bias (c # cs) =
     (case classify_path_strategy (strategy_request c) of
        OrderedProgressive spec \<Rightarrow> wrap_child (OrderedProgressive spec) c startup_bias True # ordered_entries startup_bias cs
      | _ \<Rightarrow> ordered_entries startup_bias cs)"

definition build_path_portfolio :: "bool \<Rightarrow> HotChildCandidate list \<Rightarrow> u64 \<Rightarrow> PathPortfolioDecision option" where
  "build_path_portfolio is_managed children startup_bias =
     (if \<not> is_managed then Some \<lparr>pf_entries = [], pf_removed_heap_final_paths = 0\<rparr>
      else case children of
          [] \<Rightarrow> None
        | c # cs \<Rightarrow>
            let best = cheapest c cs;
                fallback = (case classify_path_strategy (strategy_request best) of
                    OrderedProgressive _ \<Rightarrow> GeneralMerge
                  | strategy \<Rightarrow> strategy)
            in Some \<lparr>pf_entries = wrap_child fallback best startup_bias False # ordered_entries startup_bias children,
                 pf_removed_heap_final_paths = length children\<rparr>)"

definition clear_partial_heap_paths :: "bool \<Rightarrow> bool" where
  "clear_partial_heap_paths is_managed = is_managed"

subsection \<open>Sweeping ranges in order\<close>

text \<open>The two grouping loops are one sweep over ranges sorted by their start, in opposite orders.  A group is
  linked when every range after its first meets an earlier one of the group.\<close>

definition linked :: "('b \<Rightarrow> 'b \<Rightarrow> bool) \<Rightarrow> ('a \<Rightarrow> 'b) \<Rightarrow> ('a \<Rightarrow> 'b) \<Rightarrow> 'a list \<Rightarrow> bool" where
  "linked le lo hi g \<longleftrightarrow> g \<noteq> [] \<and> (\<forall>ys z zs. g = ys @ z # zs \<longrightarrow> ys \<noteq> [] \<longrightarrow> (\<exists>y\<in>set ys. le (lo z) (hi y)))"

definition apart :: "('b \<Rightarrow> 'b \<Rightarrow> bool) \<Rightarrow> ('a \<Rightarrow> 'b) \<Rightarrow> ('a \<Rightarrow> 'b) \<Rightarrow> 'a list \<Rightarrow> 'a list \<Rightarrow> bool" where
  "apart le lo hi g h \<longleftrightarrow> (\<forall>a\<in>set g. \<forall>b\<in>set h. \<not> le (lo b) (hi a))"

lemma linked_single: "linked le lo hi [a]"
  by (auto simp: linked_def Cons_eq_append_conv)

lemma linked_snoc:
  assumes "linked le lo hi g" "y \<in> set g" "le (lo z) (hi y)"
  shows "linked le lo hi (g @ [z])"
  unfolding linked_def
proof (intro conjI allI impI)
  fix ys x zs
  assume split: "g @ [z] = ys @ x # zs" "ys \<noteq> []"
  show "\<exists>y\<in>set ys. le (lo x) (hi y)"
  proof (cases zs rule: rev_cases)
    case Nil
    then show ?thesis
      using split assms by auto
  next
    case (snoc us u)
    then have "g = ys @ x # us"
      using split(1) by simp
    then show ?thesis
      using assms(1) split(2) unfolding linked_def by blast
  qed
qed simp

locale range_sweep =
  fixes le :: "'b \<Rightarrow> 'b \<Rightarrow> bool" and lo hi :: "'a \<Rightarrow> 'b" and item :: "'a \<Rightarrow> 's"
    and loop :: "'a list \<Rightarrow> 's list \<Rightarrow> 'b option \<Rightarrow> 's list list"
  assumes le_refl: "le x x"
    and le_trans: "le x y \<Longrightarrow> le y z \<Longrightarrow> le x z"
    and le_total: "le x y \<or> le y x"
    and loop_nil: "loop [] cur opt = (if cur \<noteq> [] then [cur] else [])"
    and loop_start: "loop (a # as) [] None = loop as [item a] (Some (hi a))"
    and loop_join: "le (lo a) m \<Longrightarrow> loop (a # as) cur (Some m) = loop as (cur @ [item a]) (Some (if le m (hi a) then hi a else m))"
    and loop_split: "\<not> le (lo a) m \<Longrightarrow> loop (a # as) cur (Some m) = cur # loop as [item a] (Some (hi a))"
begin

lemma loop_groups:
  assumes "sorted_wrt (\<lambda>a b. le (lo a) (lo b)) as" "linked le lo hi cur" "\<forall>a\<in>set cur. le (hi a) m" "m \<in> hi ` set cur"
  shows "\<exists>g gs. loop as (map item cur) (Some m) = map (map item) ((cur @ g) # gs) \<and> as = g @ concat gs
    \<and> (\<forall>h\<in>set ((cur @ g) # gs). linked le lo hi h) \<and> sorted_wrt (apart le lo hi) ((cur @ g) # gs)"
  using assms
proof (induction as arbitrary: cur m)
  case Nil
  then show ?case
    by (intro exI [of _ "[]"]) (auto simp: loop_nil linked_def)
next
  case (Cons a as)
  show ?case
  proof (cases "le (lo a) m")
    case True
    let ?m = "if le m (hi a) then hi a else m"
    obtain y where y: "y \<in> set cur" "m = hi y"
      using Cons.prems(4) by blast
    have "linked le lo hi (cur @ [a])"
      using linked_snoc [OF Cons.prems(2) y(1)] True y(2) by simp
    moreover have "\<forall>x\<in>set (cur @ [a]). le (hi x) ?m"
      using Cons.prems(3) le_trans le_total [of m "hi a"] le_refl by auto
    moreover have "?m \<in> hi ` set (cur @ [a])"
      using y by auto
    ultimately obtain g gs where g: "loop as (map item (cur @ [a])) (Some ?m) = map (map item) ((cur @ [a] @ g) # gs)"
      "as = g @ concat gs" "\<forall>h\<in>set ((cur @ [a] @ g) # gs). linked le lo hi h"
      "sorted_wrt (apart le lo hi) ((cur @ [a] @ g) # gs)"
      using Cons.IH [of "cur @ [a]" ?m] Cons.prems(1) by auto
    then show ?thesis
      using loop_join [OF True] by (intro exI [of _ "a # g"] exI [of _ gs]) simp
  next
    case False
    obtain g gs where g: "loop as (map item [a]) (Some (hi a)) = map (map item) (([a] @ g) # gs)"
      "as = g @ concat gs" "\<forall>h\<in>set (([a] @ g) # gs). linked le lo hi h" "sorted_wrt (apart le lo hi) (([a] @ g) # gs)"
      using Cons.IH [of "[a]" "hi a"] Cons.prems(1) linked_single [of le lo hi a] le_refl by auto
    have later: "\<not> le (lo b) (hi x)" if "x \<in> set cur" "b \<in> set (a # as)" for x b
    proof
      assume "le (lo b) (hi x)"
      then have "le (lo b) m"
        using Cons.prems(3) that(1) le_trans by blast
      moreover have "le (lo a) (lo b)"
        using Cons.prems(1) that(2) le_refl by auto
      ultimately show False
        using False le_trans by blast
    qed
    have "\<forall>h\<in>set (([a] @ g) # gs). apart le lo hi cur h"
      using later g(2) by (fastforce simp: apart_def)
    then have "sorted_wrt (apart le lo hi) ((cur @ []) # ([a] @ g) # gs)"
      using g(4) by simp
    moreover have "\<forall>h\<in>set ((cur @ []) # ([a] @ g) # gs). linked le lo hi h"
      using g(3) Cons.prems(2) by simp
    moreover have "loop (a # as) (map item cur) (Some m) = map (map item) ((cur @ []) # ([a] @ g) # gs)"
      using loop_split [OF False] g(1) by simp
    moreover have "a # as = [] @ concat (([a] @ g) # gs)"
      using g(2) by simp
    ultimately show ?thesis
      by blast
  qed
qed

lemma loop_partition:
  assumes "sorted_wrt (\<lambda>a b. le (lo a) (lo b)) as"
  shows "\<exists>gs. loop as [] None = map (map item) gs \<and> as = concat gs \<and> (\<forall>h\<in>set gs. linked le lo hi h)
    \<and> sorted_wrt (apart le lo hi) gs"
proof (cases as)
  case Nil
  then show ?thesis
    by (intro exI [of _ "[]"]) (simp add: loop_nil)
next
  case (Cons a rest)
  obtain g gs where "loop rest (map item [a]) (Some (hi a)) = map (map item) (([a] @ g) # gs)" "rest = g @ concat gs"
    "\<forall>h\<in>set (([a] @ g) # gs). linked le lo hi h" "sorted_wrt (apart le lo hi) (([a] @ g) # gs)"
    using loop_groups [of rest "[a]" "hi a"] assms linked_single [of le lo hi a] le_refl unfolding Cons by auto
  then show ?thesis
    unfolding Cons using loop_start by (intro exI [of _ "([a] @ g) # gs"]) simp
qed

end

interpretation newest: range_sweep "(\<ge>)" "\<lambda>(s, mn, mx). mx" "\<lambda>(s, mn, mx). mn" fst newest_loop
  by unfold_locales (auto simp: min_def)

interpretation oldest: range_sweep "(\<le>)" "\<lambda>(s, mn, mx). mn" "\<lambda>(s, mn, mx). mx" fst oldest_loop
  by unfold_locales (auto simp: max_def)

definition with_range :: "SegmentStatsHint \<Rightarrow> SegmentStatsHint \<times> SeqId \<times> SeqId" where
  "with_range s = (s, ssh_min_seq s, ssh_max_seq s)"

definition reversed_error :: "SegmentStatsHint \<Rightarrow> KoldstoreError" where
  "reversed_error s = InvalidColdSegmentMetadata (''cold segment `'' @ ssh_object_path s @ ''` has reversed `seq` range ''
     @ show_int (ssh_min_seq s) @ ''..='' @ show_int (ssh_max_seq s))"

lemma ranged_result:
  "ranged segs = (case find (\<lambda>s. ssh_max_seq s < ssh_min_seq s) segs of
      None \<Rightarrow> Inr (map with_range segs) | Some s \<Rightarrow> Inl (reversed_error s))"
  unfolding ranged_def
  by (induction segs) (auto simp: segment_seq_range_def with_range_def reversed_error_def split: option.splits)

lemma linked_map:
  assumes "linked le lo hi (map f g)"
  shows "linked le (\<lambda>x. lo (f x)) (\<lambda>x. hi (f x)) g"
  unfolding linked_def
proof (intro conjI allI impI)
  fix ys z zs
  assume "g = ys @ z # zs" "ys \<noteq> []"
  then have "map f g = map f ys @ f z # map f zs" "map f ys \<noteq> []"
    by simp_all
  then have "\<exists>y\<in>set (map f ys). le (lo (f z)) (hi y)"
    using assms unfolding linked_def by blast
  then show "\<exists>y\<in>set ys. le (lo (f z)) (hi (f y))"
    by simp
qed (use assms in \<open>simp add: linked_def\<close>)

lemma sweep_shape:
  assumes "mset (concat gs) = mset (map with_range segs)"
  shows "\<exists>hs. gs = map (map with_range) hs \<and> map (map fst) gs = hs \<and> mset (concat hs) = mset segs"
proof -
  have "with_range (fst x) = x" if "g \<in> set gs" "x \<in> set g" for g x
  proof -
    have "x \<in> set_mset (mset (concat gs))"
      using that by auto
    then show ?thesis
      unfolding assms by (auto simp: with_range_def)
  qed
  then have "map (map with_range) (map (map fst) gs) = gs"
    by (simp add: map_idI)
  moreover have "mset (map fst (concat gs)) = mset (map fst (map with_range segs))"
    using assms by (metis mset_map)
  then have "mset (concat (map (map fst) gs)) = mset segs"
    by (simp add: map_concat with_range_def comp_def)
  ultimately show ?thesis
    by metis
qed

lemma newest_groups:
  "\<exists>groups. newest_loop (sort_key newest_key (map with_range segs)) [] None = groups \<and> mset (concat groups) = mset segs
    \<and> sorted_wrt (\<lambda>g h. \<forall>s\<in>set g. \<forall>t\<in>set h. ssh_max_seq t < ssh_min_seq s) groups
    \<and> (\<forall>g\<in>set groups. linked (\<ge>) ssh_max_seq ssh_min_seq g)"
proof -
  let ?rs = "sort_key newest_key (map with_range segs)"
  have "sorted_wrt (\<lambda>a b. newest_key a \<le> newest_key b) ?rs"
    using sorted_sort_key [of newest_key "map with_range segs"] by (simp add: sorted_map)
  then have "sorted_wrt (\<lambda>a b. (case b of (s, mn, mx) \<Rightarrow> mx) \<le> (case a of (s, mn, mx) \<Rightarrow> mx)) ?rs"
    by (rule sorted_wrt_mono_rel [rotated]) (auto simp: less_eq_prod_def with_range_def)
  then obtain gs where gs: "newest_loop ?rs [] None = map (map fst) gs" "?rs = concat gs"
    "\<forall>h\<in>set gs. linked (\<ge>) (\<lambda>(s, mn, mx). mx) (\<lambda>(s, mn, mx). mn) h"
    "sorted_wrt (apart (\<ge>) (\<lambda>(s, mn, mx). mx) (\<lambda>(s, mn, mx). mn)) gs"
    using newest.loop_partition by blast
  then obtain hs where hs: "gs = map (map with_range) hs" "map (map fst) gs = hs" "mset (concat hs) = mset segs"
    using sweep_shape [of gs segs] mset_sort by metis
  have "linked (\<ge>) ssh_max_seq ssh_min_seq g" if "g \<in> set hs" for g
    using linked_map [of "(\<ge>)" "\<lambda>(s, mn, mx). mx" "\<lambda>(s, mn, mx). mn" with_range g] gs(3) that
    by (simp add: hs(1) with_range_def)
  moreover have "sorted_wrt (\<lambda>g h. \<forall>s\<in>set g. \<forall>t\<in>set h. ssh_max_seq t < ssh_min_seq s) hs"
    using gs(4) unfolding hs(1) sorted_wrt_map by (rule sorted_wrt_mono_rel [rotated]) (auto simp: apart_def with_range_def not_le)
  ultimately show ?thesis
    using gs(1) hs(2,3) by simp
qed

lemma oldest_groups:
  "\<exists>groups. oldest_loop (sort_key oldest_key (map with_range segs)) [] None = groups \<and> mset (concat groups) = mset segs
    \<and> sorted_wrt (\<lambda>g h. \<forall>s\<in>set g. \<forall>t\<in>set h. ssh_max_seq s < ssh_min_seq t) groups
    \<and> (\<forall>g\<in>set groups. linked (\<le>) ssh_min_seq ssh_max_seq g)"
proof -
  let ?rs = "sort_key oldest_key (map with_range segs)"
  have "sorted_wrt (\<lambda>a b. oldest_key a \<le> oldest_key b) ?rs"
    using sorted_sort_key [of oldest_key "map with_range segs"] by (simp add: sorted_map)
  then have "sorted_wrt (\<lambda>a b. (case a of (s, mn, mx) \<Rightarrow> mn) \<le> (case b of (s, mn, mx) \<Rightarrow> mn)) ?rs"
    by (rule sorted_wrt_mono_rel [rotated]) (auto simp: less_eq_prod_def with_range_def)
  then obtain gs where gs: "oldest_loop ?rs [] None = map (map fst) gs" "?rs = concat gs"
    "\<forall>h\<in>set gs. linked (\<le>) (\<lambda>(s, mn, mx). mn) (\<lambda>(s, mn, mx). mx) h"
    "sorted_wrt (apart (\<le>) (\<lambda>(s, mn, mx). mn) (\<lambda>(s, mn, mx). mx)) gs"
    using oldest.loop_partition by blast
  then obtain hs where hs: "gs = map (map with_range) hs" "map (map fst) gs = hs" "mset (concat hs) = mset segs"
    using sweep_shape [of gs segs] mset_sort by metis
  have "linked (\<le>) ssh_min_seq ssh_max_seq g" if "g \<in> set hs" for g
    using linked_map [of "(\<le>)" "\<lambda>(s, mn, mx). mn" "\<lambda>(s, mn, mx). mx" with_range g] gs(3) that
    by (simp add: hs(1) with_range_def)
  moreover have "sorted_wrt (\<lambda>g h. \<forall>s\<in>set g. \<forall>t\<in>set h. ssh_max_seq s < ssh_min_seq t) hs"
    using gs(4) unfolding hs(1) sorted_wrt_map by (rule sorted_wrt_mono_rel [rotated]) (auto simp: apart_def with_range_def not_le)
  ultimately show ?thesis
    using gs(1) hs(2,3) by simp
qed

text \<open>
  C31.  Batches by sequence range, newest first for scans and oldest first for cursors.  For valid ranges each
  grouping is a partition of the segments; a batch lies wholly above (for oldest first, below) every later
  batch, so a scan may emit a batch before opening the next; and within a batch every segment after the first
  overlaps an earlier one, so no batch could be split where the sweep stands.  A reversed range is an error that
  names the first such segment.
\<close>

theorem group_segments_partition:
  "case find (\<lambda>s. ssh_max_seq s < ssh_min_seq s) segments of
     Some s \<Rightarrow> group_segments_newest_first segments = Inl (reversed_error s)
       \<and> group_segments_oldest_first segments = Inl (reversed_error s)
   | None \<Rightarrow>
       (\<exists>groups. group_segments_newest_first segments = Inr groups \<and> mset (concat groups) = mset segments
         \<and> sorted_wrt (\<lambda>g h. \<forall>s\<in>set g. \<forall>t\<in>set h. ssh_max_seq t < ssh_min_seq s) groups
         \<and> (\<forall>g\<in>set groups. linked (\<ge>) ssh_max_seq ssh_min_seq g))
       \<and> (\<exists>groups. group_segments_oldest_first segments = Inr groups \<and> mset (concat groups) = mset segments
         \<and> sorted_wrt (\<lambda>g h. \<forall>s\<in>set g. \<forall>t\<in>set h. ssh_max_seq s < ssh_min_seq t) groups
         \<and> (\<forall>g\<in>set groups. linked (\<le>) ssh_min_seq ssh_max_seq g))"
  using newest_groups [of segments] oldest_groups [of segments]
  by (cases "find (\<lambda>s. ssh_max_seq s < ssh_min_seq s) segments")
    (simp_all add: group_segments_newest_first_def group_segments_oldest_first_def ranged_result)

definition sample_segment :: "string \<Rightarrow> int \<Rightarrow> int \<Rightarrow> SegmentStatsHint" where
  "sample_segment path mn mx = \<lparr>ssh_object_path = path, ssh_schema_version = 1, ssh_physical_names = Map.empty,
     ssh_byte_size = None, ssh_min_seq = mn, ssh_max_seq = mx, ssh_selected_row_groups = None, ssh_scope_id = None\<rparr>"

theorem group_segments_partition_witness:
  "\<exists>groups. group_segments_newest_first [sample_segment ''a'' 1 4, sample_segment ''b'' 6 9, sample_segment ''c'' 8 12] = Inr groups
    \<and> mset (concat groups) = mset [sample_segment ''a'' 1 4, sample_segment ''b'' 6 9, sample_segment ''c'' 8 12]"
  using group_segments_partition [of "[sample_segment ''a'' 1 4, sample_segment ''b'' 6 9, sample_segment ''c'' 8 12]"]
  by (simp add: sample_segment_def) blast

subsection \<open>Ordered frontier and row groups\<close>

text \<open>A bound is good for the keys behind it when no key lies before it in the scan's direction.\<close>

fun key_before :: "OrderDirection \<Rightarrow> bytes \<Rightarrow> bytes \<Rightarrow> bool" where
  "key_before Asc a b \<longleftrightarrow> a < b"
| "key_before Desc a b \<longleftrightarrow> a > b"

definition bounds_keys :: "OrderDirection \<Rightarrow> bytes option list \<Rightarrow> bytes option list \<Rightarrow> nat \<Rightarrow> bytes list \<Rightarrow> bool" where
  "bounds_keys direction mins maxs i ks \<longleftrightarrow>
     (case get_bound (case direction of Asc \<Rightarrow> mins | Desc \<Rightarrow> maxs) i of
        None \<Rightarrow> True | Some b \<Rightarrow> (\<forall>k\<in>set ks. \<not> key_before direction k b))"

lemma dedup_key_set: "f ` set (dedup_key f xs) = f ` set xs"
  by (induction f xs rule: dedup_key.induct) auto

text \<open>
  C32.  The ordered frontier is safe: when the hot keys dominate the cold bound, every hot key comes strictly
  before every key behind that bound; and the row groups that remain after intersecting the planned groups with
  the competitive ones contain every planned group that holds a key not strictly after the hot key.
\<close>

theorem ordered_frontier_safe:
  assumes "hot_keys_dominate_bound direction hot_keys (Some bound)" "\<forall>k\<in>set cold_keys. \<not> key_before direction k bound"
    and "bounds_keys direction mins maxs g group_keys" "g \<in> set planned" "g < max (length mins) (length maxs)"
    and "k \<in> set group_keys" "\<not> key_before direction hot k"
  shows "(\<forall>h\<in>set hot_keys. \<exists>a. h = Some a \<and> (\<forall>c\<in>set cold_keys. key_before direction a c))
    \<and> g \<in> set (intersect_row_group_selections planned (select_competitive_row_groups direction (Some hot) mins maxs))"
proof
  have "\<exists>a. h = Some a \<and> key_before direction a bound" if "h \<in> set hot_keys" for h
    using assms(1) that
    by (auto simp: hot_keys_dominate_bound_def list_all_iff compare_hot_to_cold_bound_def
        split: if_splits option.splits OrderDirection.splits)
  then show "\<forall>h\<in>set hot_keys. \<exists>a. h = Some a \<and> (\<forall>c\<in>set cold_keys. key_before direction a c)"
    using assms(2) by (cases direction) fastforce+
  have "g \<in> set (select_competitive_row_groups direction (Some hot) mins maxs)"
    using assms(3,5-7) by (cases direction) (force simp: select_competitive_row_groups_def bounds_keys_def split: option.splits)+
  then show "g \<in> set (intersect_row_group_selections planned (select_competitive_row_groups direction (Some hot) mins maxs))"
    using assms(4) dedup_key_set [of "\<lambda>i. i" "sort (select_competitive_row_groups direction (Some hot) mins maxs)"]
    by (simp add: intersect_row_group_selections_def Let_def)
qed

theorem ordered_frontier_safe_witness:
  "hot_keys_dominate_bound Asc [Some [1]] (Some [5])
    \<and> 1 \<in> set (intersect_row_group_selections [0, 1] (select_competitive_row_groups Asc (Some [4]) [Some [9], Some [2]] []))"
proof -
  have "hot_keys_dominate_bound Asc [Some [1]] (Some [5])"
    by (simp add: hot_keys_dominate_bound_def compare_hot_to_cold_bound_def)
  then show ?thesis
    using ordered_frontier_safe [of Asc "[Some [1]]" "[5]" "[[6]]" "[Some [9], Some [2]]" "[]" 1 "[[3]]" "[0, 1]" "[3]" "[4]"]
    by (simp add: bounds_keys_def get_bound_def)
qed

end
