(* ===== verification/Supervisor.thy ===== *)
theory Supervisor
  imports Prelude
begin

unbundle bit_operations_syntax

text \<open>
  The supervisor's shared registry (\<open>koldstore-supervisor/src/supervisor.rs\<close>): an open-addressed table of
  per-database counters that backends publish to and workers acknowledge.  The first part gives every operation
  as one step on the registry and relates the table to a map from database oids to entries.  The second part
  splits the operations that race into their atomic accesses and interleaves them: reservation of flush slots,
  and publication against acknowledgement of a generation.
\<close>

subsection \<open>Entries\<close>

definition EVENT_WAL_DIRTY :: "32 word" where "EVENT_WAL_DIRTY = push_bit 0 1"
definition EVENT_FLUSH_QUEUE_DIRTY :: "32 word" where "EVENT_FLUSH_QUEUE_DIRTY = push_bit 1 1"
definition EVENT_RECOVERY_REQUIRED :: "32 word" where "EVENT_RECOVERY_REQUIRED = push_bit 2 1"
definition EVENT_SCHEDULE_DIRTY :: "32 word" where "EVENT_SCHEDULE_DIRTY = push_bit 3 1"

definition WORKER_FREE :: int where "WORKER_FREE = 0"
definition WORKER_STARTING :: int where "WORKER_STARTING = - 1"

record DatabaseWorkEntry =
  dw_database_oid :: nat
  dw_wal_generation :: u64
  dw_wal_processed_generation :: u64
  dw_maintenance_generation :: u64
  dw_maintenance_processed_generation :: u64
  dw_flush_generation :: u64
  dw_flush_processed_generation :: u64
  dw_event_flags :: "32 word"
  dw_maintenance_pid :: int
  dw_flush_starting :: nat
  dw_flush_running :: nat
  dw_flush_limit :: nat
  dw_next_flush_due_at_ms :: int
  dw_next_maintenance_due_at_ms :: int

type_synonym DatabaseWorkSnapshot = DatabaseWorkEntry

definition entry_empty :: DatabaseWorkEntry where
  "entry_empty = \<lparr>dw_database_oid = 0, dw_wal_generation = 0, dw_wal_processed_generation = 0,
     dw_maintenance_generation = 0, dw_maintenance_processed_generation = 0, dw_flush_generation = 0,
     dw_flush_processed_generation = 0, dw_event_flags = 0, dw_maintenance_pid = WORKER_FREE, dw_flush_starting = 0,
     dw_flush_running = 0, dw_flush_limit = 1, dw_next_flush_due_at_ms = 0, dw_next_maintenance_due_at_ms = 0\<rparr>"

definition entry_snapshot :: "DatabaseWorkEntry \<Rightarrow> DatabaseWorkSnapshot" where
  "entry_snapshot e = e\<lparr>dw_flush_limit := max (dw_flush_limit e) 1\<rparr>"

definition maintenance_due :: "DatabaseWorkSnapshot \<Rightarrow> bool" where
  "maintenance_due s \<longleftrightarrow> dw_wal_generation s \<noteq> dw_wal_processed_generation s
     \<or> dw_maintenance_generation s \<noteq> dw_maintenance_processed_generation s"

definition flush_due :: "DatabaseWorkSnapshot \<Rightarrow> bool" where
  "flush_due s \<longleftrightarrow> dw_flush_generation s \<noteq> dw_flush_processed_generation s"

definition sat_add_u32 :: "nat \<Rightarrow> nat \<Rightarrow> nat" where
  "sat_add_u32 a b = min u32_max (a + b)"

definition flush_workers :: "DatabaseWorkSnapshot \<Rightarrow> nat" where
  "flush_workers s = sat_add_u32 (dw_flush_starting s) (dw_flush_running s)"

subsection \<open>Registry\<close>

record SupervisorRegistry =
  reg_supervisor_pid :: int
  reg_overflow_reconcile_required :: nat
  reg_entries :: "DatabaseWorkEntry list"

definition registry_default :: "nat \<Rightarrow> SupervisorRegistry" where
  "registry_default n = \<lparr>reg_supervisor_pid = 0, reg_overflow_reconcile_required = 0, reg_entries = replicate n entry_empty\<rparr>"

definition register_supervisor :: "int \<Rightarrow> SupervisorRegistry \<Rightarrow> SupervisorRegistry" where
  "register_supervisor pid r = r\<lparr>reg_supervisor_pid := pid\<rparr>"

definition unregister_supervisor :: "int \<Rightarrow> SupervisorRegistry \<Rightarrow> SupervisorRegistry" where
  "unregister_supervisor pid r = (if reg_supervisor_pid r = pid then r\<lparr>reg_supervisor_pid := 0\<rparr> else r)"

definition supervisor_pid :: "SupervisorRegistry \<Rightarrow> int option" where
  "supervisor_pid r = (if reg_supervisor_pid r > 0 then Some (reg_supervisor_pid r) else None)"

definition registry_start_index :: "nat \<Rightarrow> nat \<Rightarrow> nat" where
  "registry_start_index n oid = (oid * 0x9E3779B1) mod 2 ^ 64 mod n"

text \<open>Both lookups probe the slots from the start index; \<open>probe\<close> gives the first slot that is free or holds the oid.\<close>

fun probe :: "DatabaseWorkEntry list \<Rightarrow> nat \<Rightarrow> nat \<Rightarrow> nat list \<Rightarrow> nat option" where
  "probe es oid start [] = None"
| "probe es oid start (k # ks) =
     (let i = (start + k) mod length es; current = dw_database_oid (es ! i) in
      if current = oid \<or> current = 0 then Some i else probe es oid start ks)"

definition reg_find :: "nat \<Rightarrow> SupervisorRegistry \<Rightarrow> nat option" where
  "reg_find oid r =
     (let es = reg_entries r; n = length es in
      if n = 0 \<or> oid = 0 then None
      else case probe es oid (registry_start_index n oid) [0..<n] of
          None \<Rightarrow> None
        | Some i \<Rightarrow> if dw_database_oid (es ! i) = oid then Some i else None)"

definition entry_or_overflow :: "nat \<Rightarrow> SupervisorRegistry \<Rightarrow> SupervisorRegistry \<times> nat option" where
  "entry_or_overflow oid r =
     (let es = reg_entries r; n = length es in
      if n = 0 \<or> oid = 0 then (r\<lparr>reg_overflow_reconcile_required := 1\<rparr>, None)
      else case probe es oid (registry_start_index n oid) [0..<n] of
          None \<Rightarrow> (r\<lparr>reg_overflow_reconcile_required := 1\<rparr>, None)
        | Some i \<Rightarrow>
            if dw_database_oid (es ! i) = oid then (r, Some i)
            else (r\<lparr>reg_entries := es[i := (es ! i)\<lparr>dw_database_oid := oid\<rparr>]\<rparr>, Some i))"

definition set_entry :: "nat \<Rightarrow> (DatabaseWorkEntry \<Rightarrow> DatabaseWorkEntry) \<Rightarrow> SupervisorRegistry \<Rightarrow> SupervisorRegistry" where
  "set_entry i f r = r\<lparr>reg_entries := (reg_entries r)[i := f (reg_entries r ! i)]\<rparr>"

text \<open>The two ways an operation reaches its entry: allocating it, or only when it exists.\<close>

definition with_entry :: "nat \<Rightarrow> (DatabaseWorkEntry \<Rightarrow> DatabaseWorkEntry) \<Rightarrow> SupervisorRegistry \<Rightarrow> SupervisorRegistry \<times> DatabaseWorkEntry option" where
  "with_entry oid f r =
     (case entry_or_overflow oid r of
        (r, None) \<Rightarrow> (r, None)
      | (r, Some i) \<Rightarrow> (set_entry i f r, Some (reg_entries r ! i)))"

definition with_found :: "nat \<Rightarrow> (DatabaseWorkEntry \<Rightarrow> DatabaseWorkEntry) \<Rightarrow> SupervisorRegistry \<Rightarrow> SupervisorRegistry \<times> DatabaseWorkEntry option" where
  "with_found oid f r =
     (case reg_find oid r of
        None \<Rightarrow> (r, None)
      | Some i \<Rightarrow> (set_entry i f r, Some (reg_entries r ! i)))"

subsection \<open>Publication\<close>

definition notify :: "SupervisorRegistry \<times> DatabaseWorkEntry option \<Rightarrow> SupervisorRegistry \<times> int option" where
  "notify x = (case x of (r, None) \<Rightarrow> (r, None) | (r, Some _) \<Rightarrow> (r, supervisor_pid r))"

definition publish_wal :: "nat \<Rightarrow> SupervisorRegistry \<Rightarrow> SupervisorRegistry \<times> int option" where
  "publish_wal oid r = notify (with_entry oid (\<lambda>e. e\<lparr>dw_wal_generation := dw_wal_generation e + 1,
     dw_event_flags := dw_event_flags e OR EVENT_WAL_DIRTY\<rparr>) r)"

definition publish_flush :: "nat \<Rightarrow> SupervisorRegistry \<Rightarrow> SupervisorRegistry \<times> int option" where
  "publish_flush oid r = notify (with_entry oid (\<lambda>e. e\<lparr>dw_flush_generation := dw_flush_generation e + 1,
     dw_event_flags := dw_event_flags e OR EVENT_FLUSH_QUEUE_DIRTY\<rparr>) r)"

definition request_recovery :: "nat \<Rightarrow> SupervisorRegistry \<Rightarrow> SupervisorRegistry \<times> int option" where
  "request_recovery oid r = notify (with_entry oid (\<lambda>e. e\<lparr>dw_maintenance_generation := dw_maintenance_generation e + 1,
     dw_event_flags := dw_event_flags e OR EVENT_RECOVERY_REQUIRED\<rparr>) r)"

definition publish_schedule :: "nat \<Rightarrow> SupervisorRegistry \<Rightarrow> SupervisorRegistry \<times> int option" where
  "publish_schedule oid r = notify (with_entry oid (\<lambda>e. e\<lparr>dw_maintenance_generation := dw_maintenance_generation e + 1,
     dw_event_flags := dw_event_flags e OR EVENT_SCHEDULE_DIRTY\<rparr>) r)"

definition reg_snapshot :: "nat \<Rightarrow> SupervisorRegistry \<Rightarrow> DatabaseWorkSnapshot option" where
  "reg_snapshot oid r = map_option (\<lambda>i. entry_snapshot (reg_entries r ! i)) (reg_find oid r)"

definition snapshots :: "SupervisorRegistry \<Rightarrow> DatabaseWorkSnapshot list" where
  "snapshots r = map entry_snapshot (filter (\<lambda>e. dw_database_oid e \<noteq> 0) (reg_entries r))"

subsection \<open>Maintenance workers\<close>

text \<open>\<open>compare_exchange\<close> on one field, and whether it succeeded on the entry found.\<close>

definition try_reserve_maintenance :: "nat \<Rightarrow> SupervisorRegistry \<Rightarrow> SupervisorRegistry \<times> bool" where
  "try_reserve_maintenance oid r =
     (case with_entry oid (\<lambda>e. if dw_maintenance_pid e = WORKER_FREE then e\<lparr>dw_maintenance_pid := WORKER_STARTING\<rparr> else e) r of
        (r, None) \<Rightarrow> (r, False)
      | (r, Some e) \<Rightarrow> (r, dw_maintenance_pid e = WORKER_FREE))"

definition maintenance_started :: "nat \<Rightarrow> int \<Rightarrow> SupervisorRegistry \<Rightarrow> SupervisorRegistry \<times> bool" where
  "maintenance_started oid pid r =
     (case with_found oid (\<lambda>e. if dw_maintenance_pid e = WORKER_STARTING then e\<lparr>dw_maintenance_pid := pid\<rparr> else e) r of
        (r, None) \<Rightarrow> (r, False)
      | (r, Some e) \<Rightarrow> (r, dw_maintenance_pid e = WORKER_STARTING))"

definition cancel_maintenance_start :: "nat \<Rightarrow> SupervisorRegistry \<Rightarrow> SupervisorRegistry" where
  "cancel_maintenance_start oid r =
     fst (with_found oid (\<lambda>e. if dw_maintenance_pid e = WORKER_STARTING then e\<lparr>dw_maintenance_pid := WORKER_FREE\<rparr> else e) r)"

definition maintenance_stopped :: "nat \<Rightarrow> int \<Rightarrow> SupervisorRegistry \<Rightarrow> SupervisorRegistry" where
  "maintenance_stopped oid pid r =
     fst (with_found oid (\<lambda>e. if dw_maintenance_pid e = pid then e\<lparr>dw_maintenance_pid := WORKER_FREE\<rparr> else e) r)"

definition clear_stale_maintenance :: "nat \<Rightarrow> SupervisorRegistry \<Rightarrow> SupervisorRegistry" where
  "clear_stale_maintenance oid r = fst (with_found oid (\<lambda>e. e\<lparr>dw_maintenance_pid := WORKER_FREE\<rparr>) r)"

subsection \<open>Acknowledgement\<close>

definition clear_flag_if_generation_current :: "u64 \<Rightarrow> u64 \<Rightarrow> 32 word \<Rightarrow> 32 word \<Rightarrow> 32 word" where
  "clear_flag_if_generation_current current processed flags flag =
     (if current \<noteq> processed then flags
      else let flags = flags AND NOT flag in if current \<noteq> processed then flags OR flag else flags)"

definition atomic_max :: "u64 \<Rightarrow> u64 \<Rightarrow> u64" where
  "atomic_max target value = (if target < value then value else target)"

definition atomic_min_nonzero :: "int \<Rightarrow> int \<Rightarrow> int" where
  "atomic_min_nonzero target value = (if target > 0 \<and> target \<le> value then target else value)"

definition mark_wal_processed :: "nat \<Rightarrow> u64 \<Rightarrow> SupervisorRegistry \<Rightarrow> SupervisorRegistry" where
  "mark_wal_processed oid generation r = fst (with_found oid (\<lambda>e.
     e\<lparr>dw_wal_processed_generation := atomic_max (dw_wal_processed_generation e) generation,
       dw_event_flags := clear_flag_if_generation_current (dw_wal_generation e) generation (dw_event_flags e) EVENT_WAL_DIRTY\<rparr>) r)"

definition mark_maintenance_reconciled :: "nat \<Rightarrow> u64 \<Rightarrow> SupervisorRegistry \<Rightarrow> SupervisorRegistry" where
  "mark_maintenance_reconciled oid generation r = fst (with_found oid (\<lambda>e.
     let e = e\<lparr>dw_maintenance_processed_generation := atomic_max (dw_maintenance_processed_generation e) generation\<rparr> in
     if dw_maintenance_generation e = generation then
       let e = e\<lparr>dw_event_flags := dw_event_flags e AND NOT (EVENT_RECOVERY_REQUIRED OR EVENT_SCHEDULE_DIRTY)\<rparr> in
       if dw_maintenance_generation e \<noteq> generation
       then e\<lparr>dw_event_flags := dw_event_flags e OR EVENT_RECOVERY_REQUIRED\<rparr> else e
     else e) r)"

definition mark_flush_processed :: "nat \<Rightarrow> u64 \<Rightarrow> SupervisorRegistry \<Rightarrow> SupervisorRegistry" where
  "mark_flush_processed oid generation r = fst (with_found oid (\<lambda>e.
     e\<lparr>dw_flush_processed_generation := atomic_max (dw_flush_processed_generation e) generation,
       dw_event_flags := clear_flag_if_generation_current (dw_flush_generation e) generation (dw_event_flags e) EVENT_FLUSH_QUEUE_DIRTY\<rparr>) r)"

subsection \<open>Flush slots\<close>

definition take_one_if_positive :: "nat \<Rightarrow> nat \<times> bool" where
  "take_one_if_positive target = (if target > 0 then (target - 1, True) else (target, False))"

definition decrement_if_positive :: "nat \<Rightarrow> nat" where
  "decrement_if_positive target = fst (take_one_if_positive target)"

definition set_flush_limit :: "nat \<Rightarrow> nat \<Rightarrow> SupervisorRegistry \<Rightarrow> SupervisorRegistry" where
  "set_flush_limit oid limit r = fst (with_entry oid (\<lambda>e. e\<lparr>dw_flush_limit := max limit 1\<rparr>) r)"

definition slot_free :: "DatabaseWorkEntry \<Rightarrow> bool" where
  "slot_free e \<longleftrightarrow> sat_add_u32 (dw_flush_starting e) (dw_flush_running e) < max (dw_flush_limit e) 1"

definition try_reserve_flush :: "nat \<Rightarrow> SupervisorRegistry \<Rightarrow> SupervisorRegistry \<times> bool" where
  "try_reserve_flush oid r =
     (case with_entry oid (\<lambda>e. if slot_free e then e\<lparr>dw_flush_starting := sat_add_u32 (dw_flush_starting e) 1\<rparr> else e) r of
        (r, None) \<Rightarrow> (r, False)
      | (r, Some e) \<Rightarrow> (r, slot_free e))"

definition flush_started :: "nat \<Rightarrow> nat \<Rightarrow> SupervisorRegistry \<Rightarrow> SupervisorRegistry \<times> bool" where
  "flush_started oid effective_limit r =
     (case with_found oid (\<lambda>e.
         let e = e\<lparr>dw_flush_running := (dw_flush_running e + 1) mod 2 ^ 32\<rparr> in
         case take_one_if_positive (dw_flush_starting e) of
           (_, False) \<Rightarrow> e\<lparr>dw_flush_running := decrement_if_positive (dw_flush_running e)\<rparr>
         | (starting, True) \<Rightarrow> e\<lparr>dw_flush_starting := starting, dw_flush_limit := max effective_limit 1\<rparr>) r of
        (r, None) \<Rightarrow> (r, False)
      | (r, Some e) \<Rightarrow> (r, dw_flush_starting e > 0))"

definition cancel_flush_start :: "nat \<Rightarrow> SupervisorRegistry \<Rightarrow> SupervisorRegistry" where
  "cancel_flush_start oid r = fst (with_found oid (\<lambda>e. e\<lparr>dw_flush_starting := decrement_if_positive (dw_flush_starting e)\<rparr>) r)"

definition flush_stopped :: "nat \<Rightarrow> SupervisorRegistry \<Rightarrow> SupervisorRegistry" where
  "flush_stopped oid r = fst (with_found oid (\<lambda>e. e\<lparr>dw_flush_running := decrement_if_positive (dw_flush_running e)\<rparr>) r)"

definition reconcile_flush_counts :: "nat \<Rightarrow> nat \<Rightarrow> SupervisorRegistry \<Rightarrow> SupervisorRegistry" where
  "reconcile_flush_counts oid running r =
     fst (with_entry oid (\<lambda>e. e\<lparr>dw_flush_starting := 0, dw_flush_running := running\<rparr>) r)"

subsection \<open>Deadlines\<close>

definition schedule_flush_at_ms :: "nat \<Rightarrow> int \<Rightarrow> SupervisorRegistry \<Rightarrow> SupervisorRegistry" where
  "schedule_flush_at_ms oid deadline_ms r =
     (if deadline_ms \<le> 0 then r
      else fst (with_entry oid (\<lambda>e. e\<lparr>dw_next_flush_due_at_ms := atomic_min_nonzero (dw_next_flush_due_at_ms e) deadline_ms\<rparr>) r))"

definition clear_flush_deadline :: "nat \<Rightarrow> SupervisorRegistry \<Rightarrow> SupervisorRegistry" where
  "clear_flush_deadline oid r = fst (with_found oid (\<lambda>e. e\<lparr>dw_next_flush_due_at_ms := 0\<rparr>) r)"

definition consume_flush_deadline :: "nat \<Rightarrow> int \<Rightarrow> SupervisorRegistry \<Rightarrow> SupervisorRegistry \<times> bool" where
  "consume_flush_deadline oid sampled_ms r =
     (case with_found oid (\<lambda>e. if sampled_ms > 0 \<and> dw_next_flush_due_at_ms e = sampled_ms
         then e\<lparr>dw_next_flush_due_at_ms := 0\<rparr> else e) r of
        (r, None) \<Rightarrow> (r, False)
      | (r, Some e) \<Rightarrow> (r, sampled_ms > 0 \<and> dw_next_flush_due_at_ms e = sampled_ms))"

definition schedule_maintenance_at_ms :: "nat \<Rightarrow> int \<Rightarrow> SupervisorRegistry \<Rightarrow> SupervisorRegistry" where
  "schedule_maintenance_at_ms oid deadline_ms r =
     (if deadline_ms \<le> 0 then r
      else fst (with_entry oid (\<lambda>e. e\<lparr>dw_next_maintenance_due_at_ms := atomic_min_nonzero (dw_next_maintenance_due_at_ms e) deadline_ms\<rparr>) r))"

definition clear_maintenance_deadline :: "nat \<Rightarrow> SupervisorRegistry \<Rightarrow> SupervisorRegistry" where
  "clear_maintenance_deadline oid r = fst (with_found oid (\<lambda>e. e\<lparr>dw_next_maintenance_due_at_ms := 0\<rparr>) r)"

definition consume_maintenance_deadline :: "nat \<Rightarrow> int \<Rightarrow> SupervisorRegistry \<Rightarrow> SupervisorRegistry \<times> bool" where
  "consume_maintenance_deadline oid sampled_ms r =
     (case with_found oid (\<lambda>e. if sampled_ms > 0 \<and> dw_next_maintenance_due_at_ms e = sampled_ms
         then e\<lparr>dw_next_maintenance_due_at_ms := 0\<rparr> else e) r of
        (r, None) \<Rightarrow> (r, False)
      | (r, Some e) \<Rightarrow> (r, sampled_ms > 0 \<and> dw_next_maintenance_due_at_ms e = sampled_ms))"

text \<open>Without a concurrent publication the retry loop of \<open>quiesce\<close> returns in its first round.\<close>

definition quiesce :: "nat \<Rightarrow> SupervisorRegistry \<Rightarrow> SupervisorRegistry \<times> bool" where
  "quiesce oid r =
     (case with_found oid (\<lambda>e. e\<lparr>dw_next_flush_due_at_ms := 0, dw_next_maintenance_due_at_ms := 0,
         dw_maintenance_pid := WORKER_FREE, dw_flush_starting := 0, dw_flush_running := 0,
         dw_wal_processed_generation := dw_wal_generation e,
         dw_maintenance_processed_generation := dw_maintenance_generation e,
         dw_flush_processed_generation := dw_flush_generation e, dw_event_flags := 0\<rparr>) r of
        (r, None) \<Rightarrow> (r, False)
      | (r, Some e) \<Rightarrow> (r, True))"

definition overflow_reconcile_required :: "SupervisorRegistry \<Rightarrow> bool" where
  "overflow_reconcile_required r \<longleftrightarrow> reg_overflow_reconcile_required r \<noteq> 0"

definition clear_overflow_reconcile_required :: "SupervisorRegistry \<Rightarrow> SupervisorRegistry" where
  "clear_overflow_reconcile_required r = r\<lparr>reg_overflow_reconcile_required := 0\<rparr>"

subsection \<open>The table as a map\<close>

definition table_of :: "SupervisorRegistry \<Rightarrow> nat \<rightharpoonup> DatabaseWorkEntry" where
  "table_of r oid = (if oid = 0 then None else find (\<lambda>e. dw_database_oid e = oid) (reg_entries r))"

definition slot_oid :: "SupervisorRegistry \<Rightarrow> nat \<Rightarrow> nat" where
  "slot_oid r i = dw_database_oid (reg_entries r ! i)"

definition reg_size :: "SupervisorRegistry \<Rightarrow> nat" where
  "reg_size r = length (reg_entries r)"

definition slot_at :: "SupervisorRegistry \<Rightarrow> nat \<Rightarrow> nat \<Rightarrow> nat" where
  "slot_at r oid d = (registry_start_index (reg_size r) oid + d) mod reg_size r"

text \<open>Allocated oids are distinct, a free slot is empty, and every allocated oid is reached by probing
  through allocated slots only.\<close>

definition reg_ok :: "SupervisorRegistry \<Rightarrow> bool" where
  "reg_ok r \<longleftrightarrow>
     (\<forall>i<reg_size r. \<forall>j<reg_size r. slot_oid r i = slot_oid r j \<longrightarrow> slot_oid r i \<noteq> 0 \<longrightarrow> i = j)
     \<and> (\<forall>i<reg_size r. slot_oid r i = 0 \<longrightarrow> reg_entries r ! i = entry_empty)
     \<and> (\<forall>i<reg_size r. slot_oid r i \<noteq> 0 \<longrightarrow>
         (\<exists>d<reg_size r. slot_at r (slot_oid r i) d = i \<and> (\<forall>d'<d. slot_oid r (slot_at r (slot_oid r i) d') \<noteq> 0)))"

lemma probe_find: "probe es oid start ks =
    map_option (\<lambda>k. (start + k) mod length es)
      (find (\<lambda>k. dw_database_oid (es ! ((start + k) mod length es)) \<in> {oid, 0}) ks)"
  by (induction ks) (auto simp: Let_def)

lemma find_upt: "find P [0..<n] = Some k \<longleftrightarrow> k < n \<and> P k \<and> (\<forall>j<k. \<not> P j)"
  by (auto simp: find_Some_iff)

lemma find_upt_None: "find P [0..<n] = None \<longleftrightarrow> (\<forall>k<n. \<not> P k)"
  by (auto simp: find_None_iff)

lemma probe_Some: "probe (reg_entries r) oid (registry_start_index (reg_size r) oid) [0..<reg_size r] = Some i \<longleftrightarrow>
    (\<exists>d<reg_size r. i = slot_at r oid d \<and> slot_oid r i \<in> {oid, 0} \<and> (\<forall>d'<d. slot_oid r (slot_at r oid d') \<notin> {oid, 0}))"
  by (auto simp: probe_find find_upt slot_at_def slot_oid_def reg_size_def)

lemma probe_None: "probe (reg_entries r) oid (registry_start_index (reg_size r) oid) [0..<reg_size r] = None \<longleftrightarrow>
    (\<forall>d<reg_size r. slot_oid r (slot_at r oid d) \<notin> {oid, 0})"
  by (auto simp: probe_find find_upt_None slot_at_def slot_oid_def reg_size_def)

lemma slot_at_less: "0 < reg_size r \<Longrightarrow> slot_at r oid d < reg_size r"
  by (simp add: slot_at_def)

lemma slot_at_inj: "\<lbrakk>slot_at r oid d = slot_at r oid d'; d < reg_size r; d' < reg_size r\<rbrakk> \<Longrightarrow> d = d'"
proof (induction d d' rule: linorder_wlog)
  case (le d d')
  then have "(registry_start_index (reg_size r) oid + d') mod reg_size r = (registry_start_index (reg_size r) oid + d) mod reg_size r"
    by (simp add: slot_at_def)
  then have "reg_size r dvd d' - d"
    using mod_eq_dvd_iff_nat [of "registry_start_index (reg_size r) oid + d" "registry_start_index (reg_size r) oid + d'" "reg_size r"] le(1)
    by simp
  then show ?case
    using le by (auto dest: dvd_imp_le)
qed auto

lemma slot_at_surj: "i < reg_size r \<Longrightarrow> \<exists>d<reg_size r. slot_at r oid d = i"
proof -
  assume i: "i < reg_size r"
  have "slot_at r oid ` {..<reg_size r} = {..<reg_size r}"
  proof (rule endo_inj_surj)
    show "slot_at r oid ` {..<reg_size r} \<subseteq> {..<reg_size r}"
      using i by (auto intro: slot_at_less)
    show "inj_on (slot_at r oid) {..<reg_size r}"
      by (auto intro: inj_onI slot_at_inj)
  qed simp
  then show ?thesis
    using i by (metis imageE lessThan_iff)
qed

text \<open>Under the invariant a lookup finds exactly the slot that holds the oid.\<close>

lemma probe_holder:
  assumes "reg_ok r" "i < reg_size r" "slot_oid r i = oid" "oid \<noteq> 0"
  shows "probe (reg_entries r) oid (registry_start_index (reg_size r) oid) [0..<reg_size r] = Some i"
proof -
  obtain d where d: "d < reg_size r" "slot_at r oid d = i" "\<forall>d'<d. slot_oid r (slot_at r oid d') \<noteq> 0"
    using assms unfolding reg_ok_def by blast
  have "slot_oid r (slot_at r oid d') \<noteq> oid" if "d' < d" for d'
  proof
    assume "slot_oid r (slot_at r oid d') = oid"
    moreover have "slot_at r oid d' < reg_size r"
      using assms(2) by (intro slot_at_less) simp
    ultimately have "slot_at r oid d' = slot_at r oid d"
      using assms d(2) unfolding reg_ok_def by metis
    then show False
      using slot_at_inj that d(1) by fastforce
  qed
  then show ?thesis
    unfolding probe_Some using d assms(3) by blast
qed

lemma reg_find_probe:
  "reg_find oid r = (if reg_size r = 0 \<or> oid = 0 then None
     else case probe (reg_entries r) oid (registry_start_index (reg_size r) oid) [0..<reg_size r] of
        None \<Rightarrow> None | Some i \<Rightarrow> if slot_oid r i = oid then Some i else None)"
  unfolding reg_find_def Let_def slot_oid_def reg_size_def ..

lemma entry_or_overflow_probe:
  "entry_or_overflow oid r = (if reg_size r = 0 \<or> oid = 0 then (r\<lparr>reg_overflow_reconcile_required := 1\<rparr>, None)
     else case probe (reg_entries r) oid (registry_start_index (reg_size r) oid) [0..<reg_size r] of
        None \<Rightarrow> (r\<lparr>reg_overflow_reconcile_required := 1\<rparr>, None)
      | Some i \<Rightarrow> if slot_oid r i = oid then (r, Some i) else (set_entry i (\<lambda>e. e\<lparr>dw_database_oid := oid\<rparr>) r, Some i))"
  unfolding entry_or_overflow_def Let_def slot_oid_def reg_size_def set_entry_def ..

lemma probe_less:
  "probe (reg_entries r) oid (registry_start_index (reg_size r) oid) [0..<reg_size r] = Some i \<Longrightarrow> i < reg_size r"
  by (metis probe_Some slot_at_less gr_implies_not0 neq0_conv)

lemma reg_find_Some:
  assumes "reg_ok r"
  shows "reg_find oid r = Some i \<longleftrightarrow> oid \<noteq> 0 \<and> i < reg_size r \<and> slot_oid r i = oid"
proof
  assume "reg_find oid r = Some i"
  then show "oid \<noteq> 0 \<and> i < reg_size r \<and> slot_oid r i = oid"
    using probe_less by (auto simp: reg_find_probe split: if_splits option.splits)
next
  assume "oid \<noteq> 0 \<and> i < reg_size r \<and> slot_oid r i = oid"
  then show "reg_find oid r = Some i"
    using probe_holder [OF assms, of i oid] by (auto simp: reg_find_probe)
qed

lemma table_of_Some:
  assumes "reg_ok r"
  shows "table_of r oid = Some e \<longleftrightarrow> oid \<noteq> 0 \<and> (\<exists>i<reg_size r. slot_oid r i = oid \<and> reg_entries r ! i = e)"
proof
  assume "table_of r oid = Some e"
  then show "oid \<noteq> 0 \<and> (\<exists>i<reg_size r. slot_oid r i = oid \<and> reg_entries r ! i = e)"
    by (auto simp: table_of_def find_Some_iff slot_oid_def reg_size_def split: if_splits)
next
  assume "oid \<noteq> 0 \<and> (\<exists>i<reg_size r. slot_oid r i = oid \<and> reg_entries r ! i = e)"
  then obtain i where i: "oid \<noteq> 0" "i < reg_size r" "slot_oid r i = oid" "reg_entries r ! i = e"
    by blast
  have "\<forall>j<i. slot_oid r j \<noteq> oid"
    using assms i unfolding reg_ok_def by (metis less_trans nat_neq_iff)
  then show "table_of r oid = Some e"
    using i by (auto simp: table_of_def find_Some_iff slot_oid_def reg_size_def)
qed

lemma table_of_None:
  assumes "reg_ok r"
  shows "table_of r oid = None \<longleftrightarrow> oid = 0 \<or> (\<forall>i<reg_size r. slot_oid r i \<noteq> oid)"
  using table_of_Some [OF assms, of oid] by (metis not_None_eq option.distinct(1))

text \<open>Updating the entry in a slot without changing its oid keeps the invariant and updates the map.\<close>

lemma set_entry_slots:
  assumes "i < reg_size r"
  shows "reg_size (set_entry i f r) = reg_size r"
    and "reg_entries (set_entry i f r) ! j = (if j = i then f (reg_entries r ! i) else reg_entries r ! j)"
    and "slot_oid (set_entry i f r) j = (if j = i then dw_database_oid (f (reg_entries r ! i)) else slot_oid r j)"
    and "slot_at (set_entry i f r) oid d = slot_at r oid d"
  using assms by (auto simp: set_entry_def reg_size_def slot_oid_def slot_at_def)

lemma set_entry_ok:
  assumes "reg_ok r" "i < reg_size r" "slot_oid r i \<noteq> 0" "dw_database_oid (f (reg_entries r ! i)) = slot_oid r i"
  shows "reg_ok (set_entry i f r)"
    and "table_of (set_entry i f r) = (table_of r)(slot_oid r i \<mapsto> f (reg_entries r ! i))"
proof -
  note slots = set_entry_slots [OF assms(2), of f]
  have same: "slot_oid (set_entry i f r) j = slot_oid r j" for j
    using slots(3) assms(4) by simp
  have nth: "reg_entries (set_entry i f r) ! j = reg_entries r ! j" if "slot_oid r j = 0" for j
    using slots(2) [of j] that assms(3) by auto
  show ok: "reg_ok (set_entry i f r)"
    using assms(1) nth unfolding reg_ok_def slots(1,4) same by metis
  show "table_of (set_entry i f r) = (table_of r)(slot_oid r i \<mapsto> f (reg_entries r ! i))"
  proof
    fix oid
    show "table_of (set_entry i f r) oid = ((table_of r)(slot_oid r i \<mapsto> f (reg_entries r ! i))) oid"
    proof (cases "oid = slot_oid r i")
      case True
      have "table_of (set_entry i f r) oid = Some (f (reg_entries r ! i))"
        unfolding table_of_Some [OF ok] slots(1,2) same using True assms(2,3) by auto
      then show ?thesis
        using True by simp
    next
      case False
      then have "table_of (set_entry i f r) oid = Some e \<longleftrightarrow> table_of r oid = Some e" for e
        unfolding table_of_Some [OF ok] table_of_Some [OF assms(1)] slots(1,2) same by auto
      then show ?thesis
        using False by (metis fun_upd_other not_None_eq)
    qed
  qed
qed

lemma allocate_ok:
  assumes "reg_ok r" "oid \<noteq> 0" "slot_oid r i \<noteq> oid"
    and "probe (reg_entries r) oid (registry_start_index (reg_size r) oid) [0..<reg_size r] = Some i"
  shows "reg_ok (set_entry i (\<lambda>e. e\<lparr>dw_database_oid := oid\<rparr>) r)"
    and "table_of (set_entry i (\<lambda>e. e\<lparr>dw_database_oid := oid\<rparr>) r) = (table_of r)(oid \<mapsto> entry_empty\<lparr>dw_database_oid := oid\<rparr>)"
    and "table_of r oid = None"
proof -
  let ?f = "\<lambda>e. e\<lparr>dw_database_oid := oid\<rparr>"
  obtain d where d: "d < reg_size r" "i = slot_at r oid d" "slot_oid r i = 0" "\<forall>d'<d. slot_oid r (slot_at r oid d') \<noteq> 0"
    using assms(3,4) unfolding probe_Some by auto
  have i: "i < reg_size r"
    using probe_less [OF assms(4)] .
  note slots = set_entry_slots [OF i, of ?f]
  have new: "slot_oid (set_entry i ?f r) j = (if j = i then oid else slot_oid r j)" for j
    using slots(3) by simp
  have absent: "slot_oid r j \<noteq> oid" if "j < reg_size r" for j
    using probe_holder [OF assms(1) that _ assms(2)] assms(3,4) by auto
  show "table_of r oid = None"
    using absent by (simp add: table_of_None [OF assms(1)])
  show ok: "reg_ok (set_entry i ?f r)"
    unfolding reg_ok_def slots(1,4) new
  proof (intro conjI allI impI)
    fix j k
    assume "j < reg_size r" "k < reg_size r" "(if j = i then oid else slot_oid r j) = (if k = i then oid else slot_oid r k)"
      "(if j = i then oid else slot_oid r j) \<noteq> 0"
    then show "j = k"
      using assms(1) absent unfolding reg_ok_def by (metis (full_types))
  next
    fix j
    assume "j < reg_size r" "(if j = i then oid else slot_oid r j) = 0"
    then show "reg_entries (set_entry i ?f r) ! j = entry_empty"
      using assms(1,2) slots(2) [of j] unfolding reg_ok_def by (auto split: if_splits)
  next
    fix j
    assume j: "j < reg_size r" "(if j = i then oid else slot_oid r j) \<noteq> 0"
    show "\<exists>d<reg_size r. slot_at r (if j = i then oid else slot_oid r j) d = j
        \<and> (\<forall>d'<d. (if slot_at r (if j = i then oid else slot_oid r j) d' = i then oid
            else slot_oid r (slot_at r (if j = i then oid else slot_oid r j) d')) \<noteq> 0)"
    proof (cases "j = i")
      case True
      then show ?thesis
        using d assms(2) by auto
    next
      case False
      then obtain d' where "d' < reg_size r" "slot_at r (slot_oid r j) d' = j" "\<forall>d''<d'. slot_oid r (slot_at r (slot_oid r j) d'') \<noteq> 0"
        using assms(1) j unfolding reg_ok_def by auto
      then show ?thesis
        using False assms(2) by auto
    qed
  qed
  show "table_of (set_entry i ?f r) = (table_of r)(oid \<mapsto> entry_empty\<lparr>dw_database_oid := oid\<rparr>)"
  proof
    fix x
    have empty: "reg_entries r ! i = entry_empty"
      using assms(1) i d(3) unfolding reg_ok_def by blast
    show "table_of (set_entry i ?f r) x = ((table_of r)(oid \<mapsto> entry_empty\<lparr>dw_database_oid := oid\<rparr>)) x"
    proof (cases "x = oid")
      case True
      have "table_of (set_entry i ?f r) x = Some (entry_empty\<lparr>dw_database_oid := oid\<rparr>)"
        unfolding table_of_Some [OF ok] slots(1,2) new using True i assms(2) empty by auto
      then show ?thesis
        using True by simp
    next
      case False
      then have "table_of (set_entry i ?f r) x = Some e \<longleftrightarrow> table_of r x = Some e" for e
        unfolding table_of_Some [OF ok] table_of_Some [OF assms(1)] slots(1,2) new using d(3)
        by (auto split: if_splits; metis neq0_conv)
      then show ?thesis
        using False by (metis fun_upd_other not_None_eq)
    qed
  qed
qed

definition has_room :: "SupervisorRegistry \<Rightarrow> nat \<Rightarrow> bool" where
  "has_room r oid \<longleftrightarrow> oid \<noteq> 0 \<and> (table_of r oid \<noteq> None \<or> card (dom (table_of r)) < reg_size r)"

lemma free_slot_iff:
  assumes "reg_ok r"
  shows "(\<exists>i<reg_size r. slot_oid r i = 0) \<longleftrightarrow> card (dom (table_of r)) < reg_size r"
proof -
  let ?A = "{i. i < reg_size r \<and> slot_oid r i \<noteq> 0}"
  have "dom (table_of r) = slot_oid r ` ?A"
    using table_of_Some [OF assms] by (auto simp: dom_def image_iff)
  moreover have "inj_on (slot_oid r) ?A"
    using assms unfolding reg_ok_def by (auto intro: inj_onI)
  ultimately have card: "card (dom (table_of r)) = card ?A"
    by (simp add: card_image)
  have sub: "?A \<subseteq> {..<reg_size r}"
    by blast
  have "(\<exists>i<reg_size r. slot_oid r i = 0) \<longleftrightarrow> ?A \<noteq> {..<reg_size r}"
    unfolding set_eq_iff mem_Collect_eq lessThan_iff by metis
  also have "\<dots> \<longleftrightarrow> card ?A < card {..<reg_size r}"
  proof (cases "?A = {..<reg_size r}")
    case True
    then show ?thesis
      by (simp only: simp_thms less_irrefl)
  next
    case False
    then show ?thesis
      using psubset_card_mono [OF finite_lessThan psubsetI [OF sub False]] by (simp only: simp_thms)
  qed
  finally show ?thesis
    using card by simp
qed

text \<open>What each access does to the map: allocation when there is room, and the given update.\<close>

definition current_entry :: "SupervisorRegistry \<Rightarrow> nat \<Rightarrow> DatabaseWorkEntry" where
  "current_entry r oid = (case table_of r oid of Some e \<Rightarrow> e | None \<Rightarrow> entry_empty\<lparr>dw_database_oid := oid\<rparr>)"

lemma set_entry_simps [simp]:
  "reg_supervisor_pid (set_entry i f r) = reg_supervisor_pid r"
  "reg_overflow_reconcile_required (set_entry i f r) = reg_overflow_reconcile_required r"
  "reg_size (set_entry i f r) = reg_size r"
  by (simp_all add: set_entry_def reg_size_def)

lemma entry_or_overflow_room:
  assumes "reg_ok r" "has_room r oid"
  obtains i r1 where "entry_or_overflow oid r = (r1, Some i)" "reg_ok r1" "i < reg_size r1" "slot_oid r1 i = oid"
    "reg_entries r1 ! i = current_entry r oid" "table_of r1 = (table_of r)(oid \<mapsto> current_entry r oid)"
    "reg_size r1 = reg_size r" "reg_supervisor_pid r1 = reg_supervisor_pid r"
    "reg_overflow_reconcile_required r1 = reg_overflow_reconcile_required r"
proof -
  have oid: "oid \<noteq> 0"
    using assms(2) by (simp add: has_room_def)
  have "\<exists>i<reg_size r. slot_oid r i \<in> {oid, 0}"
    using assms(2) table_of_None [OF assms(1), of oid] free_slot_iff [OF assms(1)] by (auto simp: has_room_def)
  then have "\<not> (\<forall>d<reg_size r. slot_oid r (slot_at r oid d) \<notin> {oid, 0})" "reg_size r \<noteq> 0"
    using slot_at_surj [of _ r oid] by fastforce+
  then obtain i where probe: "probe (reg_entries r) oid (registry_start_index (reg_size r) oid) [0..<reg_size r] = Some i"
    unfolding probe_None [symmetric] by auto
  have i: "i < reg_size r"
    by (rule probe_less [OF probe])
  show thesis
  proof (cases "slot_oid r i = oid")
    case True
    then have t: "table_of r oid = Some (reg_entries r ! i)"
      using table_of_Some [OF assms(1)] i oid by auto
    show thesis
    proof (rule that)
      show "entry_or_overflow oid r = (r, Some i)"
        using True probe oid \<open>reg_size r \<noteq> 0\<close> by (simp add: entry_or_overflow_probe)
    qed (use True i t assms(1) in \<open>auto simp: current_entry_def\<close>)
  next
    case False
    let ?r = "set_entry i (\<lambda>e. e\<lparr>dw_database_oid := oid\<rparr>) r"
    note alloc = allocate_ok [OF assms(1) oid False probe]
    have at: "slot_oid ?r i = oid"
      using set_entry_slots(3) [OF i] by simp
    show thesis
    proof (rule that)
      show "entry_or_overflow oid r = (?r, Some i)"
        using False probe oid \<open>reg_size r \<noteq> 0\<close> by (simp add: entry_or_overflow_probe)
      show "reg_ok ?r" "slot_oid ?r i = oid" "i < reg_size ?r"
        using alloc(1) at i by simp_all
      have "table_of ?r oid = Some (reg_entries ?r ! i)"
        using table_of_Some [OF alloc(1)] at i oid by auto
      then show "reg_entries ?r ! i = current_entry r oid" "table_of ?r = (table_of r)(oid \<mapsto> current_entry r oid)"
        using alloc(2,3) by (auto simp: current_entry_def)
    qed simp_all
  qed
qed

lemma entry_or_overflow_full:
  assumes "reg_ok r" "\<not> has_room r oid"
  shows "entry_or_overflow oid r = (r\<lparr>reg_overflow_reconcile_required := 1\<rparr>, None)"
proof (cases "oid = 0")
  case False
  have "slot_oid r (slot_at r oid d) \<notin> {oid, 0}" if "d < reg_size r" for d
    using assms(2) False table_of_None [OF assms(1), of oid] free_slot_iff [OF assms(1)] slot_at_less [of r oid d] that
    by (auto simp: has_room_def)
  then have "probe (reg_entries r) oid (registry_start_index (reg_size r) oid) [0..<reg_size r] = None"
    unfolding probe_None by blast
  then show ?thesis
    by (simp add: entry_or_overflow_probe)
qed (simp add: entry_or_overflow_probe)

lemma with_entry_room:
  assumes "reg_ok r" "has_room r oid" "\<And>e. dw_database_oid (f e) = dw_database_oid e"
  shows "\<exists>r'. with_entry oid f r = (r', Some (current_entry r oid)) \<and> reg_ok r'
    \<and> table_of r' = (table_of r)(oid \<mapsto> f (current_entry r oid)) \<and> reg_size r' = reg_size r
    \<and> reg_supervisor_pid r' = reg_supervisor_pid r \<and> reg_overflow_reconcile_required r' = reg_overflow_reconcile_required r"
proof -
  obtain i r1 where r1: "entry_or_overflow oid r = (r1, Some i)" "reg_ok r1" "i < reg_size r1" "slot_oid r1 i = oid"
    "reg_entries r1 ! i = current_entry r oid" "table_of r1 = (table_of r)(oid \<mapsto> current_entry r oid)"
    "reg_size r1 = reg_size r" "reg_supervisor_pid r1 = reg_supervisor_pid r"
    "reg_overflow_reconcile_required r1 = reg_overflow_reconcile_required r"
    using entry_or_overflow_room [OF assms(1,2)] by blast
  have "slot_oid r1 i \<noteq> 0" "dw_database_oid (f (reg_entries r1 ! i)) = slot_oid r1 i"
    using assms(2,3) r1(4) by (auto simp: has_room_def slot_oid_def)
  then show ?thesis
    using r1 set_entry_ok [OF r1(2,3), where f = f] by (auto simp: with_entry_def)
qed

lemma with_entry_full:
  "\<lbrakk>reg_ok r; \<not> has_room r oid\<rbrakk> \<Longrightarrow> with_entry oid f r = (r\<lparr>reg_overflow_reconcile_required := 1\<rparr>, None)"
  by (simp add: with_entry_def entry_or_overflow_full)

lemma with_found_present:
  assumes "reg_ok r" "table_of r oid = Some e" "\<And>e. dw_database_oid (f e) = dw_database_oid e"
  shows "\<exists>r'. with_found oid f r = (r', Some e) \<and> reg_ok r' \<and> table_of r' = (table_of r)(oid \<mapsto> f e)
    \<and> reg_size r' = reg_size r \<and> reg_supervisor_pid r' = reg_supervisor_pid r
    \<and> reg_overflow_reconcile_required r' = reg_overflow_reconcile_required r"
proof -
  obtain i where i: "oid \<noteq> 0" "i < reg_size r" "slot_oid r i = oid" "reg_entries r ! i = e"
    using assms(1,2) table_of_Some by blast
  then have "reg_find oid r = Some i" "slot_oid r i \<noteq> 0" "dw_database_oid (f (reg_entries r ! i)) = slot_oid r i"
    using reg_find_Some [OF assms(1)] assms(3) by (auto simp: slot_oid_def)
  then show ?thesis
    using set_entry_ok [OF assms(1) i(2), of f] i by (auto simp: with_found_def)
qed

lemma reg_find_None: "reg_ok r \<Longrightarrow> reg_find oid r = None \<longleftrightarrow> table_of r oid = None"
  using reg_find_Some [of r oid] table_of_None [of r oid] by (metis not_None_eq option.distinct(1))

lemma with_found_absent: "\<lbrakk>reg_ok r; table_of r oid = None\<rbrakk> \<Longrightarrow> with_found oid f r = (r, None)"
  using reg_find_None [of r oid] by (simp add: with_found_def)

lemma reg_snapshot_table: "reg_ok r \<Longrightarrow> reg_snapshot oid r = map_option entry_snapshot (table_of r oid)"
proof -
  assume ok: "reg_ok r"
  show ?thesis
  proof (cases "reg_find oid r")
    case None
    then show ?thesis
      using reg_find_None [OF ok] by (simp add: reg_snapshot_def)
  next
    case (Some i)
    then have "table_of r oid = Some (reg_entries r ! i)"
      using reg_find_Some [OF ok] table_of_Some [OF ok] by blast
    then show ?thesis
      using Some by (simp add: reg_snapshot_def)
  qed
qed

text \<open>Every operation keeps the invariant and touches the entry of its own database only.\<close>

definition keeps_others :: "nat \<Rightarrow> SupervisorRegistry \<Rightarrow> SupervisorRegistry \<Rightarrow> bool" where
  "keeps_others oid r r' \<longleftrightarrow> reg_ok r' \<and> reg_size r' = reg_size r \<and> (\<forall>x. x \<noteq> oid \<longrightarrow> table_of r' x = table_of r x)
     \<and> (table_of r oid \<noteq> None \<longrightarrow> table_of r' oid \<noteq> None)"

lemma reg_ok_irrelevant [simp]:
  "reg_ok (r\<lparr>reg_overflow_reconcile_required := v\<rparr>) = reg_ok r" "table_of (r\<lparr>reg_overflow_reconcile_required := v\<rparr>) = table_of r"
  "reg_size (r\<lparr>reg_overflow_reconcile_required := v\<rparr>) = reg_size r"
  by (auto simp: reg_ok_def table_of_def fun_eq_iff reg_size_def slot_oid_def slot_at_def)

lemma keeps_refl: "reg_ok r \<Longrightarrow> keeps_others oid r r"
  by (simp add: keeps_others_def)

lemma with_entry_keeps:
  assumes "reg_ok r" "\<And>e. dw_database_oid (f e) = dw_database_oid e"
  shows "keeps_others oid r (fst (with_entry oid f r))"
proof (cases "has_room r oid")
  case True
  then show ?thesis
    using with_entry_room [OF assms(1) True assms(2)] by (auto simp: keeps_others_def)
next
  case False
  then show ?thesis
    using assms(1) by (simp add: with_entry_full keeps_others_def)
qed

lemma with_found_keeps:
  assumes "reg_ok r" "\<And>e. dw_database_oid (f e) = dw_database_oid e"
  shows "keeps_others oid r (fst (with_found oid f r))"
proof (cases "table_of r oid")
  case None
  then show ?thesis
    using assms(1) by (simp add: with_found_absent keeps_refl)
next
  case (Some e)
  then show ?thesis
    using with_found_present [OF assms(1) Some assms(2)] by (auto simp: keeps_others_def)
qed

inductive registry_step :: "nat \<Rightarrow> SupervisorRegistry \<Rightarrow> SupervisorRegistry \<Rightarrow> bool" where
  step_publish_wal: "registry_step oid r (fst (publish_wal oid r))"
| step_publish_flush: "registry_step oid r (fst (publish_flush oid r))"
| step_recovery: "registry_step oid r (fst (request_recovery oid r))"
| step_schedule: "registry_step oid r (fst (publish_schedule oid r))"
| step_reserve_maintenance: "registry_step oid r (fst (try_reserve_maintenance oid r))"
| step_maintenance_started: "registry_step oid r (fst (maintenance_started oid pid r))"
| step_cancel_maintenance: "registry_step oid r (cancel_maintenance_start oid r)"
| step_maintenance_stopped: "registry_step oid r (maintenance_stopped oid pid r)"
| step_clear_stale: "registry_step oid r (clear_stale_maintenance oid r)"
| step_mark_wal: "registry_step oid r (mark_wal_processed oid g r)"
| step_mark_maintenance: "registry_step oid r (mark_maintenance_reconciled oid g r)"
| step_mark_flush: "registry_step oid r (mark_flush_processed oid g r)"
| step_limit: "registry_step oid r (set_flush_limit oid k r)"
| step_reserve_flush: "registry_step oid r (fst (try_reserve_flush oid r))"
| step_flush_started: "registry_step oid r (fst (flush_started oid k r))"
| step_cancel_flush: "registry_step oid r (cancel_flush_start oid r)"
| step_flush_stopped: "registry_step oid r (flush_stopped oid r)"
| step_reconcile: "registry_step oid r (reconcile_flush_counts oid k r)"
| step_flush_at: "registry_step oid r (schedule_flush_at_ms oid t r)"
| step_clear_flush_at: "registry_step oid r (clear_flush_deadline oid r)"
| step_consume_flush: "registry_step oid r (fst (consume_flush_deadline oid t r))"
| step_maintenance_at: "registry_step oid r (schedule_maintenance_at_ms oid t r)"
| step_clear_maintenance_at: "registry_step oid r (clear_maintenance_deadline oid r)"
| step_consume_maintenance: "registry_step oid r (fst (consume_maintenance_deadline oid t r))"
| step_quiesce: "registry_step oid r (fst (quiesce oid r))"

lemma fst_case_entry:
  "fst (case x of (r, None) \<Rightarrow> (r, a) | (r, Some e) \<Rightarrow> (r, b e)) = fst x" "fst (notify x) = fst x"
  by (auto simp: notify_def split: prod.splits option.splits)

lemmas registry_ops = publish_wal_def publish_flush_def request_recovery_def publish_schedule_def try_reserve_maintenance_def
  maintenance_started_def cancel_maintenance_start_def maintenance_stopped_def clear_stale_maintenance_def mark_wal_processed_def
  mark_maintenance_reconciled_def mark_flush_processed_def set_flush_limit_def try_reserve_flush_def flush_started_def
  cancel_flush_start_def flush_stopped_def reconcile_flush_counts_def schedule_flush_at_ms_def clear_flush_deadline_def
  consume_flush_deadline_def schedule_maintenance_at_ms_def clear_maintenance_deadline_def consume_maintenance_deadline_def quiesce_def

lemma registry_step_keeps: "registry_step oid r r' \<Longrightarrow> reg_ok r \<Longrightarrow> keeps_others oid r r'"
  by (induction rule: registry_step.induct)
    (unfold registry_ops fst_case_entry,
      auto intro!: with_entry_keeps with_found_keeps simp: keeps_refl Let_def split: prod.split bool.split)

inductive registry_reachable :: "nat \<Rightarrow> SupervisorRegistry \<Rightarrow> bool" where
  reach_default: "registry_reachable n (registry_default n)"
| reach_step: "registry_reachable n r \<Longrightarrow> registry_step oid r r' \<Longrightarrow> registry_reachable n r'"
| reach_register: "registry_reachable n r \<Longrightarrow> registry_reachable n (register_supervisor pid r)"
| reach_unregister: "registry_reachable n r \<Longrightarrow> registry_reachable n (unregister_supervisor pid r)"
| reach_clear_overflow: "registry_reachable n r \<Longrightarrow> registry_reachable n (clear_overflow_reconcile_required r)"

lemma reg_ok_supervisor [simp]: "reg_ok (r\<lparr>reg_supervisor_pid := v\<rparr>) = reg_ok r"
  by (simp add: reg_ok_def reg_size_def slot_oid_def slot_at_def)

lemma reachable_ok: "registry_reachable n r \<Longrightarrow> reg_ok r"
proof (induction rule: registry_reachable.induct)
  case (reach_default n)
  then show ?case
    by (auto simp: reg_ok_def registry_default_def reg_size_def slot_oid_def entry_empty_def)
next
  case (reach_step n r oid r')
  then show ?case
    using registry_step_keeps by (auto simp: keeps_others_def)
qed (simp_all add: register_supervisor_def unregister_supervisor_def clear_overflow_reconcile_required_def)

lemma flag_clear: "(w AND NOT f) AND f = (0 :: 32 word)"
  by (simp add: bit_eq_iff bit_simps)

lemma flag_set: "(w OR f) AND f = (f :: 32 word)"
  by (auto simp: bit_eq_iff bit_simps)

text \<open>
  C35.  The registry in any reachable state: an operation on one database leaves the snapshots of all others as
  they were and never loses an allocated entry; publishing WAL work either advances the database's generation,
  raises its flag and names the supervisor to wake, or, when the table is full, requests a reconciliation;
  acknowledging the sampled generation clears the flag and leaves no WAL work due.
\<close>

theorem registry_tracks_databases:
  assumes "registry_reachable n r"
  shows "(\<forall>oid r'. registry_step oid r r' \<longrightarrow> (\<forall>x. x \<noteq> oid \<longrightarrow> reg_snapshot x r' = reg_snapshot x r)
      \<and> (reg_snapshot oid r \<noteq> None \<longrightarrow> reg_snapshot oid r' \<noteq> None))
    \<and> (if has_room r oid
       then snd (publish_wal oid r) = supervisor_pid r
         \<and> (\<exists>s. reg_snapshot oid (fst (publish_wal oid r)) = Some s \<and> dw_event_flags s AND EVENT_WAL_DIRTY = EVENT_WAL_DIRTY
           \<and> dw_wal_generation s = dw_wal_generation (current_entry r oid) + 1)
       else snd (publish_wal oid r) = None \<and> overflow_reconcile_required (fst (publish_wal oid r)))
    \<and> (\<forall>s. reg_snapshot oid r = Some s \<longrightarrow> dw_wal_processed_generation s \<le> dw_wal_generation s \<longrightarrow>
        (\<exists>s'. reg_snapshot oid (mark_wal_processed oid (dw_wal_generation s) r) = Some s'
          \<and> dw_wal_processed_generation s' = dw_wal_generation s' \<and> dw_event_flags s' AND EVENT_WAL_DIRTY = 0))"
proof (intro conjI allI impI)
  have ok: "reg_ok r"
    by (rule reachable_ok [OF assms])
  fix oid r' x
  assume step: "registry_step oid r r'"
  then have keep: "keeps_others oid r r'" "reg_ok r'"
    using registry_step_keeps [OF step ok] by (auto simp: keeps_others_def)
  show "x \<noteq> oid \<Longrightarrow> reg_snapshot x r' = reg_snapshot x r"
    using keep by (simp add: reg_snapshot_table ok keeps_others_def)
  show "reg_snapshot oid r \<noteq> None \<Longrightarrow> reg_snapshot oid r' \<noteq> None"
    using keep by (simp add: reg_snapshot_table ok keeps_others_def)
next
  have ok: "reg_ok r"
    by (rule reachable_ok [OF assms])
  let ?f = "\<lambda>e. e\<lparr>dw_wal_generation := dw_wal_generation e + 1, dw_event_flags := dw_event_flags e OR EVENT_WAL_DIRTY\<rparr>"
  show "if has_room r oid
     then snd (publish_wal oid r) = supervisor_pid r
       \<and> (\<exists>s. reg_snapshot oid (fst (publish_wal oid r)) = Some s \<and> dw_event_flags s AND EVENT_WAL_DIRTY = EVENT_WAL_DIRTY
         \<and> dw_wal_generation s = dw_wal_generation (current_entry r oid) + 1)
     else snd (publish_wal oid r) = None \<and> overflow_reconcile_required (fst (publish_wal oid r))"
  proof (cases "has_room r oid")
    case True
    obtain r' where "with_entry oid ?f r = (r', Some (current_entry r oid))" "reg_ok r'"
      "table_of r' = (table_of r)(oid \<mapsto> ?f (current_entry r oid))" "reg_supervisor_pid r' = reg_supervisor_pid r"
      using with_entry_room [OF ok True, of ?f] by auto
    then show ?thesis
      using True by (simp add: publish_wal_def notify_def reg_snapshot_table entry_snapshot_def supervisor_pid_def flag_set)
  next
    case False
    then show ?thesis
      using with_entry_full [OF ok False] by (simp add: publish_wal_def notify_def overflow_reconcile_required_def)
  qed
  fix s
  assume s: "reg_snapshot oid r = Some s" "dw_wal_processed_generation s \<le> dw_wal_generation s"
  then obtain e where e: "table_of r oid = Some e" "s = entry_snapshot e"
    using reg_snapshot_table [OF ok, of oid] by auto
  let ?g = "dw_wal_generation s"
  let ?m = "\<lambda>e. e\<lparr>dw_wal_processed_generation := atomic_max (dw_wal_processed_generation e) ?g,
       dw_event_flags := clear_flag_if_generation_current (dw_wal_generation e) ?g (dw_event_flags e) EVENT_WAL_DIRTY\<rparr>"
  obtain r' where "with_found oid ?m r = (r', Some e)" "reg_ok r'" "table_of r' = (table_of r)(oid \<mapsto> ?m e)"
    using with_found_present [OF ok e(1), of ?m] by auto
  then show "\<exists>s'. reg_snapshot oid (mark_wal_processed oid ?g r) = Some s'
      \<and> dw_wal_processed_generation s' = dw_wal_generation s' \<and> dw_event_flags s' AND EVENT_WAL_DIRTY = 0"
    using s(2) e(2) by (auto simp: mark_wal_processed_def reg_snapshot_table entry_snapshot_def atomic_max_def
        clear_flag_if_generation_current_def flag_clear)
qed

theorem registry_tracks_databases_witness:
  "snd (publish_wal 42 (register_supervisor 7 (registry_default 4))) = Some 7"
proof -
  have "registry_reachable 4 (register_supervisor 7 (registry_default 4))"
    by (rule reach_register) (rule reach_default)
  moreover have "table_of (register_supervisor 7 (registry_default 4)) = Map.empty"
    by (rule ext) (simp add: table_of_def register_supervisor_def registry_default_def entry_empty_def find_None_iff)
  then have "has_room (register_supervisor 7 (registry_default 4)) 42"
    by (simp add: has_room_def reg_size_def register_supervisor_def registry_default_def)
  ultimately show ?thesis
    using registry_tracks_databases [of 4 "register_supervisor 7 (registry_default 4)" 42]
    by (simp add: supervisor_pid_def register_supervisor_def)
qed

subsection \<open>Interleaved reservation of flush slots\<close>

text \<open>
  One database's counters while any number of \<open>try_reserve_flush\<close> calls run against workers that start and stop
  and against stores of the limit, every atomic access a step of its own.  A reserver's state says which loads it
  has made: the limit it read, the value of \<open>flush_starting\<close> its exchange expects.  \<open>slot_inflight\<close> counts workers
  that have raised \<open>flush_running\<close> and not yet tried to take a starting token, \<open>slot_rejected\<close> those that found none
  and have not yet rolled back, \<open>slot_accepted\<close> holds the limits that workers with a token are about to store.
  \<open>take_one_if_positive\<close> takes effect at its successful exchange, or at the load that finds zero.  The fetch-and-add
  on \<open>flush_running\<close> wraps.  \<open>slot_ceiling\<close> is not in the code: it records the largest limit stored so far.
  \<open>reconcile_flush_counts\<close> overwrites both counters with what the supervisor measured; it is the initial state
  here, and the ceiling starts no lower than the count it wrote.
\<close>

datatype reserver = RIdle | RLimit nat | RFirst nat nat | RLoop nat | RHave nat nat | RReady nat nat

record slot_state =
  slot_starting :: nat
  slot_running :: nat
  slot_limit :: nat
  slot_inflight :: nat
  slot_rejected :: nat
  slot_accepted :: "nat multiset"
  slot_reservers :: "reserver list"
  slot_ceiling :: nat

definition slots_initial :: "nat \<Rightarrow> nat \<Rightarrow> nat \<Rightarrow> slot_state" where
  "slots_initial reservers limit running =
     \<lparr>slot_starting = 0, slot_running = running, slot_limit = max limit 1, slot_inflight = 0, slot_rejected = 0,
      slot_accepted = {#}, slot_reservers = replicate reservers RIdle, slot_ceiling = max (max limit 1) running\<rparr>"

definition at_reserver :: "slot_state \<Rightarrow> nat \<Rightarrow> reserver \<Rightarrow> bool" where
  "at_reserver s i pc \<longleftrightarrow> i < length (slot_reservers s) \<and> slot_reservers s ! i = pc"

definition move :: "nat \<Rightarrow> reserver \<Rightarrow> slot_state \<Rightarrow> slot_state" where
  "move i pc s = s\<lparr>slot_reservers := (slot_reservers s)[i := pc]\<rparr>"

definition store_limit :: "nat \<Rightarrow> slot_state \<Rightarrow> slot_state" where
  "store_limit limit s = s\<lparr>slot_limit := max limit 1, slot_ceiling := max (slot_ceiling s) (max limit 1)\<rparr>"

inductive slot_step :: "slot_state \<Rightarrow> slot_state \<Rightarrow> bool" where
  load_limit: "at_reserver s i RIdle \<Longrightarrow> slot_step s (move i (RLimit (max (slot_limit s) 1)) s)"
| load_first: "at_reserver s i (RLimit l) \<Longrightarrow> slot_step s (move i (RFirst l (slot_starting s)) s)"
| enter_loop: "at_reserver s i (RFirst l k) \<Longrightarrow>
    slot_step s (move i (if sat_add_u32 k (slot_running s) < l then RLoop l else RIdle) s)"
| load_starting: "at_reserver s i (RLoop l) \<Longrightarrow> slot_step s (move i (RHave l (slot_starting s)) s)"
| load_running: "at_reserver s i (RHave l k) \<Longrightarrow>
    slot_step s (move i (if sat_add_u32 k (slot_running s) \<ge> l then RIdle else RReady l k) s)"
| exchange: "at_reserver s i (RReady l k) \<Longrightarrow> slot_starting s = k \<Longrightarrow>
    slot_step s (move i RIdle (s\<lparr>slot_starting := sat_add_u32 k 1\<rparr>))"
| exchange_fails: "at_reserver s i (RReady l k) \<Longrightarrow> slot_step s (move i (RLoop l) s)"
| worker_counts: "slot_step s (s\<lparr>slot_running := (slot_running s + 1) mod 2 ^ 32, slot_inflight := slot_inflight s + 1\<rparr>)"
| worker_takes: "slot_inflight s > 0 \<Longrightarrow> slot_starting s > 0 \<Longrightarrow> effective_limit \<le> u32_max \<Longrightarrow>
    slot_step s (s\<lparr>slot_starting := slot_starting s - 1, slot_inflight := slot_inflight s - 1,
      slot_accepted := add_mset effective_limit (slot_accepted s)\<rparr>)"
| worker_stores: "slot_accepted s = add_mset effective_limit ls \<Longrightarrow>
    slot_step s (store_limit effective_limit (s\<lparr>slot_accepted := ls\<rparr>))"
| worker_rejected: "slot_inflight s > 0 \<Longrightarrow> slot_starting s = 0 \<Longrightarrow>
    slot_step s (s\<lparr>slot_inflight := slot_inflight s - 1, slot_rejected := slot_rejected s + 1\<rparr>)"
| worker_rolls_back: "slot_rejected s > 0 \<Longrightarrow>
    slot_step s (s\<lparr>slot_running := decrement_if_positive (slot_running s), slot_rejected := slot_rejected s - 1\<rparr>)"
| worker_stops: "slot_step s (s\<lparr>slot_running := decrement_if_positive (slot_running s)\<rparr>)"
| start_cancelled: "slot_step s (s\<lparr>slot_starting := decrement_if_positive (slot_starting s)\<rparr>)"
| limit_set: "limit \<le> u32_max \<Longrightarrow> slot_step s (store_limit limit s)"

text \<open>Workers counted as running that are not between their two counter updates.\<close>

definition settled_running :: "slot_state \<Rightarrow> nat" where
  "settled_running s = slot_running s - (slot_inflight s + slot_rejected s)"

fun is_ready :: "reserver \<Rightarrow> bool" where
  "is_ready (RReady l k) = True" | "is_ready _ = False"

fun expected :: "reserver \<Rightarrow> nat option" where
  "expected (RHave l k) = Some k" | "expected _ = None"

fun loaded_limit :: "reserver \<Rightarrow> nat" where
  "loaded_limit RIdle = 0" | "loaded_limit (RLimit l) = l" | "loaded_limit (RFirst l k) = l"
| "loaded_limit (RLoop l) = l" | "loaded_limit (RHave l k) = l" | "loaded_limit (RReady l k) = l"

definition ready :: "slot_state \<Rightarrow> nat" where
  "ready s = length (filter is_ready (slot_reservers s))"

text \<open>Reservers between their two loads of a round, all of which would see at most \<open>x\<close>.\<close>

definition waiting :: "slot_state \<Rightarrow> nat set \<Rightarrow> nat \<Rightarrow> bool" where
  "waiting s S x \<longleftrightarrow> (\<forall>i\<in>S. i < length (slot_reservers s)
     \<and> (\<exists>k. expected (slot_reservers s ! i) = Some k \<and> k + settled_running s \<le> x))"

definition occupancy_inv :: "slot_state \<Rightarrow> bool" where
  "occupancy_inv s \<longleftrightarrow> (\<forall>S x. waiting s S x \<longrightarrow> slot_ceiling s \<le> x + 1
     \<longrightarrow> slot_starting s + settled_running s + ready s + card S \<le> x + length (slot_reservers s))"

definition limits_inv :: "slot_state \<Rightarrow> bool" where
  "limits_inv s \<longleftrightarrow> slot_limit s \<le> slot_ceiling s \<and> slot_limit s \<le> u32_max \<and> slot_ceiling s \<ge> 1
     \<and> (\<forall>l. l \<in># slot_accepted s \<longrightarrow> l \<le> u32_max)
     \<and> (\<forall>pc\<in>set (slot_reservers s). loaded_limit pc \<le> slot_ceiling s \<and> loaded_limit pc \<le> u32_max)"

definition single_inv :: "slot_state \<Rightarrow> bool" where
  "single_inv s \<longleftrightarrow> (\<forall>l k. (slot_reservers s = [RHave l k] \<longrightarrow> slot_starting s \<le> k)
     \<and> (slot_reservers s = [RReady l k] \<longrightarrow> slot_starting s < k \<or> slot_starting s = k \<and> k + settled_running s < l))"

lemma decrement_minus: "decrement_if_positive k = k - 1"
  by (simp add: decrement_if_positive_def take_one_if_positive_def)

lemma move_simps [simp]:
  "slot_reservers (move i pc s) = (slot_reservers s)[i := pc]" "slot_starting (move i pc s) = slot_starting s"
  "slot_ceiling (move i pc s) = slot_ceiling s" "slot_limit (move i pc s) = slot_limit s"
  "slot_accepted (move i pc s) = slot_accepted s" "slot_running (move i pc s) = slot_running s"
  "slot_inflight (move i pc s) = slot_inflight s" "slot_rejected (move i pc s) = slot_rejected s"
  "settled_running (move i pc s) = settled_running s"
  by (simp_all add: move_def settled_running_def)

lemma store_limit_simps [simp]:
  "slot_reservers (store_limit l s) = slot_reservers s" "slot_starting (store_limit l s) = slot_starting s"
  "slot_ceiling (store_limit l s) = max (slot_ceiling s) (max l 1)" "slot_limit (store_limit l s) = max l 1"
  "slot_accepted (store_limit l s) = slot_accepted s" "settled_running (store_limit l s) = settled_running s"
  by (simp_all add: store_limit_def settled_running_def)

lemma filter_update:
  "i < length xs \<Longrightarrow> length (filter P (xs[i := y])) + (if P (xs ! i) then 1 else 0)
     = length (filter P xs) + (if P y then 1 else 0)"
proof (induction xs arbitrary: i)
  case (Cons x xs)
  then show ?case
    by (cases i) auto
qed simp

lemma ready_move:
  "at_reserver s i pc \<Longrightarrow> ready (move i pc' s) + (if is_ready pc then 1 else 0) = ready s + (if is_ready pc' then 1 else 0)"
  using filter_update [of i "slot_reservers s" is_ready pc'] by (simp add: ready_def at_reserver_def)

lemma waiting_ready:
  assumes "waiting s S x"
  shows "ready s + card S \<le> length (slot_reservers s)"
proof -
  let ?R = "{i. i < length (slot_reservers s) \<and> is_ready (slot_reservers s ! i)}"
  have "?R \<inter> S = {}"
    using assms unfolding waiting_def by (metis (mono_tags, lifting) disjoint_iff expected.simps(6)
        is_ready.elims(2) mem_Collect_eq option.distinct(1))
  moreover have sub: "?R \<union> S \<subseteq> {..<length (slot_reservers s)}"
    using assms by (auto simp: waiting_def)
  then have "finite ?R" "finite S"
    by (meson finite_lessThan finite_subset le_sup_iff)+
  ultimately have "card ?R + card S = card (?R \<union> S)"
    by (simp add: card_Un_disjoint)
  also have "\<dots> \<le> length (slot_reservers s)"
    using card_mono [OF _ sub] by simp
  finally show ?thesis
    by (simp add: ready_def length_filter_conv_card)
qed

lemma waiting_others:
  assumes "waiting s' S x" "slot_reservers s' = (slot_reservers s)[i := pc]" "i \<notin> S" "settled_running s' = settled_running s"
  shows "waiting s S x"
  using assms unfolding waiting_def by (metis length_list_update nth_list_update_neq)

text \<open>Steps that leave the reservers alone: the counters fall together, or a token becomes a running worker.\<close>

lemma occupancy_counters:
  assumes "occupancy_inv s" "slot_reservers s' = slot_reservers s" "slot_ceiling s \<le> slot_ceiling s'"
    and "settled_running s' \<le> settled_running s \<and> slot_starting s' \<le> slot_starting s
      \<or> settled_running s \<le> settled_running s' \<and> slot_starting s' + settled_running s' \<le> slot_starting s + settled_running s"
  shows "occupancy_inv s'"
  unfolding occupancy_inv_def
proof (intro allI impI)
  fix S x
  assume w: "waiting s' S x" "slot_ceiling s' \<le> x + 1"
  let ?x = "x + (settled_running s - settled_running s')"
  have "waiting s S ?x"
    using w(1) assms(2) unfolding waiting_def by fastforce
  then have "slot_starting s + settled_running s + ready s + card S \<le> ?x + length (slot_reservers s)"
    using assms(1,3) w(2) unfolding occupancy_inv_def by force
  then show "slot_starting s' + settled_running s' + ready s' + card S \<le> x + length (slot_reservers s')"
    using assms(2,4) by (auto simp: ready_def)
qed

text \<open>A reserver moves without starting a round.\<close>

lemma occupancy_move:
  assumes "occupancy_inv s" "at_reserver s i pc" "expected pc' = None" "settled_running s' = settled_running s"
    and "slot_reservers s' = (slot_reservers s)[i := pc']" "slot_ceiling s' = slot_ceiling s"
    and "slot_starting s' + (if is_ready pc' then 1 else 0) \<le> slot_starting s + (if is_ready pc then 1 else 0)"
  shows "occupancy_inv s'"
  unfolding occupancy_inv_def
proof (intro allI impI)
  fix S x
  assume w: "waiting s' S x" "slot_ceiling s' \<le> x + 1"
  have "i \<notin> S"
    using w(1) assms(2,3,5) by (auto simp: waiting_def at_reserver_def)
  then have "waiting s S x"
    using waiting_others [OF w(1) assms(5)] assms(4) by simp
  then have "slot_starting s + settled_running s + ready s + card S \<le> x + length (slot_reservers s)"
    using assms(1,6) w(2) unfolding occupancy_inv_def by force
  moreover have "ready s' + (if is_ready pc then 1 else 0) = ready s + (if is_ready pc' then 1 else 0)"
    using ready_move [OF assms(2), of pc'] assms(5) by (simp add: ready_def)
  ultimately show "slot_starting s' + settled_running s' + ready s' + card S \<le> x + length (slot_reservers s')"
    using assms(4,5,7) by (auto split: if_splits)
qed

text \<open>The first load of a round, and a round whose second load finds room.\<close>

lemma occupancy_load:
  assumes "occupancy_inv s" "at_reserver s i (RLoop l)"
  shows "occupancy_inv (move i (RHave l (slot_starting s)) s)" (is "occupancy_inv ?s")
  unfolding occupancy_inv_def
proof (intro allI impI)
  fix S x
  assume w: "waiting ?s S x" "slot_ceiling ?s \<le> x + 1"
  have ready: "ready ?s = ready s"
    using ready_move [OF assms(2), of "RHave l (slot_starting s)"] by simp
  show "slot_starting ?s + settled_running ?s + ready ?s + card S \<le> x + length (slot_reservers ?s)"
  proof (cases "i \<in> S")
    case True
    then have "slot_starting s + settled_running s \<le> x"
      using w(1) assms(2) by (auto simp: waiting_def at_reserver_def)
    then show ?thesis
      using waiting_ready [OF w(1)] by simp
  next
    case False
    then have "waiting s S x"
      using waiting_others [OF w(1), of s i "RHave l (slot_starting s)"] by simp
    then show ?thesis
      using assms(1) w(2) ready unfolding occupancy_inv_def by simp
  qed
qed

lemma occupancy_pass:
  assumes "occupancy_inv s" "at_reserver s i (RHave l k)" "k + settled_running s < l" "l \<le> slot_ceiling s"
  shows "occupancy_inv (move i (RReady l k) s)" (is "occupancy_inv ?s")
  unfolding occupancy_inv_def
proof (intro allI impI)
  fix S x
  assume w: "waiting ?s S x" "slot_ceiling ?s \<le> x + 1"
  have notin: "i \<notin> S"
    using w(1) assms(2) by (auto simp: waiting_def at_reserver_def)
  have "waiting s S x"
    using waiting_others [OF w(1), of s i "RReady l k"] notin by simp
  then have "waiting s (insert i S) x"
    using w(2) assms(2-4) by (auto simp: waiting_def at_reserver_def)
  moreover have "finite S"
    using w(1) finite_subset [of S "{..<length (slot_reservers s)}"] by (auto simp: waiting_def)
  ultimately have "slot_starting s + settled_running s + ready s + card S + 1 \<le> x + length (slot_reservers s)"
    using assms(1) w(2) notin unfolding occupancy_inv_def by force
  then show "slot_starting ?s + settled_running ?s + ready ?s + card S \<le> x + length (slot_reservers ?s)"
    using ready_move [OF assms(2), of "RReady l k"] by simp
qed

lemma sat_add_less: "sat_add_u32 a b < l \<Longrightarrow> l \<le> u32_max \<Longrightarrow> a + b < l"
  by (auto simp: sat_add_u32_def min_def split: if_splits)

lemma settled_le: "settled_running s \<le> slot_running s"
  by (simp add: settled_running_def)

lemma limits_at:
  "limits_inv s \<Longrightarrow> at_reserver s i pc \<Longrightarrow> loaded_limit pc \<le> slot_ceiling s \<and> loaded_limit pc \<le> u32_max"
  unfolding limits_inv_def at_reserver_def by (metis nth_mem)

lemma limits_move:
  assumes "limits_inv s" "loaded_limit pc \<le> slot_ceiling s" "loaded_limit pc \<le> u32_max"
  shows "limits_inv (move i pc s)"
  using assms set_update_subset_insert [of "slot_reservers s" i pc] unfolding limits_inv_def move_simps by blast

lemma slot_step_limits:
  assumes "slot_step s s'" "limits_inv s"
  shows "limits_inv s'"
  using assms(1)
proof (cases rule: slot_step.cases)
  case (load_limit i)
  then show ?thesis
    using assms(2) by (intro ssubst [OF load_limit(1), of limits_inv] limits_move) (auto simp: limits_inv_def u32_max_def)
next
  case (exchange i l k)
  moreover have "limits_inv (s\<lparr>slot_starting := sat_add_u32 k 1\<rparr>)"
    using assms(2) by (simp add: limits_inv_def)
  ultimately show ?thesis
    using limits_move [of "s\<lparr>slot_starting := sat_add_u32 k 1\<rparr>" RIdle i] by simp
next
  case (worker_stores l ls)
  then show ?thesis
    using assms(2) by (auto simp: limits_inv_def store_limit_def max_def u32_max_def)
next
  case (limit_set l)
  then show ?thesis
    using assms(2) by (auto simp: limits_inv_def store_limit_def max_def u32_max_def)
next
  case (load_first i l)
  then show ?thesis
    using limits_move [OF assms(2), of "RFirst l (slot_starting s)" i] limits_at [OF assms(2) load_first(2)] by simp
next
  case (enter_loop i l k)
  then show ?thesis
    using limits_move [OF assms(2), of "RLoop l" i] limits_move [OF assms(2), of RIdle i]
      limits_at [OF assms(2) enter_loop(2)] by simp
next
  case (load_starting i l)
  then show ?thesis
    using limits_move [OF assms(2), of "RHave l (slot_starting s)" i] limits_at [OF assms(2) load_starting(2)] by simp
next
  case (load_running i l k)
  then show ?thesis
    using limits_move [OF assms(2), of "RReady l k" i] limits_move [OF assms(2), of RIdle i]
      limits_at [OF assms(2) load_running(2)] by simp
next
  case (exchange_fails i l k)
  then show ?thesis
    using limits_move [OF assms(2), of "RLoop l" i] limits_at [OF assms(2) exchange_fails(2)] by simp
qed (use assms(2) in \<open>simp_all add: limits_inv_def\<close>)

lemma settled_counts:
  "settled_running (s\<lparr>slot_running := (slot_running s + 1) mod 2 ^ 32, slot_inflight := slot_inflight s + 1\<rparr>)
     \<le> settled_running s"
proof -
  have "(slot_running s + 1) mod 2 ^ 32 - (slot_inflight s + 1 + slot_rejected s)
      \<le> slot_running s + 1 - (slot_inflight s + 1 + slot_rejected s)"
    by (rule diff_le_mono) (rule mod_less_eq_dividend)
  also have "\<dots> = settled_running s"
    by (simp add: settled_running_def)
  finally show ?thesis
    unfolding settled_running_def by simp
qed

lemma slot_step_occupancy:
  assumes "slot_step s s'" "occupancy_inv s" "limits_inv s"
  shows "occupancy_inv s'"
  using assms(1)
proof (cases rule: slot_step.cases)
  case (load_running i l k)
  have l: "l \<le> slot_ceiling s" "l \<le> u32_max"
    using limits_at [OF assms(3) load_running(2)] by simp_all
  show ?thesis
  proof (cases "sat_add_u32 k (slot_running s) \<ge> l")
    case True
    then show ?thesis
      using occupancy_move [OF assms(2) load_running(2), of RIdle] load_running(1) by simp
  next
    case False
    then have "k + settled_running s < l"
      using sat_add_less [of k "slot_running s" l] l(2) settled_le [of s] by simp
    then show ?thesis
      using occupancy_pass [OF assms(2) load_running(2) _ l(1)] False load_running(1) by simp
  qed
next
  case (load_starting i l)
  then show ?thesis
    using occupancy_load [OF assms(2)] by simp
next
  case (exchange i l k)
  show ?thesis
    by (rule occupancy_move [OF assms(2) exchange(2), of RIdle])
      (simp_all add: exchange(1,3) sat_add_u32_def settled_running_def)
next
  case (load_limit i)
  show ?thesis
    by (rule occupancy_move [OF assms(2) load_limit(2), of "RLimit (max (slot_limit s) 1)"]) (simp_all add: load_limit(1))
next
  case (load_first i l)
  show ?thesis
    by (rule occupancy_move [OF assms(2) load_first(2), of "RFirst l (slot_starting s)"]) (simp_all add: load_first(1))
next
  case (enter_loop i l k)
  show ?thesis
    by (rule occupancy_move [OF assms(2) enter_loop(2), of "if sat_add_u32 k (slot_running s) < l then RLoop l else RIdle"])
      (simp_all add: enter_loop(1))
next
  case (exchange_fails i l k)
  show ?thesis
    by (rule occupancy_move [OF assms(2) exchange_fails(2), of "RLoop l"]) (simp_all add: exchange_fails(1))
next
  case worker_counts
  show ?thesis
    unfolding worker_counts by (rule occupancy_counters [OF assms(2)]) (use settled_counts [of s] in simp_all)
qed (rule occupancy_counters [OF assms(2)]; simp add: settled_running_def decrement_minus store_limit_def; linarith?)+

lemma slot_step_length: "slot_step s s' \<Longrightarrow> length (slot_reservers s') = length (slot_reservers s)"
  by (induction rule: slot_step.induct) simp_all

lemma single_update: "xs[i := y] = [z] \<Longrightarrow> i < length xs \<Longrightarrow> y = z \<and> i = 0"
  by (cases xs; cases i) auto

lemma single_before: "xs[i := y] = [z] \<Longrightarrow> i < length xs \<Longrightarrow> xs ! i = w \<Longrightarrow> xs = [w]"
  by (cases xs; cases i) auto

lemma slot_step_single:
  assumes "slot_step s s'" "single_inv s" "limits_inv s"
  shows "single_inv s'"
  using assms(1)
proof (cases rule: slot_step.cases)
  case (load_running i l k)
  have l: "l \<le> u32_max"
    using limits_at [OF assms(3) load_running(2)] by simp
  show ?thesis
    unfolding single_inv_def
  proof (intro allI conjI impI)
    fix l' k'
    assume "slot_reservers s' = [RReady l' k']"
    then have eq: "l' = l" "k' = k" "\<not> sat_add_u32 k (slot_running s) \<ge> l" "slot_reservers s = [RHave l k]"
      using load_running by (auto simp: at_reserver_def split: if_splits dest: single_update single_before)
    then have "slot_starting s \<le> k" "k + slot_running s < l"
      using assms(2) sat_add_less [OF _ l] by (auto simp: single_inv_def)
    then show "slot_starting s' < k' \<or> slot_starting s' = k' \<and> k' + settled_running s' < l'"
      using eq load_running(1) settled_le [of s] by auto
  next
    fix l' k'
    assume "slot_reservers s' = [RHave l' k']"
    then show "slot_starting s' \<le> k'"
      using load_running single_update [of "slot_reservers s" i] by (auto simp: at_reserver_def split: if_splits)
  qed
next
  case worker_counts
  then show ?thesis
    using assms(2) settled_counts [of s] unfolding single_inv_def by fastforce
qed (use assms(2) in \<open>auto simp: single_inv_def settled_running_def decrement_minus at_reserver_def store_limit_def
    dest!: single_update split: if_splits\<close>)

lemma slots_reachable:
  assumes "slot_step\<^sup>*\<^sup>* (slots_initial m limit running) s" "0 < m" "limit \<le> u32_max"
  shows "occupancy_inv s \<and> limits_inv s \<and> single_inv s \<and> length (slot_reservers s) = m"
  using assms(1)
proof (induction rule: rtranclp_induct)
  case base
  have "S = {}" if "waiting (slots_initial m limit running) S x" for S x
    using that by (auto simp: waiting_def slots_initial_def)
  then have "card S = 0" if "waiting (slots_initial m limit running) S x" for S x
    using that by (metis card.empty)
  moreover have "slot_starting (slots_initial m limit running) = 0" "ready (slots_initial m limit running) = 0"
    "settled_running (slots_initial m limit running) = running" "length (slot_reservers (slots_initial m limit running)) = m"
    "running \<le> slot_ceiling (slots_initial m limit running)"
    by (simp_all add: slots_initial_def ready_def settled_running_def filter_replicate)
  ultimately have "occupancy_inv (slots_initial m limit running)"
    using assms(2) unfolding occupancy_inv_def by fastforce
  moreover have "limits_inv (slots_initial m limit running)"
    using assms(3) by (auto simp: limits_inv_def slots_initial_def u32_max_def)
  moreover have "single_inv (slots_initial m limit running)"
    by (cases m) (auto simp: single_inv_def slots_initial_def)
  ultimately show ?case
    by (simp add: slots_initial_def)
next
  case (step s s')
  then show ?case
    using slot_step_occupancy slot_step_limits slot_step_single slot_step_length by metis
qed

text \<open>
  C36.  Flush slots under every interleaving of \<open>m\<close> concurrent reservation calls with starting, stopping and
  cancelled workers and with stores of the limit, from the counters a reconciliation leaves: reserved and running
  workers exceed the largest limit stored so far by at most \<open>m - 1\<close>, one for each further reserver, plus the
  workers between their two counter updates.  With one reserver, as the supervisor is the only caller, every
  exchange that can succeed finds the reserved and settled workers below the limit the call has read, whatever
  limit was stored before.
\<close>

theorem flush_slots_bounded:
  assumes "slot_step\<^sup>*\<^sup>* (slots_initial m limit running) s" "0 < m" "limit \<le> u32_max"
  shows "slot_starting s + slot_running s
      \<le> slot_ceiling s + (m - 1) + slot_inflight s + slot_rejected s
    \<and> (slot_reservers s = [RReady l k] \<and> slot_starting s = k \<longrightarrow> slot_starting s + settled_running s < l)"
proof
  note inv = slots_reachable [OF assms]
  have "waiting s {} (slot_ceiling s - 1)"
    by (simp add: waiting_def)
  then have "slot_starting s + settled_running s + ready s \<le> slot_ceiling s - 1 + m"
    using inv unfolding occupancy_inv_def by force
  moreover have "slot_ceiling s \<ge> 1"
    using inv by (simp add: limits_inv_def)
  ultimately show "slot_starting s + slot_running s \<le> slot_ceiling s + (m - 1) + slot_inflight s + slot_rejected s"
    using assms(2) unfolding settled_running_def by linarith
  show "slot_reservers s = [RReady l k] \<and> slot_starting s = k \<longrightarrow> slot_starting s + settled_running s < l"
    using inv unfolding single_inv_def by auto
qed

theorem flush_slots_bounded_witness:
  "slot_starting (slots_initial 1 1 0\<lparr>slot_starting := 1\<rparr>) + slot_running (slots_initial 1 1 0\<lparr>slot_starting := 1\<rparr>) \<le> 1
    \<and> slot_starting (slots_initial 1 1 0\<lparr>slot_reservers := [RReady 1 0]\<rparr>)
      + settled_running (slots_initial 1 1 0\<lparr>slot_reservers := [RReady 1 0]\<rparr>) < 1"
proof -
  let ?s = "slots_initial 1 1 0"
  let ?at = "\<lambda>pc. ?s\<lparr>slot_reservers := [pc]\<rparr>"
  note ev = slots_initial_def at_reserver_def move_def sat_add_u32_def
  have "slot_step ?s (?at (RLimit 1))"
    using load_limit [of ?s 0] by (simp add: ev)
  moreover have "slot_step (?at (RLimit 1)) (?at (RFirst 1 0))"
    using load_first [of "?at (RLimit 1)" 0 1] by (simp add: ev)
  moreover have "slot_step (?at (RFirst 1 0)) (?at (RLoop 1))"
    using enter_loop [of "?at (RFirst 1 0)" 0 1 0] by (simp add: ev)
  moreover have "slot_step (?at (RLoop 1)) (?at (RHave 1 0))"
    using load_starting [of "?at (RLoop 1)" 0 1] by (simp add: ev)
  moreover have "slot_step (?at (RHave 1 0)) (?at (RReady 1 0))"
    using load_running [of "?at (RHave 1 0)" 0 1 0] by (simp add: ev)
  ultimately have ready: "slot_step\<^sup>*\<^sup>* ?s (?at (RReady 1 0))"
    by (meson converse_rtranclp_into_rtranclp rtranclp.rtrancl_refl)
  moreover have "slot_step (?at (RReady 1 0)) (?s\<lparr>slot_starting := 1\<rparr>)"
    using exchange [of "?at (RReady 1 0)" 0 1 0] by (simp add: ev u32_max_def)
  ultimately have granted: "slot_step\<^sup>*\<^sup>* ?s (?s\<lparr>slot_starting := 1\<rparr>)"
    by (rule rtranclp.rtrancl_into_rtrancl)
  show ?thesis
    using flush_slots_bounded [OF granted, of 1 0] flush_slots_bounded [OF ready, of 1 0]
    by (simp add: slots_initial_def u32_max_def)
qed

subsection \<open>Interleaved publication and acknowledgement\<close>

text \<open>A generation counter with its flag while publishers and acknowledging workers run.  A publisher adds one and
  then raises the flag; a worker raises the processed generation, compares, clears the flag, compares again and
  re-raises the flag when a publication came between.  The state counts publishers between their two accesses and
  keeps where each worker stands, with the generation it acknowledges.  The publisher is \<open>publish_wal\<close> or
  \<open>publish_flush\<close>, the worker \<open>mark_wal_processed\<close> or \<open>mark_flush_processed\<close>; \<open>mark_maintenance_reconciled\<close>, which
  clears two flags and raises only one of them again, is not an instance.  Generations are naturals: the code's
  \<open>u64\<close> would need \<open>2^64\<close> publications to wrap.\<close>

datatype acknowledger = Compare nat | Clear nat | Recheck nat | Reraise nat

record wake_state =
  wake_generation :: nat
  wake_processed :: nat
  wake_flag :: bool
  wake_publishers :: nat
  wake_workers :: "acknowledger multiset"

definition wake_initial :: wake_state where
  "wake_initial = \<lparr>wake_generation = 0, wake_processed = 0, wake_flag = False, wake_publishers = 0, wake_workers = {#}\<rparr>"

inductive wake_step :: "wake_state \<Rightarrow> wake_state \<Rightarrow> bool" where
  publish_add: "wake_step s (s\<lparr>wake_generation := wake_generation s + 1, wake_publishers := wake_publishers s + 1\<rparr>)"
| publish_flag: "wake_publishers s > 0 \<Longrightarrow> wake_step s (s\<lparr>wake_flag := True, wake_publishers := wake_publishers s - 1\<rparr>)"
| raise_processed: "wake_step s (s\<lparr>wake_processed := max (wake_processed s) g, wake_workers := add_mset (Compare g) (wake_workers s)\<rparr>)"
| compare_stale: "wake_workers s = add_mset (Compare g) ws \<Longrightarrow> wake_generation s \<noteq> g \<Longrightarrow> wake_step s (s\<lparr>wake_workers := ws\<rparr>)"
| compare_current: "wake_workers s = add_mset (Compare g) ws \<Longrightarrow> wake_generation s = g \<Longrightarrow>
    wake_step s (s\<lparr>wake_workers := add_mset (Clear g) ws\<rparr>)"
| clear_flag: "wake_workers s = add_mset (Clear g) ws \<Longrightarrow>
    wake_step s (s\<lparr>wake_flag := False, wake_workers := add_mset (Recheck g) ws\<rparr>)"
| recheck_current: "wake_workers s = add_mset (Recheck g) ws \<Longrightarrow> wake_generation s = g \<Longrightarrow> wake_step s (s\<lparr>wake_workers := ws\<rparr>)"
| recheck_stale: "wake_workers s = add_mset (Recheck g) ws \<Longrightarrow> wake_generation s \<noteq> g \<Longrightarrow>
    wake_step s (s\<lparr>wake_workers := add_mset (Reraise g) ws\<rparr>)"
| reraise_flag: "wake_workers s = add_mset (Reraise g) ws \<Longrightarrow> wake_step s (s\<lparr>wake_flag := True, wake_workers := ws\<rparr>)"

definition wake_inv :: "wake_state \<Rightarrow> bool" where
  "wake_inv s \<longleftrightarrow> (wake_processed s < wake_generation s \<longrightarrow> wake_flag s \<or> wake_publishers s > 0
       \<or> (\<exists>g. Recheck g \<in># wake_workers s \<and> g \<noteq> wake_generation s) \<or> (\<exists>g. Reraise g \<in># wake_workers s))
     \<and> (\<forall>g. Compare g \<in># wake_workers s \<or> Clear g \<in># wake_workers s \<or> Recheck g \<in># wake_workers s \<longrightarrow> g \<le> wake_processed s)"

lemma wake_step_inv: "wake_step s s' \<Longrightarrow> wake_inv s \<Longrightarrow> wake_inv s'"
proof (induction rule: wake_step.induct)
  case (raise_processed s g)
  then show ?case
    unfolding wake_inv_def by (simp add: le_max_iff_disj)
next
  case (clear_flag s g ws)
  then have "g \<le> wake_processed s"
    unfolding wake_inv_def by simp
  then show ?case
    using clear_flag unfolding wake_inv_def by fastforce
next
  case (recheck_current s g ws)
  then have "g \<le> wake_processed s"
    unfolding wake_inv_def by simp
  then show ?case
    using recheck_current unfolding wake_inv_def by fastforce
qed (fastforce simp: wake_inv_def)+

text \<open>
  C37.  No wake-up is lost: under every interleaving of publications and acknowledgements, whenever no publisher
  and no worker is in the middle of its accesses and a generation remains unprocessed, the flag is raised.
\<close>

theorem no_lost_wakeup:
  assumes "wake_step\<^sup>*\<^sup>* wake_initial s" "wake_publishers s = 0" "wake_workers s = {#}"
    and "wake_processed s < wake_generation s"
  shows "wake_flag s"
proof -
  have "wake_inv s"
    using assms(1)
  proof (induction rule: rtranclp_induct)
    case base
    show ?case
      by (simp add: wake_inv_def wake_initial_def)
  next
    case (step s s')
    then show ?case
      using wake_step_inv by blast
  qed
  then show ?thesis
    using assms(2-4) by (simp add: wake_inv_def)
qed

theorem no_lost_wakeup_witness: "wake_flag (wake_initial\<lparr>wake_generation := 1, wake_flag := True\<rparr>)"
proof -
  have "wake_step wake_initial (wake_initial\<lparr>wake_generation := 1, wake_publishers := 1\<rparr>)"
    using publish_add [of wake_initial] by (simp add: wake_initial_def)
  moreover have "wake_step (wake_initial\<lparr>wake_generation := 1, wake_publishers := 1\<rparr>) (wake_initial\<lparr>wake_generation := 1, wake_flag := True\<rparr>)"
    using publish_flag [of "wake_initial\<lparr>wake_generation := 1, wake_publishers := 1\<rparr>"] by (simp add: wake_initial_def)
  ultimately have "wake_step\<^sup>*\<^sup>* wake_initial (wake_initial\<lparr>wake_generation := 1, wake_flag := True\<rparr>)"
    by (meson converse_rtranclp_into_rtranclp rtranclp.rtrancl_refl)
  then show ?thesis
    by (rule no_lost_wakeup) (simp_all add: wake_initial_def)
qed

end
