(* ===== verification/Txn_Nesting.thy ===== *)
theory Txn_Nesting
  imports Prelude
begin

text \<open>
  Backend-local bookkeeping that follows PostgreSQL's subtransactions: whether a transaction did work worth a
  wake-up (\<open>koldstore-supervisor/src/wake.rs\<close>) and which read fences are committed
  (\<open>koldstore-wal-mirror/src/wal/fence_pending.rs\<close>), with the set of paused databases
  (\<open>koldstore-supervisor/src/ensure_pause.rs\<close>).  A locale states what nested bookkeeping must do; both
  components are interpretations of it.
\<close>

subsection \<open>Dirty transactions\<close>

record TransactionDirty =
  earliest_level :: nat

definition dirty_default :: TransactionDirty where
  "dirty_default = \<lparr>earliest_level = 0\<rparr>"

definition dirty_mark :: "nat \<Rightarrow> TransactionDirty \<Rightarrow> TransactionDirty" where
  "dirty_mark nesting_level d =
     (let level = (if nesting_level = 0 then 1 else nesting_level) in
      if earliest_level d = 0 \<or> level < earliest_level d then d\<lparr>earliest_level := level\<rparr> else d)"

definition dirty_commit_subtransaction :: "nat \<Rightarrow> TransactionDirty \<Rightarrow> TransactionDirty" where
  "dirty_commit_subtransaction nesting_level d =
     (if earliest_level d \<ge> nesting_level \<and> nesting_level > 1 then d\<lparr>earliest_level := nesting_level - 1\<rparr> else d)"

definition dirty_abort_subtransaction :: "nat \<Rightarrow> TransactionDirty \<Rightarrow> TransactionDirty" where
  "dirty_abort_subtransaction nesting_level d = (if earliest_level d \<ge> nesting_level then d\<lparr>earliest_level := 0\<rparr> else d)"

definition dirty_take :: "TransactionDirty \<Rightarrow> bool \<times> TransactionDirty" where
  "dirty_take d = (earliest_level d \<noteq> 0, d\<lparr>earliest_level := 0\<rparr>)"

definition dirty_clear :: "TransactionDirty \<Rightarrow> TransactionDirty" where
  "dirty_clear d = d\<lparr>earliest_level := 0\<rparr>"

subsection \<open>Pending fences\<close>

type_synonym PendingFences = "(nat \<times> nat) list"

definition fences_new :: PendingFences where
  "fences_new = []"

fun fences_raise :: "nat \<Rightarrow> nat \<Rightarrow> PendingFences \<Rightarrow> PendingFences" where
  "fences_raise level lsn [] = [(level, lsn)]"
| "fences_raise level lsn ((l, existing) # fs) =
     (if l = level then (l, max existing lsn) # fs else (l, existing) # fences_raise level lsn fs)"

definition fences_note :: "nat \<Rightarrow> nat \<Rightarrow> PendingFences \<Rightarrow> PendingFences" where
  "fences_note level lsn fs = fences_raise level lsn fs"

definition promoted :: "nat \<Rightarrow> PendingFences \<Rightarrow> nat option" where
  "promoted level fs = foldl (\<lambda>p (l, lsn). if l = level then Some (case p of None \<Rightarrow> lsn | Some q \<Rightarrow> max q lsn) else p) None fs"

definition fences_commit_subtransaction :: "nat \<Rightarrow> PendingFences \<Rightarrow> PendingFences" where
  "fences_commit_subtransaction level fs =
     (if level \<le> 1 then fs
      else let kept = filter (\<lambda>(l, lsn). l \<noteq> level) fs in
        case promoted level fs of None \<Rightarrow> kept | Some lsn \<Rightarrow> fences_raise (level - 1) lsn kept)"

definition fences_abort_subtransaction :: "nat \<Rightarrow> PendingFences \<Rightarrow> PendingFences" where
  "fences_abort_subtransaction level fs = filter (\<lambda>(l, lsn). l < level) fs"

definition take_committed :: "PendingFences \<Rightarrow> nat option \<times> PendingFences" where
  "take_committed fs = (if fs = [] then None else Some (Max (snd ` set fs)), [])"

definition fences_clear :: "PendingFences \<Rightarrow> PendingFences" where
  "fences_clear fs = []"

subsection \<open>Paused databases\<close>

fun claim_slot :: "nat \<Rightarrow> nat list \<Rightarrow> nat list option" where
  "claim_slot oid [] = None"
| "claim_slot oid (s # ss) = (if s = 0 then Some (oid # ss) else map_option (\<lambda>ss. s # ss) (claim_slot oid ss))"

definition pause :: "nat \<Rightarrow> nat list \<Rightarrow> nat list \<times> bool" where
  "pause oid slots =
     (if oid = 0 then (slots, False)
      else if oid \<in> set slots then (slots, True)
      else case claim_slot oid slots of None \<Rightarrow> (slots, False) | Some slots \<Rightarrow> (slots, True))"

definition resume :: "nat \<Rightarrow> nat list \<Rightarrow> nat list" where
  "resume oid slots = (if oid = 0 then slots else map (\<lambda>s. if s = oid then 0 else s) slots)"

definition is_paused :: "nat \<Rightarrow> nat list \<Rightarrow> bool" where
  "is_paused oid slots \<longleftrightarrow> (if oid = 0 then False else oid \<in> set slots)"

subsection \<open>Nested bookkeeping\<close>

text \<open>What really happened is a stack with one list of notes per open level, the top-level transaction first: a
  committed subtransaction hands its notes to its parent, an aborted one drops them.\<close>

datatype txn_event = Note nat | BeginSub | CommitSub | AbortSub

fun txn_stack :: "txn_event list \<Rightarrow> nat list list option" where
  "txn_stack [] = Some [[]]"
| "txn_stack (e # es) =
     (case txn_stack es of
        None \<Rightarrow> None
      | Some st \<Rightarrow>
          (case e of
             Note x \<Rightarrow> Some (butlast st @ [last st @ [x]])
           | BeginSub \<Rightarrow> Some (st @ [[]])
           | CommitSub \<Rightarrow> if length st < 2 then None else Some (butlast (butlast st) @ [last (butlast st) @ last st])
           | AbortSub \<Rightarrow> if length st < 2 then None else Some (butlast st)))"

text \<open>Histories are latest event first.  The level passed to a component is the number of open levels.\<close>

fun run_txn :: "(nat \<Rightarrow> nat \<Rightarrow> 's \<Rightarrow> 's) \<Rightarrow> (nat \<Rightarrow> 's \<Rightarrow> 's) \<Rightarrow> (nat \<Rightarrow> 's \<Rightarrow> 's) \<Rightarrow> 's \<Rightarrow> txn_event list \<Rightarrow> 's" where
  "run_txn mark commit abort init [] = init"
| "run_txn mark commit abort init (e # es) =
     (let s = run_txn mark commit abort init es;
          level = (case txn_stack es of None \<Rightarrow> 0 | Some st \<Rightarrow> length st)
      in case e of Note x \<Rightarrow> mark level x s | BeginSub \<Rightarrow> s | CommitSub \<Rightarrow> commit level s | AbortSub \<Rightarrow> abort level s)"

locale nested_bookkeeping =
  fixes mark :: "nat \<Rightarrow> nat \<Rightarrow> 's \<Rightarrow> 's" and commit abort :: "nat \<Rightarrow> 's \<Rightarrow> 's" and init :: 's
    and tracks :: "nat list list \<Rightarrow> 's \<Rightarrow> bool"
  assumes tracks_init: "tracks [[]] init"
    and tracks_note: "tracks (st @ [l]) s \<Longrightarrow> tracks (st @ [l @ [x]]) (mark (length st + 1) x s)"
    and tracks_begin: "tracks st s \<Longrightarrow> tracks (st @ [[]]) s"
    and tracks_commit: "tracks (st @ [k, l]) s \<Longrightarrow> tracks (st @ [k @ l]) (commit (length st + 2) s)"
    and tracks_abort: "tracks (st @ [l]) s \<Longrightarrow> tracks st (abort (length st + 1) s)"
begin

lemma run_tracks: "txn_stack es = Some st \<Longrightarrow> st \<noteq> [] \<and> tracks st (run_txn mark commit abort init es)"
proof (induction es arbitrary: st)
  case Nil
  then show ?case
    using tracks_init by auto
next
  case (Cons e es)
  then obtain old where old: "txn_stack es = Some old" "old \<noteq> []" "tracks old (run_txn mark commit abort init es)"
    by (auto split: option.splits)
  then obtain ls l where l: "old = ls @ [l]"
    by (meson rev_exhaust)
  show ?case
  proof (cases e)
    case (Note x)
    then show ?thesis
      using Cons.prems old l tracks_note [of ls l _ x] by (auto simp: Let_def)
  next
    case BeginSub
    then show ?thesis
      using Cons.prems old tracks_begin by (auto simp: Let_def)
  next
    case CommitSub
    then have "ls \<noteq> []"
      using Cons.prems old l by (auto split: if_splits)
    then obtain ks k where "ls = ks @ [k]"
      by (meson rev_exhaust)
    then show ?thesis
      using Cons.prems old l CommitSub tracks_commit [of ks k l] by (auto simp: Let_def butlast_append)
  next
    case AbortSub
    then show ?thesis
      using Cons.prems old l tracks_abort [of ls l] by (auto simp: Let_def split: if_splits)
  qed
qed

end

subsection \<open>Dirty transactions track the stack\<close>

fun first_nonempty :: "'a list list \<Rightarrow> nat" where
  "first_nonempty [] = 0"
| "first_nonempty (l # ls) = (if l \<noteq> [] then 1 else case first_nonempty ls of 0 \<Rightarrow> 0 | Suc k \<Rightarrow> Suc (Suc k))"

lemma first_nonempty_append:
  "first_nonempty (xs @ ys) =
     (if first_nonempty xs \<noteq> 0 then first_nonempty xs else if first_nonempty ys = 0 then 0 else length xs + first_nonempty ys)"
  by (induction xs) (auto split: nat.splits)

lemma first_nonempty_le: "first_nonempty xs \<le> length xs"
  by (induction xs) (auto split: nat.splits)

lemma first_nonempty_zero: "first_nonempty xs = 0 \<longleftrightarrow> concat xs = []"
  by (induction xs) (auto split: nat.splits)

definition dirty_tracks :: "nat list list \<Rightarrow> TransactionDirty \<Rightarrow> bool" where
  "dirty_tracks st d \<longleftrightarrow> earliest_level d = first_nonempty st"

interpretation dirty: nested_bookkeeping "\<lambda>level x. dirty_mark level" dirty_commit_subtransaction dirty_abort_subtransaction
  dirty_default dirty_tracks
proof
  fix st :: "nat list list" and l k d x
  have le: "first_nonempty st \<le> length st"
    by (rule first_nonempty_le)
  show "dirty_tracks [[]] dirty_default"
    by (simp add: dirty_tracks_def dirty_default_def)
  show "dirty_tracks (st @ [l]) d \<Longrightarrow> dirty_tracks (st @ [l @ [x]]) (dirty_mark (length st + 1) d)"
    using le by (auto simp: dirty_tracks_def dirty_mark_def first_nonempty_append split: if_splits)
  show "dirty_tracks st d \<Longrightarrow> dirty_tracks (st @ [[]]) d"
    by (simp add: dirty_tracks_def first_nonempty_append)
  show "dirty_tracks (st @ [k, l]) d \<Longrightarrow> dirty_tracks (st @ [k @ l]) (dirty_commit_subtransaction (length st + 2) d)"
    using le by (auto simp: dirty_tracks_def dirty_commit_subtransaction_def first_nonempty_append split: if_splits)
  show "dirty_tracks (st @ [l]) d \<Longrightarrow> dirty_tracks st (dirty_abort_subtransaction (length st + 1) d)"
    using le by (auto simp: dirty_tracks_def dirty_abort_subtransaction_def first_nonempty_append split: if_splits)
qed

subsection \<open>Pending fences track the stack\<close>

definition level_max :: "nat list list \<Rightarrow> nat \<Rightarrow> nat option" where
  "level_max st l = (if 0 < l \<and> l \<le> length st \<and> st ! (l - 1) \<noteq> [] then Some (Max (set (st ! (l - 1)))) else None)"

definition fences_track :: "nat list list \<Rightarrow> PendingFences \<Rightarrow> bool" where
  "fences_track st fs \<longleftrightarrow> distinct (map fst fs) \<and> map_of fs = level_max st"

lemma raise_map: "map_of (fences_raise level x fs) =
    (map_of fs)(level \<mapsto> (case map_of fs level of None \<Rightarrow> x | Some v \<Rightarrow> max v x))"
  by (induction fs) (auto simp: fun_eq_iff)

lemma raise_keys: "fst ` set (fences_raise level x fs) = insert level (fst ` set fs)"
  unfolding dom_map_of_conv_image_fst [symmetric] raise_map by simp

lemma raise_distinct: "distinct (map fst fs) \<Longrightarrow> distinct (map fst (fences_raise level x fs))"
  by (induction fs) (auto simp: raise_keys)

lemma promoted_from:
  "distinct (map fst fs) \<Longrightarrow> foldl (\<lambda>p (l, lsn). if l = level then Some (case p of None \<Rightarrow> lsn | Some q \<Rightarrow> max q lsn) else p) p fs =
     (case map_of fs level of None \<Rightarrow> p | Some v \<Rightarrow> Some (case p of None \<Rightarrow> v | Some q \<Rightarrow> max q v))"
proof (induction fs arbitrary: p)
  case (Cons f fs)
  have "map_of fs (fst f) = None"
    using Cons.prems by (auto simp: map_of_eq_None_iff)
  then show ?case
    using Cons by (cases f) (auto split: option.splits)
qed simp

lemma promoted_map_of: "distinct (map fst fs) \<Longrightarrow> promoted level fs = map_of fs level"
  unfolding promoted_def by (simp add: promoted_from split: option.splits)

lemma filter_map_of: "map_of (filter (\<lambda>(l, v). P l) fs) = (\<lambda>l. if P l then map_of fs l else None)"
  by (induction fs) (auto simp: fun_eq_iff)

lemma filter_distinct: "distinct (map fst fs) \<Longrightarrow> distinct (map fst (filter P fs))"
  by (induction fs) auto

lemma Max_snoc: "Max (set (l @ [x])) = (if l = [] then x else max (Max (set l)) x)"
  by (simp add: Max_insert2 insert_commute max.commute Max_insert)

lemma level_max_snoc: "level_max (st @ [l]) i = (if i = length st + 1 then (if l = [] then None else Some (Max (set l))) else level_max st i)"
  by (auto simp: level_max_def nth_append)

lemma level_max_beyond: "length st < i \<Longrightarrow> level_max st i = None"
  by (simp add: level_max_def)

interpretation fences: nested_bookkeeping fences_note fences_commit_subtransaction fences_abort_subtransaction fences_new fences_track
proof
  fix st :: "nat list list" and l k fs x
  show "fences_track [[]] fences_new"
    by (auto simp: fences_track_def fences_new_def level_max_def fun_eq_iff)
  show "fences_track (st @ [l]) fs \<Longrightarrow> fences_track (st @ [l @ [x]]) (fences_note (length st + 1) x fs)"
    by (auto simp: fences_track_def fences_note_def raise_distinct raise_map level_max_snoc Max_snoc fun_eq_iff max.commute)
  show "fences_track st fs \<Longrightarrow> fences_track (st @ [[]]) fs"
    by (auto simp: fences_track_def level_max_snoc level_max_beyond fun_eq_iff)
  show "fences_track (st @ [l]) fs \<Longrightarrow> fences_track st (fences_abort_subtransaction (length st + 1) fs)"
    by (auto simp: fences_track_def fences_abort_subtransaction_def filter_distinct filter_map_of level_max_snoc
        level_max_beyond fun_eq_iff)
  show "fences_track (st @ [k @ l]) (fences_commit_subtransaction (length st + 2) fs)" if "fences_track (st @ [k, l]) fs"
  proof -
    have fs: "distinct (map fst fs)" "map_of fs = level_max ((st @ [k]) @ [l])"
      using that by (simp_all add: fences_track_def)
    have kept: "map_of (filter (\<lambda>(i, v). i \<noteq> length st + 2) fs) = level_max (st @ [k])"
      unfolding filter_map_of fs(2) level_max_snoc [of "st @ [k]"] by (auto simp: level_max_beyond fun_eq_iff)
    have "promoted (length st + 2) fs = (if l = [] then None else Some (Max (set l)))"
      unfolding promoted_map_of [OF fs(1)] fs(2) level_max_snoc [of "st @ [k]"] by simp
    then show ?thesis
      using fs(1) kept
      by (auto simp: fences_track_def fences_commit_subtransaction_def Let_def filter_distinct raise_distinct raise_map
          level_max_snoc level_max_beyond fun_eq_iff Max_Un)
  qed
qed

lemma tracked_fences_Max:
  assumes "fences_track st fs"
  shows "fst (take_committed fs) = (if concat st = [] then None else Some (Max (set (concat st))))"
proof -
  have fs: "distinct (map fst fs)" "map_of fs = level_max st"
    using assms by (simp_all add: fences_track_def)
  have mem: "(l, v) \<in> set fs \<longleftrightarrow> level_max st l = Some v" for l v
    using fs by (metis Some_eq_map_of_iff)
  have vals: "snd ` set fs = (\<lambda>l. Max (set l)) ` (set st - {[]})"
  proof (intro equalityI subsetI)
    fix v
    assume "v \<in> snd ` set fs"
    then show "v \<in> (\<lambda>l. Max (set l)) ` (set st - {[]})"
      using mem by (force simp: level_max_def split: if_splits)
  next
    fix v
    assume "v \<in> (\<lambda>l. Max (set l)) ` (set st - {[]})"
    then obtain l where "l \<in> set st" "l \<noteq> []" "v = Max (set l)"
      by blast
    then obtain i where "i < length st" "st ! i \<noteq> []" "v = Max (set (st ! i))"
      by (metis in_set_conv_nth)
    then have "(Suc i, v) \<in> set fs"
      by (simp add: mem level_max_def)
    then show "v \<in> snd ` set fs"
      by force
  qed
  have "fs = [] \<longleftrightarrow> snd ` set fs = {}"
    by simp
  then have empty: "fs = [] \<longleftrightarrow> concat st = []"
    unfolding vals by auto
  have "Max ((\<lambda>l. Max (set l)) ` (set st - {[]})) = Max (set (concat st))" if "concat st \<noteq> []"
  proof (rule Max_eqI [symmetric])
    show "finite (set (concat st))"
      by simp
    have fin: "finite ((\<lambda>l. Max (set l)) ` (set st - {[]}))" "(\<lambda>l. Max (set l)) ` (set st - {[]}) \<noteq> {}"
      using that by (auto simp: concat_eq_Nil_conv)
    show "y \<le> Max ((\<lambda>l. Max (set l)) ` (set st - {[]}))" if y: "y \<in> set (concat st)" for y
    proof -
      obtain l where l: "l \<in> set st" "y \<in> set l"
        using y by auto
      then have "y \<le> Max (set l)" "Max (set l) \<in> (\<lambda>l. Max (set l)) ` (set st - {[]})"
        by auto
      then show ?thesis
        using Max_ge [OF fin(1)] by (meson order.trans)
    qed
    obtain l where "l \<in> set st" "l \<noteq> []" "Max ((\<lambda>l. Max (set l)) ` (set st - {[]})) = Max (set l)"
      using Max_in [OF fin] by auto
    then show "Max ((\<lambda>l. Max (set l)) ` (set st - {[]})) \<in> set (concat st)"
      by (auto intro!: bexI [of _ l])
  qed
  then show ?thesis
    using empty vals by (simp add: take_committed_def)
qed

text \<open>
  C38.  Both records follow every history of nested subtransactions: what they report when the top-level
  transaction commits is whether any noted work survived, and the highest fence position that survived; work
  noted in an aborted subtransaction, or in one nested inside it, is never reported.
\<close>

theorem nested_bookkeeping_exact:
  assumes "txn_stack history = Some stack"
  shows "fst (dirty_take (run_txn (\<lambda>level x. dirty_mark level) dirty_commit_subtransaction dirty_abort_subtransaction dirty_default history))
      = (concat stack \<noteq> [])
    \<and> fst (take_committed (run_txn fences_note fences_commit_subtransaction fences_abort_subtransaction fences_new history))
      = (if concat stack = [] then None else Some (Max (set (concat stack))))"
  using dirty.run_tracks [OF assms] tracked_fences_Max fences.run_tracks [OF assms]
  by (simp add: dirty_take_def dirty_tracks_def first_nonempty_zero)

theorem nested_bookkeeping_exact_witness:
  "fst (take_committed (run_txn fences_note fences_commit_subtransaction fences_abort_subtransaction fences_new
      [AbortSub, Note 9, BeginSub, CommitSub, Note 5, BeginSub, Note 3])) = Some 5"
  using nested_bookkeeping_exact [of "[AbortSub, Note 9, BeginSub, CommitSub, Note 5, BeginSub, Note 3]" "[[3, 5]]"]
  by simp

subsection \<open>Paused databases as a set\<close>

lemma claim_slot_set: "claim_slot oid slots = (if 0 \<in> set slots then Some ss else None) \<Longrightarrow> 0 \<in> set slots \<Longrightarrow>
    set ss - {0} = insert oid (set slots) - {0}"
  by (induction slots arbitrary: ss) (auto split: if_splits)

lemma claim_slot_None: "claim_slot oid slots = None \<longleftrightarrow> 0 \<notin> set slots"
  by (induction slots) auto

lemma pause_set:
  assumes "oid \<noteq> 0"
  shows "snd (pause oid slots) \<longleftrightarrow> is_paused oid slots \<or> 0 \<in> set slots"
    and "is_paused x (fst (pause oid slots)) \<longleftrightarrow> is_paused x slots \<or> x = oid \<and> snd (pause oid slots)"
    and "is_paused x (resume oid slots) \<longleftrightarrow> is_paused x slots \<and> x \<noteq> oid"
proof -
  show "snd (pause oid slots) \<longleftrightarrow> is_paused oid slots \<or> 0 \<in> set slots"
    using assms claim_slot_None [of oid slots] by (auto simp: pause_def is_paused_def split: option.splits)
  show "is_paused x (fst (pause oid slots)) \<longleftrightarrow> is_paused x slots \<or> x = oid \<and> snd (pause oid slots)"
  proof (cases "claim_slot oid slots")
    case None
    then show ?thesis
      using assms by (auto simp: pause_def is_paused_def)
  next
    case (Some ss)
    then have "set ss - {0} = insert oid (set slots) - {0}"
      using claim_slot_set [of oid slots ss] claim_slot_None [of oid slots] by auto
    then show ?thesis
      using assms Some by (auto simp: pause_def is_paused_def)
  qed
  show "is_paused x (resume oid slots) \<longleftrightarrow> is_paused x slots \<and> x \<noteq> oid"
    using assms by (auto simp: resume_def is_paused_def)
qed

end
