(* ===== verification/Object_Keys.thy ===== *)
theory Object_Keys
  imports Prelude
begin

text \<open>
  Object keys: the joining helpers of \<open>koldstore-common/src/domain/object_keys.rs\<close>, the segment layout of
  \<open>segment_paths.rs\<close>, percent-encoding of \<open>sql/ident.rs\<close>, the manifest paths of
  \<open>koldstore-manifest/src/paths.rs\<close> and the temporary keys of \<open>koldstore-storage/src/publish.rs\<close>.
  The lemmas give the shape of the keys: folder names parse back to their number, a rendered segment path
  names its folder, and keys of different kinds never coincide.
\<close>

subsection \<open>Slashes\<close>

definition trim_start_matches :: "char \<Rightarrow> string \<Rightarrow> string" where
  "trim_start_matches c s = dropWhile (\<lambda>x. x = c) s"

definition trim_matches :: "char \<Rightarrow> string \<Rightarrow> string" where
  "trim_matches c s = rev (dropWhile (\<lambda>x. x = c) (rev (dropWhile (\<lambda>x. x = c) s)))"

fun split_on :: "char \<Rightarrow> string \<Rightarrow> string list" where
  "split_on c [] = [[]]"
| "split_on c (x # xs) = (if x = c then [] # split_on c xs else
     (case split_on c xs of [] \<Rightarrow> [[x]] | p # ps \<Rightarrow> (x # p) # ps))"

text \<open>\<open>str::split_once\<close>, \<open>strip_prefix\<close> and \<open>strip_suffix\<close>.\<close>

definition split_once :: "char \<Rightarrow> string \<Rightarrow> (string \<times> string) option" where
  "split_once c s = (case dropWhile (\<lambda>x. x \<noteq> c) s of [] \<Rightarrow> None | _ # r \<Rightarrow> Some (takeWhile (\<lambda>x. x \<noteq> c) s, r))"

definition strip_prefix :: "string \<Rightarrow> string \<Rightarrow> string option" where
  "strip_prefix p s = (if prefix p s then Some (drop (length p) s) else None)"

definition strip_suffix :: "string \<Rightarrow> string \<Rightarrow> string option" where
  "strip_suffix p s = (if suffix p s then Some (take (length s - length p) s) else None)"

definition normalize_table_prefix :: "string \<Rightarrow> string" where
  "normalize_table_prefix rendered = (let trimmed = trim_matches CHR ''/'' rendered in
     if trimmed = [] then [] else trimmed @ ''/'')"

definition join_object_key :: "string \<Rightarrow> string \<Rightarrow> string" where
  "join_object_key table_prefix relative =
     (let pre = trim_matches CHR ''/'' table_prefix; rel = trim_matches CHR ''/'' relative in
      case (pre = [], rel = []) of
        (True, True) \<Rightarrow> []
      | (True, False) \<Rightarrow> rel
      | (False, True) \<Rightarrow> pre @ ''/''
      | (False, False) \<Rightarrow> pre @ ''/'' @ rel)"

definition manifest_object_key :: "string \<Rightarrow> string" where
  "manifest_object_key table_prefix = join_object_key table_prefix ''manifest.json''"

subsection \<open>Segment layout\<close>

definition SEGMENTS_PER_FOLDER :: nat where
  "SEGMENTS_PER_FOLDER = 100"

definition SEGMENT_PATH_TOKEN_LEN :: nat where
  "SEGMENT_PATH_TOKEN_LEN = 8"

text \<open>The argument of \<open>segment_folder_number\<close> is an \<open>i32\<close>.\<close>

definition segment_folder_number :: "int \<Rightarrow> nat" where
  "segment_folder_number batch_number = (nat (max batch_number 1) - 1) div SEGMENTS_PER_FOLDER + 1"

text \<open>\<open>chars().take(n)\<close>: a continuation byte belongs to the character before it.\<close>

fun take_chars :: "nat \<Rightarrow> string \<Rightarrow> string" where
  "take_chars n [] = []"
| "take_chars n (c # cs) =
     (if utf8_cont (byte_of c) then c # take_chars n cs
      else if n = 0 then [] else c # take_chars (n - 1) cs)"

definition segment_path_token :: "string \<Rightarrow> string" where
  "segment_path_token segment_id = take_chars SEGMENT_PATH_TOKEN_LEN (filter (\<lambda>ch. ch \<noteq> CHR ''-'') segment_id)"

definition segment_relative_object_path :: "int \<Rightarrow> string \<Rightarrow> string" where
  "segment_relative_object_path batch_number token =
     pad_nat 3 (segment_folder_number batch_number) @ ''/segment-'' @ pad_nat 4 (nat (max batch_number 0))
       @ ''-'' @ token @ ''.parquet''"

subsection \<open>Percent-encoding and hexadecimal\<close>

definition nibble :: "string \<Rightarrow> nat \<Rightarrow> char" where
  "nibble digits n = digits ! n"

definition hex_of :: "string \<Rightarrow> u8 \<Rightarrow> string" where
  "hex_of digits b = [nibble digits (unat b div 16), nibble digits (unat b mod 16)]"

definition is_ascii_alphanumeric :: "char \<Rightarrow> bool" where
  "is_ascii_alphanumeric c \<longleftrightarrow> (let n = of_char c :: nat in n \<in> {48..57} \<or> n \<in> {65..90} \<or> n \<in> {97..122})"

definition encode_char :: "char \<Rightarrow> string" where
  "encode_char c = (if is_ascii_alphanumeric c \<or> c = CHR ''_'' \<or> c = CHR ''-'' then [c]
     else CHR ''%'' # hex_of ''0123456789ABCDEF'' (byte_of c))"

definition encode_path_segment :: "string \<Rightarrow> string" where
  "encode_path_segment value = concat (map encode_char value)"

definition hex_encode :: "bytes \<Rightarrow> string" where
  "hex_encode bs = concat (map (hex_of ''0123456789abcdef'') bs)"

definition content_checksum_sha256_hex :: "(bytes \<Rightarrow> bytes) \<Rightarrow> bytes \<Rightarrow> string" where
  "content_checksum_sha256_hex sha256 bs = hex_encode (sha256 bs)"

subsection \<open>Manifest paths\<close>

definition MANIFEST_SHARD_PATH_HASH_HEX_LEN :: nat where
  "MANIFEST_SHARD_PATH_HASH_HEX_LEN = 32"

definition table_object_prefix :: "string \<Rightarrow> string \<Rightarrow> string" where
  "table_object_prefix namespace table_name = encode_path_segment namespace @ ''/'' @ encode_path_segment table_name"

definition relative_manifest_path :: "string \<Rightarrow> string \<Rightarrow> string" where
  "relative_manifest_path namespace table_name =
     manifest_object_key (normalize_table_prefix (table_object_prefix namespace table_name))"

text \<open>\<open>str::get(..n)\<close> is \<open>None\<close> beyond the end and inside a character.\<close>

definition str_get_to :: "nat \<Rightarrow> string \<Rightarrow> string option" where
  "str_get_to n s = (if n = length s \<or> n < length s \<and> \<not> utf8_cont (byte_of (s ! n)) then Some (take n s) else None)"

definition relative_manifest_shard_content_path :: "nat \<Rightarrow> string \<Rightarrow> string" where
  "relative_manifest_shard_content_path folder content_sha256 =
     pad_nat 3 folder @ ''/manifest-shard-''
       @ (case str_get_to MANIFEST_SHARD_PATH_HASH_HEX_LEN content_sha256 of None \<Rightarrow> content_sha256 | Some t \<Rightarrow> t)
       @ ''.json''"

definition parse_folder_name :: "string \<Rightarrow> nat option" where
  "parse_folder_name folder = (case parse_unsigned u32_max folder of
     None \<Rightarrow> None
   | Some number \<Rightarrow> if 0 < number \<and> folder = pad_nat 3 number then Some number else None)"

definition folder_from_segment_relative_path :: "string \<Rightarrow> string option" where
  "folder_from_segment_relative_path path =
     (let ok = (\<lambda>folder file_name.
          if parse_folder_name folder = None \<or> file_name = [] \<or> file_name = ''.'' \<or> file_name = ''..''
          then None else Some folder) in
      case split_on CHR ''/'' path of
        [folder, file_name] \<Rightarrow> ok folder file_name
      | [scope, folder, file_name] \<Rightarrow>
          if scope \<noteq> [] \<and> scope \<noteq> ''.'' \<and> scope \<noteq> ''..'' then ok folder file_name else None
      | _ \<Rightarrow> None)"

definition manifest_relative_segment_path :: "string \<Rightarrow> string \<Rightarrow> string \<Rightarrow> string" where
  "manifest_relative_segment_path namespace table_name object_path =
     (case strip_prefix (encode_path_segment namespace @ ''/'' @ encode_path_segment table_name @ ''/'') object_path of
        None \<Rightarrow> object_path
      | Some rest \<Rightarrow> rest)"

text \<open>Temporary keys; the uuid of \<open>unique_temp_file_name\<close> is an argument.\<close>

definition temp_object_key :: "string \<Rightarrow> string \<Rightarrow> string \<Rightarrow> string" where
  "temp_object_key pre writer_id file_name =
     (let pre = trim_matches CHR ''/'' pre; writer_id = trim_matches CHR ''/'' writer_id;
          file_name = trim_matches CHR ''/'' file_name;
          staged = (if writer_id = [] then file_name else writer_id @ ''-'' @ file_name) in
      if pre = [] then ''.tmp/'' @ staged else pre @ ''/.tmp/'' @ staged)"

definition unique_temp_file_name :: "string \<Rightarrow> string \<Rightarrow> string" where
  "unique_temp_file_name uuid stem = stem @ ''.'' @ uuid @ ''.tmp''"

subsection \<open>Shape of the keys\<close>

lemma trim_matches_id [simp]: "\<lbrakk>s \<noteq> []; hd s \<noteq> c; last s \<noteq> c\<rbrakk> \<Longrightarrow> trim_matches c s = s"
proof -
  assume a: "s \<noteq> []" "hd s \<noteq> c" "last s \<noteq> c"
  have "dropWhile (\<lambda>x. x = c) t = t" if "t \<noteq> []" "hd t \<noteq> c" for t
    using that by (cases t) auto
  from this [of s] this [of "rev s"] a show ?thesis
    by (simp add: trim_matches_def hd_rev)
qed

lemma trim_matches_Nil [simp]: "trim_matches c [] = []"
  by (simp add: trim_matches_def)

lemma trim_matches_ends: "trim_matches c s = [] \<or> hd (trim_matches c s) \<noteq> c \<and> last (trim_matches c s) \<noteq> c"
proof (cases "trim_matches c s = []")
  case False
  define t where "t = dropWhile (\<lambda>x. x = c) s"
  define u where "u = dropWhile (\<lambda>x. x = c) (rev t)"
  have tr: "trim_matches c s = rev u"
    by (simp add: trim_matches_def t_def u_def)
  then have "u \<noteq> []"
    using False by simp
  then have t: "t \<noteq> []"
    by (auto simp: u_def)
  have "hd u \<noteq> c"
    using \<open>u \<noteq> []\<close> hd_dropWhile [of "\<lambda>x. x = c" "rev t"] by (simp add: u_def)
  have "hd t \<noteq> c"
    using t hd_dropWhile [of "\<lambda>x. x = c" s] by (simp add: t_def)
  have "suffix u (rev t)"
    by (simp add: u_def suffix_dropWhile)
  then have "last u = last (rev t)"
    using \<open>u \<noteq> []\<close> by (auto simp: suffix_def)
  then show ?thesis
    using \<open>u \<noteq> []\<close> \<open>hd u \<noteq> c\<close> \<open>hd t \<noteq> c\<close> t by (simp add: tr hd_rev last_rev)
qed simp

lemma digits_value_zeros [simp]: "digits_value (replicate k CHR ''0'' @ s) = digits_value s"
  by (induction k) (simp_all add: digits_value_def)

lemma pad_nat_digits: "list_all is_digit (pad_nat w n)" "pad_nat w n \<noteq> []"
proof -
  have "is_digit CHR ''0''"
    by (simp add: is_digit_def less_eq_char_def)
  then show "list_all is_digit (pad_nat w n)"
    using show_nat_digits [of n] by (auto simp: pad_nat_def Let_def list_all_iff)
qed (simp add: pad_nat_def Let_def)

lemma digits_value_pad_nat [simp]: "digits_value (pad_nat w n) = n"
  by (simp add: pad_nat_def Let_def)

lemma hd_digits: "\<lbrakk>list_all is_digit s; s \<noteq> []\<rbrakk> \<Longrightarrow> is_digit (hd s) \<and> is_digit (last s)"
  by (cases s) (auto simp: list_all_iff)

lemma digit_not_slash [simp]: "is_digit c \<Longrightarrow> c \<noteq> CHR ''/''" "is_digit c \<Longrightarrow> c \<noteq> CHR ''.''" "is_digit c \<Longrightarrow> c \<noteq> CHR ''m''"
  by (auto simp: is_digit_def less_eq_char_def)

lemma parse_unsigned_pad_nat: "n \<le> hi \<Longrightarrow> parse_unsigned hi (pad_nat w n) = Some n"
proof -
  assume "n \<le> hi"
  moreover have "hd (pad_nat w n) \<noteq> CHR ''+''"
    using hd_digits [OF pad_nat_digits, of w n] not_digit_signs by metis
  ultimately show ?thesis
    using pad_nat_digits [of w n] by (simp add: parse_unsigned_def parse_digits_def)
qed

lemma parse_unsigned_le: "parse_unsigned hi s = Some n \<Longrightarrow> n \<le> hi"
  by (auto simp: parse_unsigned_def split: option.splits if_splits)

lemma parse_folder_name_iff: "parse_folder_name f = Some n \<longleftrightarrow> 0 < n \<and> n \<le> u32_max \<and> f = pad_nat 3 n"
  using parse_unsigned_le [of u32_max f] parse_unsigned_pad_nat [of n u32_max 3]
  by (auto simp: parse_folder_name_def split: option.splits if_splits)

lemma pad_nat_inj: "pad_nat w m = pad_nat w n \<Longrightarrow> m = n"
  using digits_value_pad_nat by metis

lemma split_on_no: "c \<notin> set s \<Longrightarrow> split_on c s = [s]"
  by (induction s) auto

lemma split_on_append: "c \<notin> set s \<Longrightarrow> split_on c (s @ c # t) = s # split_on c t"
  by (induction s) auto

lemma split_on_nonempty [simp]: "split_on c s \<noteq> []"
  by (induction s) (auto split: list.splits)

lemma pad_nat_no_slash: "CHR ''/'' \<notin> set (pad_nat w n)"
  using pad_nat_digits [of w n] digit_not_slash(1) unfolding list_all_iff by blast

lemma segment_folder_number_bounds: "0 < segment_folder_number b" "b \<le> i32_max \<Longrightarrow> segment_folder_number b \<le> u32_max"
  by (auto simp: segment_folder_number_def SEGMENTS_PER_FOLDER_def int_ranges)

lemma folder_of_segment_path:
  assumes "CHR ''/'' \<notin> set token" "b \<le> i32_max"
  shows "folder_from_segment_relative_path (segment_relative_object_path b token) = Some (pad_nat 3 (segment_folder_number b))"
proof -
  let ?file = "''segment-'' @ pad_nat 4 (nat (max b 0)) @ ''-'' @ token @ ''.parquet''"
  have path: "segment_relative_object_path b token = pad_nat 3 (segment_folder_number b) @ CHR ''/'' # ?file"
    by (simp add: segment_relative_object_path_def)
  have "split_on CHR ''/'' (segment_relative_object_path b token) = [pad_nat 3 (segment_folder_number b), ?file]"
    unfolding path split_on_append [OF pad_nat_no_slash] using assms(1) pad_nat_no_slash [of 4 "nat (max b 0)"]
    by (subst split_on_no) simp_all
  moreover have "parse_folder_name (pad_nat 3 (segment_folder_number b)) = Some (segment_folder_number b)"
    using segment_folder_number_bounds assms(2) by (simp add: parse_folder_name_iff)
  ultimately show ?thesis
    by (simp add: folder_from_segment_relative_path_def)
qed

lemma folder_is_number: "folder_from_segment_relative_path p = Some f \<Longrightarrow> \<exists>n. parse_folder_name f = Some n"
  by (auto simp: folder_from_segment_relative_path_def Let_def split: list.splits if_splits)

text \<open>Percent-encoding is injective and leaves no slash, so tables never share a key prefix.\<close>

lemma hex_of_inj:
  assumes "distinct D" "length D = 16" "hex_of D a = hex_of D b"
  shows "a = b"
proof -
  have "unat x div 16 < 16" "unat x mod 16 < 16" for x :: u8
    using unsigned_less [of x, where ?'a = nat] by simp_all
  then have "unat a div 16 = unat b div 16" "unat a mod 16 = unat b mod 16"
    using assms by (auto simp: hex_of_def nibble_def nth_eq_iff_index_eq)
  then have "unat a = unat b"
    by (metis div_mult_mod_eq)
  then show ?thesis
    by (simp add: word_unat_eq_iff)
qed


lemma percent_not_plain: "\<not> is_ascii_alphanumeric CHR ''%''" "\<not> is_ascii_alphanumeric CHR ''/''"
  by (simp_all add: is_ascii_alphanumeric_def)

lemma encode_char_prefix_free:
  assumes "encode_char c @ s = encode_char d @ t"
  shows "c = d \<and> s = t"
proof (cases "is_ascii_alphanumeric c \<or> c = CHR ''_'' \<or> c = CHR ''-''")
  case True
  then show ?thesis
    using assms percent_not_plain by (auto simp: encode_char_def split: if_splits)
next
  case False
  then have nd: "\<not> (is_ascii_alphanumeric d \<or> d = CHR ''_'' \<or> d = CHR ''-'')"
    using assms percent_not_plain by (auto simp: encode_char_def split: if_splits)
  then have "hex_of ''0123456789ABCDEF'' (byte_of c) = hex_of ''0123456789ABCDEF'' (byte_of d) \<and> s = t"
    using assms False by (simp add: encode_char_def hex_of_def)
  then show ?thesis
    using hex_of_inj [of "''0123456789ABCDEF''" "byte_of c" "byte_of d"] by simp
qed

lemma encode_char_nonempty [simp]: "encode_char c \<noteq> []"
  by (simp add: encode_char_def)

lemma encode_path_segment_inj: "encode_path_segment s = encode_path_segment t \<Longrightarrow> s = t"
proof (induction s arbitrary: t)
  case Nil
  then show ?case
    by (cases t) (simp_all add: encode_path_segment_def)
next
  case (Cons c s)
  then obtain d u where "t = d # u"
    by (cases t) (simp_all add: encode_path_segment_def)
  have "encode_char c @ encode_path_segment s = encode_char d @ encode_path_segment u"
    using Cons.prems unfolding \<open>t = d # u\<close> encode_path_segment_def by simp
  from encode_char_prefix_free [OF this] Cons.IH [of u] show ?case
    unfolding \<open>t = d # u\<close> by blast
qed

lemma encode_path_segment_no_slash: "CHR ''/'' \<notin> set (encode_path_segment s)"
proof -
  have nib: "nibble ''0123456789ABCDEF'' n \<noteq> CHR ''/''" if "n < 16" for n
  proof -
    have "''0123456789ABCDEF'' ! n \<in> set ''0123456789ABCDEF''"
      by (rule nth_mem) (use that in simp)
    moreover have "CHR ''/'' \<notin> set ''0123456789ABCDEF''"
      by simp
    ultimately show ?thesis
      unfolding nibble_def by metis
  qed
  have "unat x div 16 < 16" "unat x mod 16 < 16" for x :: u8
    using unsigned_less [of x, where ?'a = nat] by simp_all
  then have "CHR ''/'' \<notin> set (hex_of ''0123456789ABCDEF'' b)" for b
    using nib unfolding hex_of_def by (metis (no_types) empty_iff empty_set set_ConsD)
  then have "CHR ''/'' \<notin> set (encode_char c)" for c
    using percent_not_plain(2) by (cases "c = CHR ''/''") (simp_all add: encode_char_def)
  then show ?thesis
    by (simp add: encode_path_segment_def)
qed

lemma table_object_prefix_inj:
  "table_object_prefix n t = table_object_prefix n' t' \<Longrightarrow> n = n' \<and> t = t'"
proof -
  assume "table_object_prefix n t = table_object_prefix n' t'"
  then have "split_on CHR ''/'' (table_object_prefix n t) = split_on CHR ''/'' (table_object_prefix n' t')"
    by simp
  then have "encode_path_segment n = encode_path_segment n' \<and> encode_path_segment t = encode_path_segment t'"
    by (simp add: table_object_prefix_def split_on_append split_on_no encode_path_segment_no_slash)
  then show ?thesis
    using encode_path_segment_inj by blast
qed

end
