(* ===== verification/Manifest.thy ===== *)
theory Manifest
  imports Object_Keys
begin

text \<open>
  The manifest of \<open>koldstore-manifest\<close>: the document model (\<open>model/mod.rs\<close>), creation and appending
  (\<open>lifecycle/\<close>), assembly from catalog rows (\<open>assembly.rs\<close>) and the folder shards (\<open>shards.rs\<close>).
  Time stamps are their text, an \<open>f64\<close> is its bit pattern, an error message is a constructor of
  \<open>manifest_error\<close> with the values it prints.  JSON printing, the SHA-256 digest, \<open>hex::decode\<close> and
  \<open>chrono\<close>'s parser are parameters.
\<close>

subsection \<open>Documents\<close>

definition MANIFEST_VERSION :: nat where "MANIFEST_VERSION = 2"
definition MANIFEST_SHARD_VERSION :: nat where "MANIFEST_SHARD_VERSION = 2"

record ManifestShardRef =
  ref_folder :: string
  ref_path :: string
  ref_content_sha256 :: string
  ref_segment_count :: nat
  ref_min_seq :: int
  ref_max_seq :: int

record PublishState =
  pub_generation :: "string option"
  pub_etag :: "string option"
  pub_backend :: "string option"
  pub_writer_id :: "string option"

datatype SegmentStatus = Committed | Pending | Active | Compacted | Deleted

record PkFilter =
  pkf_kind :: string
  pkf_column_ids :: "int list"
  pkf_false_positive_rate :: "u64 option"

definition pk_filter_exact :: "int list \<Rightarrow> PkFilter" where
  "pk_filter_exact column_ids = \<lparr>pkf_kind = ''exact'', pkf_column_ids = column_ids, pkf_false_positive_rate = None\<rparr>"

record ManifestBloomFilter =
  bloom_kind :: string
  bloom_column_ids :: "int list"
  bloom_false_positive_rate :: "u64 option"

definition bloom_filter :: "int list \<Rightarrow> u64 option \<Rightarrow> ManifestBloomFilter" where
  "bloom_filter column_ids rate = \<lparr>bloom_kind = ''bloom'', bloom_column_ids = column_ids, bloom_false_positive_rate = rate\<rparr>"

record CatalogSegmentIndexBound =
  ib_column_id :: int
  ib_type_oid :: nat
  ib_codec_version :: int
  ib_min_value :: "string option"
  ib_max_value :: "string option"
  ib_row_group_min_values :: "string option list"
  ib_row_group_max_values :: "string option list"
  ib_row_group_null_counts :: "int option list"

record ManifestSegment =
  ms_segment_id :: "string option"
  ms_batch :: nat
  ms_path :: string
  ms_temp_path :: "string option"
  ms_min_seq :: int
  ms_max_seq :: int
  ms_row_count :: nat
  ms_byte_size :: nat
  ms_schema_version :: nat
  ms_row_group_count :: nat
  ms_row_group_row_counts :: "int list"
  ms_row_group_min_seqs :: "int list"
  ms_row_group_max_seqs :: "int list"
  ms_pk_filter :: "PkFilter option"
  ms_column_indexes :: "CatalogSegmentIndexBound list"
  ms_bloom_filters :: "ManifestBloomFilter list"
  ms_status :: SegmentStatus
  ms_checksum :: "string option"
  ms_etag :: "string option"
  ms_created_at :: "string option"

record ManifestShard =
  sh_version :: nat
  sh_folder :: string
  sh_table :: string
  sh_namespace :: "string option"
  sh_schema_version :: nat
  sh_segments :: "ManifestSegment list"

record FilesState =
  fs_current_subfolder :: string
  fs_subfolder_count :: nat
  fs_max_files_per_subfolder :: nat
  fs_total_files :: "nat option"

definition files_default :: FilesState where
  "files_default = \<lparr>fs_current_subfolder = ''001'', fs_subfolder_count = 0,
     fs_max_files_per_subfolder = SEGMENTS_PER_FOLDER, fs_total_files = Some 0\<rparr>"

record Manifest =
  m_version :: nat
  m_table :: string
  m_namespace :: "string option"
  m_scope_id :: "string option"
  m_schema_version :: nat
  m_max_seq :: int
  m_updated_at :: string
  m_publish :: "PublishState option"
  m_shards :: "ManifestShardRef list"
  m_segments :: "ManifestSegment list"
  m_files :: FilesState

record ManifestBatchAppend =
  appended_segments :: nat
  manifest_writes_required :: nat

subsection \<open>Creation and appending\<close>

text \<open>\<open>Utc::now()\<close> is the argument \<open>now\<close>.\<close>

definition manifest_new :: "string \<Rightarrow> string \<Rightarrow> string \<Rightarrow> string option \<Rightarrow> nat \<Rightarrow> Manifest" where
  "manifest_new now namespace table scope_id schema_version =
     \<lparr>m_version = MANIFEST_VERSION, m_table = table, m_namespace = Some namespace, m_scope_id = scope_id,
      m_schema_version = schema_version, m_max_seq = 0, m_updated_at = now, m_publish = None, m_shards = [],
      m_segments = [], m_files = files_default\<rparr>"

definition new_shared :: "string \<Rightarrow> string \<Rightarrow> string \<Rightarrow> nat \<Rightarrow> Manifest" where
  "new_shared now namespace table schema_version = manifest_new now namespace table None schema_version"

definition new_user :: "string \<Rightarrow> string \<Rightarrow> string \<Rightarrow> string \<Rightarrow> nat \<Rightarrow> Manifest" where
  "new_user now namespace table scope_id schema_version = manifest_new now namespace table (Some scope_id) schema_version"

fun append_loop :: "ManifestSegment list \<Rightarrow> Manifest \<times> nat \<Rightarrow> Manifest \<times> nat" where
  "append_loop [] mn = mn"
| "append_loop (s # ss) (m, n) =
     (let m1 = (if ms_status s \<noteq> Deleted then m\<lparr>m_max_seq := max (m_max_seq m) (ms_max_seq s)\<rparr> else m) in
      append_loop ss (m1\<lparr>m_segments := m_segments m1 @ [s]\<rparr>, n + 1))"

definition append_segment_batch :: "string \<Rightarrow> ManifestSegment list \<Rightarrow> Manifest \<Rightarrow> Manifest \<times> ManifestBatchAppend" where
  "append_segment_batch now segments m =
     (let (m1, n) = append_loop segments (m, 0) in
      (if 0 < n then m1\<lparr>m_updated_at := now\<rparr> else m1,
       \<lparr>appended_segments = n, manifest_writes_required = (if 0 < n then 1 else 0)\<rparr>))"

definition append_segment :: "string \<Rightarrow> ManifestSegment \<Rightarrow> Manifest \<Rightarrow> Manifest" where
  "append_segment now segment m = fst (append_segment_batch now [segment] m)"

definition segment_committed :: "string \<Rightarrow> nat \<Rightarrow> string \<Rightarrow> int \<Rightarrow> int \<Rightarrow> nat \<Rightarrow> nat \<Rightarrow> nat \<Rightarrow> ManifestSegment" where
  "segment_committed now batch path min_seq max_seq row_count byte_size schema_version =
     \<lparr>ms_segment_id = None, ms_batch = batch, ms_path = path, ms_temp_path = None, ms_min_seq = min_seq,
      ms_max_seq = max_seq, ms_row_count = row_count, ms_byte_size = byte_size, ms_schema_version = schema_version,
      ms_row_group_count = 1,
      ms_row_group_row_counts = [if int row_count \<le> i64_max then int row_count else i64_max],
      ms_row_group_min_seqs = [min_seq], ms_row_group_max_seqs = [max_seq], ms_pk_filter = None,
      ms_column_indexes = [], ms_bloom_filters = [], ms_status = Committed, ms_checksum = None, ms_etag = None,
      ms_created_at = Some now\<rparr>"

subsection \<open>Assembly from catalog rows\<close>

record CatalogManifestSegmentRow =
  cr_segment_id :: string
  cr_path :: string
  cr_batch_number :: int
  cr_min_seq :: int
  cr_max_seq :: int
  cr_row_count :: int
  cr_byte_size :: int
  cr_schema_version :: int
  cr_row_group_count :: int
  cr_row_group_row_counts :: "int list"
  cr_row_group_min_seqs :: "int list"
  cr_row_group_max_seqs :: "int list"
  cr_status :: string
  cr_checksum :: string
  cr_object_etag :: "string option"
  cr_created_at :: "string option"
  cr_index_bounds :: "CatalogSegmentIndexBound list"

datatype ManifestAssemblyError =
    Out_of_range int
  | Malformed_row_groups string
  | Malformed_index string int
  | Unsupported_status string
  | Invalid_timestamp string

definition try_from_int :: "nat \<Rightarrow> int \<Rightarrow> ManifestAssemblyError + nat" where
  "try_from_int hi i = (if 0 \<le> i \<and> i \<le> int hi then Inr (nat i) else Inl (Out_of_range i))"

definition index_arrays_ok :: "nat \<Rightarrow> CatalogSegmentIndexBound \<Rightarrow> bool" where
  "index_arrays_ok n index \<longleftrightarrow> length (ib_row_group_min_values index) = n
     \<and> length (ib_row_group_max_values index) = n \<and> length (ib_row_group_null_counts index) = n"

definition status_of_text :: "string \<Rightarrow> ManifestAssemblyError + SegmentStatus" where
  "status_of_text s =
     (if s = ''pending'' then Inr Pending
      else if s = ''active'' then Inr Active
      else if s = ''compacted'' then Inr Compacted
      else if s = ''deleted'' then Inr Deleted
      else Inl (Unsupported_status s))"

text \<open>The bit pattern of the \<open>f64\<close> 0.01.\<close>

definition bloom_rate :: u64 where "bloom_rate = 0x3F847AE147AE147B"

definition build_manifest_segment_from_catalog_row ::
    "(string \<Rightarrow> string + string) \<Rightarrow> string \<Rightarrow> int list \<Rightarrow> CatalogManifestSegmentRow
      \<Rightarrow> ManifestAssemblyError + ManifestSegment" where
  "build_manifest_segment_from_catalog_row parse_rfc3339 now primary_key_columns row =
     res_bind (try_from_int u64_max (cr_row_group_count row)) (\<lambda>row_group_count.
     if row_group_count = 0 \<or> length (cr_row_group_row_counts row) \<noteq> row_group_count
        \<or> length (cr_row_group_min_seqs row) \<noteq> row_group_count \<or> length (cr_row_group_max_seqs row) \<noteq> row_group_count
     then Inl (Malformed_row_groups (cr_segment_id row))
     else (case find (\<lambda>index. \<not> index_arrays_ok row_group_count index) (cr_index_bounds row) of
       Some index \<Rightarrow> Inl (Malformed_index (cr_segment_id row) (ib_column_id index))
     | None \<Rightarrow>
     res_bind (try_from_int u32_max (cr_batch_number row)) (\<lambda>batch.
     res_bind (try_from_int u64_max (cr_row_count row)) (\<lambda>row_count.
     res_bind (try_from_int u64_max (cr_byte_size row)) (\<lambda>byte_size.
     res_bind (try_from_int u32_max (cr_schema_version row)) (\<lambda>schema_version.
     res_bind (try_from_int u32_max (int row_group_count)) (\<lambda>groups.
     res_bind (status_of_text (cr_status row)) (\<lambda>status.
     res_bind (case cr_created_at row of None \<Rightarrow> Inr None
               | Some value \<Rightarrow> (case parse_rfc3339 value of Inl e \<Rightarrow> Inl (Invalid_timestamp e) | Inr t \<Rightarrow> Inr (Some t)))
       (\<lambda>created_at.
     let segment = (segment_committed now batch (cr_path row) (cr_min_seq row) (cr_max_seq row) row_count byte_size
           schema_version)
         \<lparr>ms_segment_id := Some (cr_segment_id row), ms_row_group_count := groups,
          ms_row_group_row_counts := cr_row_group_row_counts row, ms_row_group_min_seqs := cr_row_group_min_seqs row,
          ms_row_group_max_seqs := cr_row_group_max_seqs row, ms_column_indexes := cr_index_bounds row,
          ms_status := status, ms_checksum := Some (cr_checksum row), ms_etag := cr_object_etag row,
          ms_created_at := created_at\<rparr> in
     Inr (if primary_key_columns \<noteq> [] then
         segment\<lparr>ms_bloom_filters := ms_bloom_filters segment @ [bloom_filter primary_key_columns (Some bloom_rate)],
           ms_pk_filter := Some (pk_filter_exact primary_key_columns)\<rparr>
       else segment))))))))))"

definition manifest_from_catalog_rows ::
    "(string \<Rightarrow> string + string) \<Rightarrow> string \<Rightarrow> string \<Rightarrow> string \<Rightarrow> nat \<Rightarrow> int list
      \<Rightarrow> CatalogManifestSegmentRow list \<Rightarrow> ManifestAssemblyError + Manifest" where
  "manifest_from_catalog_rows parse_rfc3339 now namespace table_name schema_version primary_key_columns rows =
     res_bind (res_list (build_manifest_segment_from_catalog_row parse_rfc3339 now primary_key_columns) rows) (\<lambda>segments.
     Inr (fst (append_segment_batch now segments (new_shared now namespace table_name schema_version))))"

subsection \<open>Appending and assembly\<close>

lemma append_loop_result:
  "append_loop ss (m, n) = (m\<lparr>m_segments := m_segments m @ ss,
      m_max_seq := fold max (map ms_max_seq (filter (\<lambda>s. ms_status s \<noteq> Deleted) ss)) (m_max_seq m)\<rparr>, n + length ss)"
  by (induction ss arbitrary: m n) (simp_all add: Let_def max.commute)

lemma append_segment_batch_result:
  "fst (append_segment_batch now ss m) =
     m\<lparr>m_segments := m_segments m @ ss,
      m_max_seq := fold max (map ms_max_seq (filter (\<lambda>s. ms_status s \<noteq> Deleted) ss)) (m_max_seq m),
      m_updated_at := (if ss = [] then m_updated_at m else now)\<rparr>"
  "snd (append_segment_batch now ss m) =
     \<lparr>appended_segments = length ss, manifest_writes_required = (if ss = [] then 0 else 1)\<rparr>"
  by (simp_all add: append_segment_batch_def append_loop_result)

lemma fold_max: "fold max xs (a :: 'a :: linorder) = Max (set (a # xs))"
  by (simp only: Max.set_eq_fold)

end
