(* ===== verification/Manifest_Shards.thy ===== *)
theory Manifest_Shards
  imports Manifest
begin

text \<open>
  The folder shards of a manifest (\<open>koldstore-manifest/src/shards.rs\<close>): validation of the packed segment
  metadata, splitting a manifest into a thin root and one shard per folder, and merging them back.  The
  lemmas show that grouping by folder is a stable sort of the segments and that merging inverts splitting.
\<close>

subsection \<open>Validation of packed segment metadata\<close>

datatype manifest_error =
    Row_group_cardinality string
  | Non_positive_row_count string
  | Row_count_overflow string
  | Row_count_mismatch string
  | Invalid_seq_bounds string
  | Index_cardinality string int
  | Unpaired_segment_bounds string int
  | Invalid_hex_bound string int string
  | Reversed_segment_bounds string int
  | Unpaired_group_bounds string int nat
  | Invalid_null_count string int nat
  | Reversed_group_bounds string int nat
  | Bounds_for_all_null string int nat
  | Invalid_segment_path string
  | Invalid_segment_folder string
  | Batch_too_large nat
  | Wrong_folder nat nat string
  | Too_many_segments nat
  | Json_error string
  | Unsupported_root_version nat
  | Root_embeds_segments
  | Shard_list_mismatch nat nat
  | Capacity_exceeded
  | Shard_path_mismatch string string
  | Unsupported_shard_version nat
  | Shard_folder_mismatch string string
  | Table_metadata_mismatch string
  | Segment_count_mismatch string nat nat
  | Segment_outside_shard string string
  | Range_mismatch string

fun res_all :: "('a \<Rightarrow> 'e + unit) \<Rightarrow> 'a list \<Rightarrow> 'e + unit" where
  "res_all f [] = Inr ()"
| "res_all f (x # xs) = res_bind (f x) (\<lambda>u. res_all f xs)"

definition require :: "bool \<Rightarrow> 'e \<Rightarrow> 'e + unit" where
  "require b e = (if b then Inr () else Inl e)"

fun checked_sum :: "int list \<Rightarrow> int \<Rightarrow> int option" where
  "checked_sum [] acc = Some acc"
| "checked_sum (x # xs) acc = (if in_i64 (acc + x) then checked_sum xs (acc + x) else None)"

definition validate_hex_bound :: "(string \<Rightarrow> string + bytes) \<Rightarrow> string \<Rightarrow> string \<Rightarrow> int \<Rightarrow> manifest_error + unit" where
  "validate_hex_bound hex_decode value path column_id =
     (case hex_decode value of Inl e \<Rightarrow> Inl (Invalid_hex_bound path column_id e) | Inr bs \<Rightarrow> Inr ())"

definition validate_row_group ::
    "(string \<Rightarrow> string + bytes) \<Rightarrow> ManifestSegment \<Rightarrow> CatalogSegmentIndexBound \<Rightarrow> nat \<Rightarrow> manifest_error + unit" where
  "validate_row_group hex_decode segment index row_group_id =
     (let lower = ib_row_group_min_values index ! row_group_id; upper = ib_row_group_max_values index ! row_group_id;
          null_count = ib_row_group_null_counts index ! row_group_id;
          row_count = ms_row_group_row_counts segment ! row_group_id;
          path = ms_path segment; column = ib_column_id index in
      res_bind (require ((lower \<noteq> None) = (upper \<noteq> None)) (Unpaired_group_bounds path column row_group_id)) (\<lambda>u.
      res_bind (require (case null_count of None \<Rightarrow> True | Some nulls \<Rightarrow> \<not> (nulls < 0 \<or> nulls > row_count))
        (Invalid_null_count path column row_group_id)) (\<lambda>u.
      case (lower, upper) of
        (Some lower, Some upper) \<Rightarrow>
          res_bind (validate_hex_bound hex_decode lower path column) (\<lambda>u.
          res_bind (validate_hex_bound hex_decode upper path column) (\<lambda>u.
          res_bind (require (\<not> lower > upper) (Reversed_group_bounds path column row_group_id)) (\<lambda>u.
          require (null_count \<noteq> Some row_count) (Bounds_for_all_null path column row_group_id))))
      | _ \<Rightarrow> Inr ())))"

definition validate_column_index ::
    "(string \<Rightarrow> string + bytes) \<Rightarrow> ManifestSegment \<Rightarrow> CatalogSegmentIndexBound \<Rightarrow> manifest_error + unit" where
  "validate_column_index hex_decode segment index =
     (let path = ms_path segment; column = ib_column_id index; n = ms_row_group_count segment in
      res_bind (require (index_arrays_ok n index) (Index_cardinality path column)) (\<lambda>u.
      res_bind (require ((ib_min_value index \<noteq> None) = (ib_max_value index \<noteq> None)) (Unpaired_segment_bounds path column)) (\<lambda>u.
      res_bind (case (ib_min_value index, ib_max_value index) of
          (Some lower, Some upper) \<Rightarrow>
            res_bind (validate_hex_bound hex_decode lower path column) (\<lambda>u.
            res_bind (validate_hex_bound hex_decode upper path column) (\<lambda>u.
            require (\<not> lower > upper) (Reversed_segment_bounds path column)))
        | _ \<Rightarrow> Inr ()) (\<lambda>u.
      res_all (validate_row_group hex_decode segment index) [0..<n]))))"

definition validate_packed_segment_metadata ::
    "(string \<Rightarrow> string + bytes) \<Rightarrow> ManifestSegment \<Rightarrow> manifest_error + unit" where
  "validate_packed_segment_metadata hex_decode segment =
     (let n = ms_row_group_count segment; path = ms_path segment; counts = ms_row_group_row_counts segment in
      res_bind (require (\<not> (n = 0 \<or> length counts \<noteq> n \<or> length (ms_row_group_min_seqs segment) \<noteq> n
        \<or> length (ms_row_group_max_seqs segment) \<noteq> n)) (Row_group_cardinality path)) (\<lambda>u.
      res_bind (require (\<not> list_ex (\<lambda>row_count. row_count \<le> 0) counts) (Non_positive_row_count path)) (\<lambda>u.
      res_bind (ok_or (Row_count_overflow path) (checked_sum counts 0)) (\<lambda>row_count.
      res_bind (require (0 \<le> row_count \<and> nat row_count = ms_row_count segment) (Row_count_mismatch path)) (\<lambda>u.
      res_bind (require (\<not> list_ex (\<lambda>(min_seq, max_seq). min_seq \<le> 0 \<or> min_seq > max_seq)
        (zip (ms_row_group_min_seqs segment) (ms_row_group_max_seqs segment))) (Invalid_seq_bounds path)) (\<lambda>u.
      res_all (validate_column_index hex_decode segment) (ms_column_indexes segment)))))))"

definition validated_segment_folder ::
    "(string \<Rightarrow> string + bytes) \<Rightarrow> ManifestSegment \<Rightarrow> manifest_error + string" where
  "validated_segment_folder hex_decode segment =
     res_bind (validate_packed_segment_metadata hex_decode segment) (\<lambda>u.
     res_bind (ok_or (Invalid_segment_path (ms_path segment)) (folder_from_segment_relative_path (ms_path segment))) (\<lambda>folder.
     res_bind (ok_or (Invalid_segment_folder folder) (parse_folder_name folder)) (\<lambda>folder_number.
     res_bind (require (int (ms_batch segment) \<le> i32_max) (Batch_too_large (ms_batch segment))) (\<lambda>u.
     let expected_folder = segment_folder_number (int (ms_batch segment)) in
     res_bind (require (expected_folder = folder_number) (Wrong_folder (ms_batch segment) expected_folder folder)) (\<lambda>u.
     Inr folder)))))"

subsection \<open>Folder shards\<close>

text \<open>A \<open>BTreeMap\<close> of vectors: keys in byte order, \<open>entry(k).or_default().push(v)\<close>.\<close>

fun btree_push :: "string \<Rightarrow> 'a \<Rightarrow> (string \<times> 'a list) list \<Rightarrow> (string \<times> 'a list) list" where
  "btree_push k v [] = [(k, [v])]"
| "btree_push k v ((k', vs) # m) =
     (if k = k' then (k', vs @ [v]) # m
      else if k < k' then (k, [v]) # (k', vs) # m
      else (k', vs) # btree_push k v m)"

fun group_by_folder ::
    "(ManifestSegment \<Rightarrow> 'e + string) \<Rightarrow> ManifestSegment list \<Rightarrow> (string \<times> ManifestSegment list) list
      \<Rightarrow> 'e + (string \<times> ManifestSegment list) list" where
  "group_by_folder folder_of [] m = Inr m"
| "group_by_folder folder_of (s # ss) m = res_bind (folder_of s) (\<lambda>folder. group_by_folder folder_of ss (btree_push folder s m))"

definition min_or_zero :: "int list \<Rightarrow> int" where
  "min_or_zero xs = (if xs = [] then 0 else Min (set xs))"

definition max_or_zero :: "int list \<Rightarrow> int" where
  "max_or_zero xs = (if xs = [] then 0 else Max (set xs))"

definition shard_ranges :: "ManifestSegment list \<Rightarrow> int \<times> int" where
  "shard_ranges segments = (min_or_zero (map ms_min_seq segments), max_or_zero (map ms_max_seq segments))"

record ShardedManifestExport =
  exp_root :: Manifest
  exp_shards :: "(string \<times> ManifestShard) list"

text \<open>One round of the loop over the folders.\<close>

definition export_shard ::
    "(ManifestShard \<Rightarrow> string + bytes) \<Rightarrow> (bytes \<Rightarrow> bytes) \<Rightarrow> Manifest \<Rightarrow> string \<times> ManifestSegment list
      \<Rightarrow> manifest_error + nat \<times> ManifestShardRef \<times> string \<times> ManifestShard" where
  "export_shard to_vec sha256 manifest fs = (case fs of (folder, segments) \<Rightarrow>
     res_bind (ok_or (Invalid_segment_folder folder) (parse_folder_name folder)) (\<lambda>folder_num.
     let min_seq = min_or_zero (map ms_min_seq segments); max_seq = max_or_zero (map ms_max_seq segments) in
     res_bind (if length segments \<le> u32_max then Inr (length segments) else Inl (Too_many_segments (length segments)))
       (\<lambda>segment_count.
     let shard = \<lparr>sh_version = MANIFEST_SHARD_VERSION, sh_folder = folder, sh_table = m_table manifest,
           sh_namespace = m_namespace manifest, sh_schema_version = m_schema_version manifest,
           sh_segments = segments\<rparr> in
     res_bind (case to_vec shard of Inl e \<Rightarrow> Inl (Json_error e) | Inr bs \<Rightarrow> Inr bs) (\<lambda>shard_bytes.
     let content_sha256 = content_checksum_sha256_hex sha256 shard_bytes;
         path = relative_manifest_shard_content_path folder_num content_sha256 in
     Inr (folder_num,
       \<lparr>ref_folder = folder, ref_path = path, ref_content_sha256 = content_sha256, ref_segment_count = segment_count,
        ref_min_seq = min_seq, ref_max_seq = max_seq\<rparr>, path, shard)))))"

definition split_manifest_for_export ::
    "(string \<Rightarrow> string + bytes) \<Rightarrow> (ManifestShard \<Rightarrow> string + bytes) \<Rightarrow> (bytes \<Rightarrow> bytes) \<Rightarrow> Manifest
      \<Rightarrow> manifest_error + ShardedManifestExport" where
  "split_manifest_for_export hex_decode to_vec sha256 manifest =
     res_bind (group_by_folder (validated_segment_folder hex_decode) (m_segments manifest) []) (\<lambda>by_folder.
     res_bind (res_list (export_shard to_vec sha256 manifest) by_folder) (\<lambda>exported.
     let max_folder_num = fold max (map fst exported) 0;
         shard_refs = map (fst \<circ> snd) exported;
         total_files = (let n = length (m_segments manifest) in if n \<le> u64_max then n else u64_max);
         root = manifest\<lparr>m_version := MANIFEST_VERSION, m_shards := shard_refs, m_segments := [],
           m_files := \<lparr>fs_current_subfolder = (if max_folder_num = 0 then ''001'' else pad_nat 3 max_folder_num),
             fs_subfolder_count = (if length shard_refs \<le> u32_max then length shard_refs else u32_max),
             fs_max_files_per_subfolder = SEGMENTS_PER_FOLDER, fs_total_files = Some total_files\<rparr>\<rparr> in
     Inr \<lparr>exp_root = root, exp_shards = map (snd \<circ> snd) exported\<rparr>))"

definition validate_root :: "Manifest \<Rightarrow> nat \<Rightarrow> manifest_error + unit" where
  "validate_root root shard_count =
     res_bind (require (m_version root = MANIFEST_VERSION) (Unsupported_root_version (m_version root))) (\<lambda>u.
     res_bind (require (m_segments root = []) Root_embeds_segments) (\<lambda>u.
     require (length (m_shards root) = shard_count) (Shard_list_mismatch (length (m_shards root)) shard_count)))"

definition validate_shard_segments ::
    "(string \<Rightarrow> string + bytes) \<Rightarrow> ManifestShardRef \<Rightarrow> ManifestShard \<Rightarrow> manifest_error + unit" where
  "validate_shard_segments hex_decode shard_ref shard =
     (let actual_count = length (sh_segments shard) in
      res_bind (require (actual_count \<le> u32_max) (Too_many_segments actual_count)) (\<lambda>u.
      res_bind (require (actual_count = ref_segment_count shard_ref)
        (Segment_count_mismatch (ref_path shard_ref) (ref_segment_count shard_ref) actual_count)) (\<lambda>u.
      res_bind (res_all (\<lambda>segment. res_bind (validated_segment_folder hex_decode segment) (\<lambda>folder.
        require (folder = sh_folder shard) (Segment_outside_shard (ms_path segment) (sh_folder shard))))
        (sh_segments shard)) (\<lambda>u.
      require (shard_ranges (sh_segments shard) = (ref_min_seq shard_ref, ref_max_seq shard_ref))
        (Range_mismatch (ref_path shard_ref))))))"

definition validate_shard ::
    "(string \<Rightarrow> string + bytes) \<Rightarrow> Manifest \<Rightarrow> ManifestShardRef \<Rightarrow> ManifestShard \<Rightarrow> manifest_error + unit" where
  "validate_shard hex_decode root shard_ref shard =
     res_bind (ok_or (Invalid_segment_folder (ref_folder shard_ref)) (parse_folder_name (ref_folder shard_ref))) (\<lambda>folder_number.
     let expected_path = relative_manifest_shard_content_path folder_number (ref_content_sha256 shard_ref) in
     res_bind (require (ref_path shard_ref = expected_path)
       (Shard_path_mismatch (ref_path shard_ref) (ref_folder shard_ref))) (\<lambda>u.
     res_bind (require (sh_version shard = MANIFEST_SHARD_VERSION) (Unsupported_shard_version (sh_version shard))) (\<lambda>u.
     res_bind (require (sh_folder shard = ref_folder shard_ref)
       (Shard_folder_mismatch (ref_folder shard_ref) (sh_folder shard))) (\<lambda>u.
     res_bind (require (\<not> (sh_table shard \<noteq> m_table root \<or> sh_namespace shard \<noteq> m_namespace root
         \<or> sh_schema_version shard \<noteq> m_schema_version root))
       (Table_metadata_mismatch (ref_path shard_ref))) (\<lambda>u.
     validate_shard_segments hex_decode shard_ref shard)))))"

text \<open>The reserved capacity, \<open>usize\<close> being 64 bits wide.\<close>

fun shard_capacity :: "ManifestShardRef list \<Rightarrow> nat \<Rightarrow> nat option" where
  "shard_capacity [] acc = Some acc"
| "shard_capacity (r # rs) acc =
     (if acc + ref_segment_count r \<le> u64_max then shard_capacity rs (acc + ref_segment_count r) else None)"

fun merge_loop ::
    "(string \<Rightarrow> string + bytes) \<Rightarrow> Manifest \<Rightarrow> (ManifestShardRef \<times> ManifestShard) list \<Rightarrow> ManifestSegment list
      \<Rightarrow> manifest_error + ManifestSegment list" where
  "merge_loop hex_decode root [] segments = Inr segments"
| "merge_loop hex_decode root ((shard_ref, shard) # rest) segments =
     res_bind (validate_shard hex_decode root shard_ref shard) (\<lambda>u.
     merge_loop hex_decode root rest (segments @ sh_segments shard))"

definition merge_manifest_shards ::
    "(string \<Rightarrow> string + bytes) \<Rightarrow> Manifest \<Rightarrow> ManifestShard list \<Rightarrow> manifest_error + Manifest" where
  "merge_manifest_shards hex_decode root shards =
     res_bind (validate_root root (length shards)) (\<lambda>u.
     res_bind (ok_or Capacity_exceeded (shard_capacity (m_shards root) 0)) (\<lambda>capacity.
     res_bind (merge_loop hex_decode root (zip (m_shards root) shards) []) (\<lambda>segments.
     Inr (root\<lparr>m_segments := segments\<rparr>))))"

subsection \<open>Grouping by folder is a stable sort\<close>

lemma res_all_Inr [res_simps]: "res_all f xs = Inr u \<longleftrightarrow> (\<forall>x\<in>set xs. f x = Inr ())"
  by (induction xs) (auto simp: res_bind_Inr)

lemma require_Inr [res_simps]: "require b e = Inr u \<longleftrightarrow> b" "require b e = Inl d \<longleftrightarrow> \<not> b \<and> d = e"
  by (auto simp: require_def)

lemma group_by_folder_ok:
  "(\<forall>s\<in>set ss. folder_of s = Inr (h s)) \<Longrightarrow> group_by_folder folder_of ss m = Inr (fold (\<lambda>s. btree_push (h s) s) ss m)"
  by (induction ss arbitrary: m) auto

lemma group_by_folder_Inr: "group_by_folder folder_of ss m = Inr g \<Longrightarrow> s \<in> set ss \<Longrightarrow> \<exists>f. folder_of s = Inr f"
  by (induction ss arbitrary: m) (auto simp: res_bind_Inr)

definition grouped :: "('a \<Rightarrow> string) \<Rightarrow> 'a list \<Rightarrow> (string \<times> 'a list) list \<Rightarrow> bool" where
  "grouped h ss g \<longleftrightarrow> sorted_wrt (<) (map fst g) \<and> fst ` set g = h ` set ss
     \<and> (\<forall>(k, vs)\<in>set g. vs = filter (\<lambda>s. h s = k) ss)"

lemma btree_push_keys: "fst ` set (btree_push k v m) = insert k (fst ` set m)"
  by (induction k v m rule: btree_push.induct) auto

lemma btree_push_sorted: "sorted_wrt (<) (map fst m) \<Longrightarrow> sorted_wrt (<) (map fst (btree_push k v m))"
proof (induction k v m rule: btree_push.induct)
  case (2 k v k' vs m)
  have keys: "set (map fst (btree_push k v m)) = insert k (fst ` set m)"
    using btree_push_keys [of k v m] by simp
  show ?case
    using 2 keys by (auto simp: not_less)
qed simp

lemma btree_push_entries:
  assumes "sorted_wrt (<) (map fst m)"
  shows "(k', vs) \<in> set (btree_push k v m) \<longleftrightarrow>
    (if k' = k then (case map_of m k of None \<Rightarrow> vs = [v] | Some ws \<Rightarrow> vs = ws @ [v]) else (k', vs) \<in> set m)"
  using assms
proof (induction k v m rule: btree_push.induct)
  case (2 k v j ws m)
  have "map_of m k = None" if "k < j"
    using 2(2) that by (auto simp: map_of_eq_None_iff)
  moreover have "(j, us) \<notin> set m" for us
    using 2(2) by force
  ultimately show ?case
    using 2 by (auto split: option.splits)
qed auto

lemma grouped_push:
  assumes "grouped h ss g"
  shows "grouped h (ss @ [s]) (btree_push (h s) s g)"
proof -
  have sorted: "sorted_wrt (<) (map fst g)" and keys: "fst ` set g = h ` set ss"
    and vals: "\<And>k vs. (k, vs) \<in> set g \<Longrightarrow> vs = filter (\<lambda>s. h s = k) ss"
    using assms by (auto simp: grouped_def)
  have "vs = filter (\<lambda>x. h x = k) (ss @ [s])" if "(k, vs) \<in> set (btree_push (h s) s g)" for k vs
  proof (cases "map_of g (h s)")
    case None
    then have "h s \<notin> h ` set ss"
      using keys by (simp add: map_of_eq_None_iff)
    then have "filter (\<lambda>x. h x = h s) ss = []"
      unfolding filter_empty_conv image_iff by metis
    then show ?thesis
      using that None vals [of k vs] by (auto simp: btree_push_entries [OF sorted] split: if_splits)
  next
    case (Some ws)
    then show ?thesis
      using that vals [of k vs] vals [OF map_of_SomeD [OF Some]]
      by (auto simp: btree_push_entries [OF sorted] split: if_splits)
  qed
  then show ?thesis
    using btree_push_sorted [OF sorted] btree_push_keys [of "h s" s g] keys by (auto simp: grouped_def)
qed

lemma grouped_fold: "grouped h ss (fold (\<lambda>s. btree_push (h s) s) ss [])"
proof (induction ss rule: rev_induct)
  case Nil
  show ?case
    by (simp add: grouped_def)
qed (simp add: grouped_push)

lemma grouped_filter:
  fixes h :: "'a \<Rightarrow> string"
  assumes "sorted_wrt (<) (map fst g)" "\<forall>(k, vs)\<in>set g. \<forall>v\<in>set vs. h v = k"
  shows "filter (\<lambda>s. h s = k) (concat (map snd g)) = (case map_of g k of None \<Rightarrow> [] | Some vs \<Rightarrow> vs)"
  using assms
proof (induction g)
  case (Cons e g)
  obtain j vs where e: "e = (j, vs)"
    by (cases e)
  have "filter (\<lambda>s. h s = k) vs = (if k = j then vs else [])"
    using Cons.prems(2) by (auto simp: e filter_empty_conv intro: filter_True)
  moreover have "map_of g j = None"
    using Cons.prems(1) by (auto simp: e map_of_eq_None_iff)
  ultimately show ?case
    using Cons by (auto simp: e)
qed simp

lemma sorted_concat_groups:
  fixes h :: "'a \<Rightarrow> string"
  assumes "sorted_wrt (<) (map fst g)" "\<forall>(k, vs)\<in>set g. \<forall>v\<in>set vs. h v = k"
  shows "sorted (map h (concat (map snd g)))"
  using assms
proof (induction g)
  case (Cons e g)
  obtain j vs where e: "e = (j, vs)"
    by (cases e)
  have vs: "map h vs = replicate (length vs) j"
    using Cons.prems(2) by (auto simp: e intro: replicate_eqI)
  have "\<forall>x\<in>set (map h (concat (map snd g))). j \<le> x"
    using Cons.prems by (fastforce simp: e less_imp_le)
  then show ?case
    using Cons vs by (auto simp: e sorted_append)
qed simp

lemma grouped_concat:
  assumes "grouped h ss g"
  shows "concat (map snd g) = sort_key h ss"
proof -
  have sorted: "sorted_wrt (<) (map fst g)" and keys: "fst ` set g = h ` set ss"
    and vals: "\<And>k vs. (k, vs) \<in> set g \<Longrightarrow> vs = filter (\<lambda>s. h s = k) ss"
    using assms by (auto simp: grouped_def)
  then have hk: "\<forall>(k, vs)\<in>set g. \<forall>v\<in>set vs. h v = k"
    by fastforce
  let ?ys = "concat (map snd g)"
  have flt: "filter (\<lambda>s. h s = k) ?ys = filter (\<lambda>s. h s = k) ss" for k
  proof (cases "map_of g k")
    case None
    then have "k \<notin> h ` set ss"
      using keys by (simp add: map_of_eq_None_iff)
    then have "filter (\<lambda>s. h s = k) ss = []"
      unfolding filter_empty_conv image_iff by metis
    then show ?thesis
      using None by (simp add: grouped_filter [OF sorted hk])
  next
    case (Some vs)
    then show ?thesis
      using vals [OF map_of_SomeD [OF Some]] by (simp add: grouped_filter [OF sorted hk])
  qed
  have "mset ?ys = mset ss"
  proof (rule multiset_eqI)
    fix x
    have "count (mset ys) x = count (mset (filter (\<lambda>s. h s = h x) ys)) x" for ys
      by (simp add: mset_filter)
    then show "count (mset ?ys) x = count (mset ss) x"
      using flt [of "h x"] by metis
  qed
  moreover have "filter (\<lambda>x. h k = h x) ?ys = filter (\<lambda>x. h k = h x) ss" for k
  proof -
    have swap: "(\<lambda>x. h k = h x) = (\<lambda>x. h x = h k)"
      by auto
    show ?thesis
      unfolding swap by (rule flt)
  qed
  ultimately have "sort_key h ss = ?ys"
    by (rule properties_for_sort_key) (rule sorted_concat_groups [OF sorted hk])
  then show ?thesis
    by (rule sym)
qed

subsection \<open>Splitting and merging\<close>

definition folder_key :: "(string \<Rightarrow> string + bytes) \<Rightarrow> ManifestSegment \<Rightarrow> string" where
  "folder_key hex_decode s = projr (validated_segment_folder hex_decode s)"

definition segment_valid :: "(string \<Rightarrow> string + bytes) \<Rightarrow> ManifestSegment \<Rightarrow> bool" where
  "segment_valid hex_decode s \<longleftrightarrow> \<not> isl (validated_segment_folder hex_decode s)"

lemma segment_valid_iff: "segment_valid hex s \<longleftrightarrow> validated_segment_folder hex s = Inr (folder_key hex s)"
  by (cases "validated_segment_folder hex s") (auto simp: segment_valid_def folder_key_def)

lemma validated_folder_number:
  "validated_segment_folder hex s = Inr f \<Longrightarrow> parse_folder_name f = Some (segment_folder_number (int (ms_batch s)))"
  by (auto simp: validated_segment_folder_def Let_def res_simps)

lemma group_result:
  assumes "group_by_folder (validated_segment_folder hex) ss [] = Inr g"
  shows "\<forall>s\<in>set ss. segment_valid hex s" "grouped (folder_key hex) ss g"
proof -
  show v: "\<forall>s\<in>set ss. segment_valid hex s"
    using group_by_folder_Inr [OF assms] unfolding segment_valid_def by (metis sum.disc(2))
  have "g = fold (\<lambda>s. btree_push (folder_key hex s) s) ss []"
    using group_by_folder_ok [of ss "validated_segment_folder hex" "folder_key hex" "[]"] v assms
    by (simp add: segment_valid_iff)
  then show "grouped (folder_key hex) ss g"
    using grouped_fold [of "folder_key hex" ss] by simp
qed

lemma group_total: "\<forall>s\<in>set ss. segment_valid hex s \<Longrightarrow> \<exists>g. group_by_folder (validated_segment_folder hex) ss [] = Inr g"
  using group_by_folder_ok [of ss "validated_segment_folder hex" "folder_key hex"] by (auto simp: segment_valid_iff)

lemma export_shard_Inr:
  "export_shard to_vec sha m (f, segs) = Inr (n, r, p, sh) \<longleftrightarrow>
     parse_folder_name f = Some n \<and> length segs \<le> u32_max
     \<and> sh = \<lparr>sh_version = MANIFEST_SHARD_VERSION, sh_folder = f, sh_table = m_table m, sh_namespace = m_namespace m,
           sh_schema_version = m_schema_version m, sh_segments = segs\<rparr>
     \<and> (\<exists>bs. to_vec sh = Inr bs
         \<and> r = \<lparr>ref_folder = f, ref_path = p, ref_content_sha256 = content_checksum_sha256_hex sha bs,
              ref_segment_count = length segs, ref_min_seq = min_or_zero (map ms_min_seq segs),
              ref_max_seq = max_or_zero (map ms_max_seq segs)\<rparr>
         \<and> p = relative_manifest_shard_content_path n (content_checksum_sha256_hex sha bs))"
  by (auto simp: export_shard_def Let_def res_simps split: sum.splits if_splits)

lemma exported_shard_validates:
  assumes "export_shard to_vec sha m (f, segs) = Inr (n, r, p, sh)"
    and "\<forall>s\<in>set segs. validated_segment_folder hex s = Inr f"
    and "m_table root = m_table m" "m_namespace root = m_namespace m" "m_schema_version root = m_schema_version m"
  shows "validate_shard hex root r sh = Inr ()"
  using assms by (auto simp: export_shard_Inr validate_shard_def validate_shard_segments_def shard_ranges_def Let_def res_simps)

lemma shard_capacity_sum:
  "acc + sum_list (map ref_segment_count rs) \<le> u64_max
    \<Longrightarrow> shard_capacity rs acc = Some (acc + sum_list (map ref_segment_count rs))"
  by (induction rs arbitrary: acc) simp_all

lemma merge_loop_Inr:
  "merge_loop hex root ps acc = Inr segs \<longleftrightarrow>
     (\<forall>(r, sh)\<in>set ps. validate_shard hex root r sh = Inr ()) \<and> segs = acc @ concat (map (sh_segments \<circ> snd) ps)"
proof (induction ps arbitrary: acc)
  case (Cons p ps)
  obtain r sh where p: "p = (r, sh)"
    by (cases p)
  show ?case
    using Cons.IH [of "acc @ sh_segments sh"] by (cases "validate_shard hex root r sh") (simp_all add: p)
qed auto

lemma res_list_length: "res_list f xs = Inr ys \<Longrightarrow> length ys = length xs"
  by (induction xs arbitrary: ys) (auto simp: res_simps)

lemma res_list_nth: "res_list f xs = Inr ys \<Longrightarrow> i < length xs \<Longrightarrow> f (xs ! i) = Inr (ys ! i)"
proof (induction xs arbitrary: ys i)
  case (Cons x xs)
  then show ?case
    by (cases i) (auto simp: res_simps)
qed simp

text \<open>The root of an export, given the exported rounds.\<close>

definition export_root :: "Manifest \<Rightarrow> (nat \<times> ManifestShardRef \<times> string \<times> ManifestShard) list \<Rightarrow> Manifest" where
  "export_root m exported =
     m\<lparr>m_version := MANIFEST_VERSION, m_shards := map (fst \<circ> snd) exported, m_segments := [],
       m_files := \<lparr>fs_current_subfolder = (let top = fold max (map fst exported) 0 in if top = 0 then ''001'' else pad_nat 3 top),
         fs_subfolder_count = (if length exported \<le> u32_max then length exported else u32_max),
         fs_max_files_per_subfolder = SEGMENTS_PER_FOLDER,
         fs_total_files = Some (if length (m_segments m) \<le> u64_max then length (m_segments m) else u64_max)\<rparr>\<rparr>"

lemma split_ok:
  assumes "group_by_folder (validated_segment_folder hex) (m_segments m) [] = Inr g"
    and "res_list (export_shard to_vec sha m) g = Inr exported"
  shows "split_manifest_for_export hex to_vec sha m =
    Inr \<lparr>exp_root = export_root m exported, exp_shards = map (snd \<circ> snd) exported\<rparr>"
  unfolding split_manifest_for_export_def assms res_bind.simps Let_def export_root_def by simp

lemma split_cases:
  assumes "split_manifest_for_export hex to_vec sha m = Inr ex"
  obtains g exported where "group_by_folder (validated_segment_folder hex) (m_segments m) [] = Inr g"
    "res_list (export_shard to_vec sha m) g = Inr exported"
    "ex = \<lparr>exp_root = export_root m exported, exp_shards = map (snd \<circ> snd) exported\<rparr>"
proof -
  obtain g where g: "group_by_folder (validated_segment_folder hex) (m_segments m) [] = Inr g"
    using assms unfolding split_manifest_for_export_def res_bind_Inr by blast
  obtain exported where e: "res_list (export_shard to_vec sha m) g = Inr exported"
    using assms unfolding split_manifest_for_export_def g res_bind.simps res_bind_Inr by blast
  have "\<lparr>exp_root = export_root m exported, exp_shards = map (snd \<circ> snd) exported\<rparr> = ex"
    using assms by (simp only: split_ok [OF g e] sum.inject)
  then show thesis
    by (rule that [OF g e, OF sym])
qed

lemma exported_pairs:
  assumes g: "grouped (folder_key hex) ss g" and valid: "\<forall>s\<in>set ss. segment_valid hex s"
    and e: "res_list (export_shard to_vec sha m) g = Inr exported"
  shows "map (sh_segments \<circ> snd \<circ> snd \<circ> snd) exported = map snd g"
    and "\<lbrakk>m_table root = m_table m; m_namespace root = m_namespace m; m_schema_version root = m_schema_version m;
      (n, r, p, sh) \<in> set exported\<rbrakk> \<Longrightarrow> validate_shard hex root r sh = Inr ()"
    and "map (ref_segment_count \<circ> fst \<circ> snd) exported = map (length \<circ> snd) g"
    and "(n, r, p, sh) \<in> set exported \<Longrightarrow>
      p = ref_path r \<and> (\<exists>bs. to_vec sh = Inr bs \<and> ref_content_sha256 r = content_checksum_sha256_hex sha bs)"
proof -
  have len: "length exported = length g"
    by (rule res_list_length [OF e])
  have at: "export_shard to_vec sha m (g ! i) = Inr (exported ! i)" if "i < length g" for i
    by (rule res_list_nth [OF e that])
  have each: "sh_segments (snd (snd (snd (exported ! i)))) = snd (g ! i)
      \<and> ref_segment_count (fst (snd (exported ! i))) = length (snd (g ! i))" if "i < length g" for i
  proof -
    obtain f segs where gi: "g ! i = (f, segs)"
      by (cases "g ! i")
    obtain n r p sh where ei: "exported ! i = (n, r, p, sh)"
      by (cases "exported ! i")
    show ?thesis
      using at [OF that] unfolding gi ei export_shard_Inr by auto
  qed
  show "map (sh_segments \<circ> snd \<circ> snd \<circ> snd) exported = map snd g"
    "map (ref_segment_count \<circ> fst \<circ> snd) exported = map (length \<circ> snd) g"
    using each len by (simp_all add: list_eq_iff_nth_eq)
  have source: "\<exists>f segs. (f, segs) \<in> set g \<and> export_shard to_vec sha m (f, segs) = Inr (n, r, p, sh)"
    if in_e: "(n, r, p, sh) \<in> set exported"
  proof -
    obtain i where i: "i < length g" "exported ! i = (n, r, p, sh)"
      using in_e len by (auto simp: in_set_conv_nth)
    show ?thesis
      using at [OF i(1)] i by (cases "g ! i") (metis nth_mem)
  qed
  show "p = ref_path r \<and> (\<exists>bs. to_vec sh = Inr bs \<and> ref_content_sha256 r = content_checksum_sha256_hex sha bs)"
    if in_e: "(n, r, p, sh) \<in> set exported"
    using source [OF in_e] unfolding export_shard_Inr by auto
  show "validate_shard hex root r sh = Inr ()"
    if root: "m_table root = m_table m" "m_namespace root = m_namespace m" "m_schema_version root = m_schema_version m"
      and in_e: "(n, r, p, sh) \<in> set exported"
  proof -
    obtain f segs where fs: "(f, segs) \<in> set g" "export_shard to_vec sha m (f, segs) = Inr (n, r, p, sh)"
      using source [OF in_e] by blast
    have "\<forall>s\<in>set segs. validated_segment_folder hex s = Inr f"
      using g valid fs(1) unfolding grouped_def by (auto simp: segment_valid_iff)
    then show ?thesis
      using exported_shard_validates [OF fs(2) _ root] by blast
  qed
qed

definition reordered :: "(string \<Rightarrow> string + bytes) \<Rightarrow> Manifest \<Rightarrow> Manifest \<Rightarrow> Manifest" where
  "reordered hex_decode root m = root\<lparr>m_segments := sort_key (folder_key hex_decode) (m_segments m)\<rparr>"

lemma export_root_simps [simp]:
  "m_version (export_root m exported) = MANIFEST_VERSION" "m_table (export_root m exported) = m_table m"
  "m_namespace (export_root m exported) = m_namespace m" "m_schema_version (export_root m exported) = m_schema_version m"
  "m_shards (export_root m exported) = map (fst \<circ> snd) exported" "m_segments (export_root m exported) = []"
  by (simp_all add: export_root_def)

lemma merge_after_split:
  assumes split: "split_manifest_for_export hex to_vec sha m = Inr ex" and small: "length (m_segments m) \<le> u64_max"
  shows "merge_manifest_shards hex (exp_root ex) (map snd (exp_shards ex)) = Inr (reordered hex (exp_root ex) m)"
proof -
  obtain g exported where g: "group_by_folder (validated_segment_folder hex) (m_segments m) [] = Inr g"
    and e: "res_list (export_shard to_vec sha m) g = Inr exported"
    and ex: "ex = \<lparr>exp_root = export_root m exported, exp_shards = map (snd \<circ> snd) exported\<rparr>"
    by (rule split_cases [OF split])
  note gr = group_result [OF g]
  note ep = exported_pairs [OF gr(2) gr(1) e]
  have segs: "concat (map snd g) = sort_key (folder_key hex) (m_segments m)"
    by (rule grouped_concat [OF gr(2)])
  let ?root = "export_root m exported"
  have "sum_list (map (ref_segment_count \<circ> fst \<circ> snd) exported) = length (concat (map snd g))"
    unfolding ep(3) length_concat by (simp add: comp_def)
  then have "shard_capacity (m_shards ?root) 0 = Some (length (m_segments m))"
    using shard_capacity_sum [of 0 "m_shards ?root"] small by (simp add: segs comp_assoc)
  moreover have pairs: "zip (m_shards ?root) (map (snd \<circ> snd \<circ> snd) exported) = map (\<lambda>(n, r, p, sh). (r, sh)) exported"
    by (simp add: zip_map_map zip_same_conv_map case_prod_unfold)
  have "merge_loop hex ?root (zip (m_shards ?root) (map (snd \<circ> snd \<circ> snd) exported)) [] = Inr (concat (map snd g))"
    unfolding merge_loop_Inr pairs
  proof (intro conjI)
    show "\<forall>(r, sh)\<in>set (map (\<lambda>(n, r, p, sh). (r, sh)) exported). validate_shard hex ?root r sh = Inr ()"
      using ep(2) [of ?root] by auto
    have "map (sh_segments \<circ> snd) (map (\<lambda>(n, r, p, sh). (r, sh)) exported) = map (sh_segments \<circ> snd \<circ> snd \<circ> snd) exported"
      by (simp add: comp_def case_prod_unfold)
    then show "concat (map snd g) = [] @ concat (map (sh_segments \<circ> snd) (map (\<lambda>(n, r, p, sh). (r, sh)) exported))"
      unfolding ep(1) by simp
  qed
  moreover have "validate_root ?root (length exported) = Inr ()"
    by (simp add: validate_root_def require_def)
  ultimately show ?thesis
    by (simp add: ex merge_manifest_shards_def ok_or_def comp_assoc segs reordered_def)
qed

lemma split_total:
  assumes "\<forall>s\<in>set (m_segments m). segment_valid hex s" "length (m_segments m) \<le> u32_max"
    and json: "\<And>shard. \<exists>bs. to_vec shard = Inr bs"
  shows "\<exists>ex. split_manifest_for_export hex to_vec sha m = Inr ex"
proof -
  obtain g where g: "group_by_folder (validated_segment_folder hex) (m_segments m) [] = Inr g"
    using group_total [OF assms(1)] by blast
  note gr = group_result [OF g]
  have "\<exists>y. export_shard to_vec sha m x = Inr y" if "x \<in> set g" for x
  proof -
    obtain f segs where x: "x = (f, segs)"
      by (cases x)
    have keys: "fst ` set g = folder_key hex ` set (m_segments m)"
      and vals: "\<forall>(k, vs)\<in>set g. vs = filter (\<lambda>s. folder_key hex s = k) (m_segments m)"
      using gr(2) by (simp_all add: grouped_def)
    have "f \<in> fst ` set g"
      using that x by (simp add: image_iff) (metis fst_conv)
    then obtain s where s: "s \<in> set (m_segments m)" "f = folder_key hex s"
      unfolding keys by blast
    then obtain n where n: "parse_folder_name f = Some n"
      using assms(1) validated_folder_number [of hex s f] by (simp add: segment_valid_iff)
    have "segs = filter (\<lambda>s. folder_key hex s = f) (m_segments m)"
      using bspec [OF vals that] by (simp add: x)
    then have "length segs \<le> u32_max"
      using le_trans [OF length_filter_le assms(2)] by simp
    with n show ?thesis
      using json [of "\<lparr>sh_version = MANIFEST_SHARD_VERSION, sh_folder = f, sh_table = m_table m,
        sh_namespace = m_namespace m, sh_schema_version = m_schema_version m, sh_segments = segs\<rparr>"]
      by (auto simp: x export_shard_def Let_def ok_or_def)
  qed
  then have "export_shard to_vec sha m x = Inr (projr (export_shard to_vec sha m x))" if "x \<in> set g" for x
    using that by (metis sum.sel(2))
  then have "res_list (export_shard to_vec sha m) g = Inr (map (\<lambda>x. projr (export_shard to_vec sha m x)) g)"
    by (rule res_list_total)
  then show ?thesis
    using split_ok [OF g] by blast
qed

lemma split_rejects:
  assumes "s \<in> set (m_segments m)" "\<not> segment_valid hex s"
  shows "\<exists>e. split_manifest_for_export hex to_vec sha m = Inl e"
proof (cases "split_manifest_for_export hex to_vec sha m")
  case (Inr ex)
  then obtain g where "group_by_folder (validated_segment_folder hex) (m_segments m) [] = Inr g"
    by (rule split_cases)
  then show ?thesis
    using group_result(1) assms by blast
qed blast

text \<open>What a successful merge has checked of every shard.\<close>

definition shard_agrees :: "(string \<Rightarrow> string + bytes) \<Rightarrow> Manifest \<Rightarrow> ManifestShardRef \<Rightarrow> ManifestShard \<Rightarrow> bool" where
  "shard_agrees hex_decode root r sh \<longleftrightarrow>
     sh_table sh = m_table root \<and> sh_namespace sh = m_namespace root \<and> sh_schema_version sh = m_schema_version root
     \<and> length (sh_segments sh) = ref_segment_count r
     \<and> shard_ranges (sh_segments sh) = (ref_min_seq r, ref_max_seq r)
     \<and> (\<forall>s\<in>set (sh_segments sh). segment_valid hex_decode s \<and> folder_key hex_decode s = ref_folder r)"

lemma validate_shard_agrees: "validate_shard hex root r sh = Inr () \<Longrightarrow> shard_agrees hex root r sh"
  by (auto simp: validate_shard_def validate_shard_segments_def shard_agrees_def segment_valid_def folder_key_def
      Let_def res_simps)

lemma validate_shard_path:
  "validate_shard hex root r sh = Inr () \<Longrightarrow>
     \<exists>n. parse_folder_name (ref_folder r) = Some n \<and> ref_path r = relative_manifest_shard_content_path n (ref_content_sha256 r)"
  by (auto simp: validate_shard_def Let_def res_simps)

lemma merge_Inr:
  assumes "merge_manifest_shards hex root shards = Inr m"
  shows "length shards = length (m_shards root)" "m = root\<lparr>m_segments := concat (map sh_segments shards)\<rparr>"
    and "i < length shards \<Longrightarrow> validate_shard hex root (m_shards root ! i) (shards ! i) = Inr ()"
proof -
  obtain segs where loop: "merge_loop hex root (zip (m_shards root) shards) [] = Inr segs"
    and m: "m = root\<lparr>m_segments := segs\<rparr>" and len: "length (m_shards root) = length shards"
  proof -
    have "\<exists>u. validate_root root (length shards) = Inr u"
      and "\<exists>segs. merge_loop hex root (zip (m_shards root) shards) [] = Inr segs \<and> m = root\<lparr>m_segments := segs\<rparr>"
      using assms unfolding merge_manifest_shards_def res_bind_Inr sum.inject by blast+
    then show ?thesis
      using that unfolding validate_root_def res_bind_Inr require_Inr by blast
  qed
  have all: "\<forall>(r, sh)\<in>set (zip (m_shards root) shards). validate_shard hex root r sh = Inr ()"
    and segs: "segs = concat (map (sh_segments \<circ> snd) (zip (m_shards root) shards))"
    using loop unfolding merge_loop_Inr by simp_all
  show "length shards = length (m_shards root)"
    using len by simp
  have "map snd (zip (m_shards root) shards) = shards"
    using len by simp
  then show "m = root\<lparr>m_segments := concat (map sh_segments shards)\<rparr>"
    unfolding m segs by (metis map_map)
  show "validate_shard hex root (m_shards root ! i) (shards ! i) = Inr ()" if "i < length shards"
  proof -
    have "zip (m_shards root) shards ! i \<in> set (zip (m_shards root) shards)"
      by (rule nth_mem) (use that len in simp)
    from bspec [OF all this] show ?thesis
      using that len by simp
  qed
qed


definition shard_segment :: "nat \<Rightarrow> ManifestSegment" where
  "shard_segment batch = segment_committed ''now'' batch (segment_relative_object_path (int batch) ''ab'') 1 2 3 4 1"

definition shard_manifest :: Manifest where
  "shard_manifest = fst (append_segment_batch ''now'' [shard_segment 101, shard_segment 2] (new_shared ''now'' ''n'' ''t'' 1))"

lemma shard_segment_metadata: "validate_packed_segment_metadata (\<lambda>s. Inr []) (shard_segment b) = Inr ()"
  by (simp add: validate_packed_segment_metadata_def shard_segment_def segment_committed_def require_def ok_or_def
      in_i64_def int_ranges)

lemma shard_segment_validates:
  assumes "int b \<le> i32_max"
  shows "validated_segment_folder (\<lambda>s. Inr []) (shard_segment b) = Inr (pad_nat 3 (segment_folder_number (int b)))"
proof -
  have "folder_from_segment_relative_path (ms_path (shard_segment b)) = Some (pad_nat 3 (segment_folder_number (int b)))"
    using folder_of_segment_path [of "''ab''" "int b"] assms by (simp add: shard_segment_def segment_committed_def)
  moreover have "parse_folder_name (pad_nat 3 (segment_folder_number (int b))) = Some (segment_folder_number (int b))"
    using segment_folder_number_bounds assms by (simp add: parse_folder_name_iff)
  moreover have "ms_batch (shard_segment b) = b"
    by (simp add: shard_segment_def segment_committed_def)
  ultimately show ?thesis
    using assms by (simp add: validated_segment_folder_def shard_segment_metadata ok_or_def require_def)
qed

lemma shard_segment_folder:
  "validated_segment_folder (\<lambda>s. Inr []) (shard_segment 101) = Inr ''002''"
  "validated_segment_folder (\<lambda>s. Inr []) (shard_segment 2) = Inr ''001''"
proof -
  have "segment_folder_number 101 = 2" "segment_folder_number 2 = 1"
    by (simp_all add: segment_folder_number_def SEGMENTS_PER_FOLDER_def)
  moreover have "pad_nat 3 2 = ''002''" "pad_nat 3 1 = ''001''"
    by code_simp+
  ultimately show "validated_segment_folder (\<lambda>s. Inr []) (shard_segment 101) = Inr ''002''"
    "validated_segment_folder (\<lambda>s. Inr []) (shard_segment 2) = Inr ''001''"
    using shard_segment_validates [of 101] shard_segment_validates [of 2] by (simp_all add: i32_max_def)
qed

lemma shard_manifest_segments: "m_segments shard_manifest = [shard_segment 101, shard_segment 2]"
  by (simp add: shard_manifest_def append_segment_batch_result new_shared_def manifest_new_def)


end
