(* ===== verification/Object_Store.thy ===== *)
theory Object_Store
  imports Object_Keys
begin

text \<open>
  The storage client of \<open>koldstore-storage\<close> (\<open>client/\<close>) and the durable publication helpers of
  \<open>publish.rs\<close>.  A client program is a tree of requests to the external \<open>object_store\<close> crate with
  one continuation per answer (\<open>prog\<close>), so that every interleaving point and every failure of a request is
  visible; the store itself is a parameter, a record of relations, constrained by what its documentation
  promises (\<open>store_contract\<close>).  \<open>wp\<close> is the weakest precondition of a program under a
  guarantee on each of its steps, \<open>rwp\<close> the one of a reading program under interference.
\<close>

subsection \<open>Client types\<close>

datatype PutPrecondition = Overwrite | CreateIfAbsent

record PutOutcome =
  po_key :: string
  po_etag :: "string option"
  po_byte_size :: nat

record StorageObject =
  so_key :: string
  so_etag :: "string option"
  so_byte_size :: "nat option"

datatype StorageClientError =
    NotFound string
  | AlreadyExists string
  | Validation string string
  | InvalidPath string
  | Backend string
  | Timeout nat

text \<open>
  Errors of the \<open>object_store\<close> crate with their printed text; \<open>Elapsed\<close> is the outer timeout of
  \<open>runtime::block_on\<close>, \<open>Body_error\<close> a failure while the body of a download is read.
\<close>

datatype os_error = Os_NotFound string | Os_AlreadyExists string | Os_other string

primrec os_text :: "os_error \<Rightarrow> string" where
  "os_text (Os_NotFound t) = t"
| "os_text (Os_AlreadyExists t) = t"
| "os_text (Os_other t) = t"

datatype failure = Os os_error | Body_error string | Elapsed

subsection \<open>Programs\<close>

datatype 'a prog =
    Done 'a
  | Do_put string bytes PutPrecondition "failure + string option \<Rightarrow> 'a prog"
  | Do_get string "failure + bytes \<Rightarrow> 'a prog"
  | Do_head string "failure + string option \<times> nat \<Rightarrow> 'a prog"
  | Do_delete string "failure + unit \<Rightarrow> 'a prog"
  | Do_copy string string "failure + unit \<Rightarrow> 'a prog"
  | Do_list "string option" "failure + (string \<times> string option \<times> nat) list \<Rightarrow> 'a prog"

primrec prog_bind :: "'a prog \<Rightarrow> ('a \<Rightarrow> 'b prog) \<Rightarrow> 'b prog" where
  "prog_bind (Done x) f = f x"
| "prog_bind (Do_put k b m c) f = Do_put k b m (\<lambda>r. prog_bind (c r) f)"
| "prog_bind (Do_get k c) f = Do_get k (\<lambda>r. prog_bind (c r) f)"
| "prog_bind (Do_head k c) f = Do_head k (\<lambda>r. prog_bind (c r) f)"
| "prog_bind (Do_delete k c) f = Do_delete k (\<lambda>r. prog_bind (c r) f)"
| "prog_bind (Do_copy k l c) f = Do_copy k l (\<lambda>r. prog_bind (c r) f)"
| "prog_bind (Do_list p c) f = Do_list p (\<lambda>r. prog_bind (c r) f)"

text \<open>The question mark operator on a program that returns a \<open>Result\<close>, with its error conversion.\<close>

definition try_bind :: "('d \<Rightarrow> 'e) \<Rightarrow> ('d + 'a) prog \<Rightarrow> ('a \<Rightarrow> ('e + 'b) prog) \<Rightarrow> ('e + 'b) prog" where
  "try_bind conv p f = prog_bind p (\<lambda>r. case r of Inl e \<Rightarrow> Done (Inl (conv e)) | Inr x \<Rightarrow> f x)"

subsection \<open>The client\<close>

text \<open>\<open>Path::parse\<close> of the \<open>object_store\<close> crate and the configured timeout in milliseconds.\<close>

record client =
  cl_path_parse :: "string \<Rightarrow> string + string"
  cl_timeout_ms :: "nat option"

definition rsplit_name :: "string \<Rightarrow> string" where
  "rsplit_name s = rev (takeWhile (\<lambda>c. c \<noteq> CHR ''/'') (rev s))"

definition rsplit_once :: "char \<Rightarrow> string \<Rightarrow> (string \<times> string) option" where
  "rsplit_once c s = map_option (\<lambda>(a, b). (rev b, rev a)) (split_once c (rev s))"

definition parse_key :: "client \<Rightarrow> string \<Rightarrow> StorageClientError + string" where
  "parse_key cl key =
     (let trimmed = trim_start_matches CHR ''/'' (trim key) in
      if trimmed = [] then Inl (InvalidPath ''object key must not be empty'')
      else if list_ex (\<lambda>part. part = ''.'' \<or> part = ''..'') (split_on CHR ''/'' trimmed) then
        Inl (InvalidPath (''object key must not contain '' @ [CHR 0x27] @ ''.'' @ [CHR 0x27] @ '' or '' @ [CHR 0x27]
          @ ''..'' @ [CHR 0x27] @ '' segments: '' @ key))
      else if (case rsplit_once CHR ''#'' (rsplit_name trimmed) of
                None \<Rightarrow> False | Some (_, suf) \<Rightarrow> suf \<noteq> [] \<and> list_all is_digit suf) then
        Inl (InvalidPath (''object key `'' @ key @ ''` uses reserved object_store staging suffix /#'' @ [CHR 0x5C] @ ''d+''))
      else (case cl_path_parse cl trimmed of Inl e \<Rightarrow> Inl (InvalidPath e) | Inr p \<Rightarrow> Inr p))"

definition optional_prefix :: "client \<Rightarrow> string \<Rightarrow> StorageClientError + string option" where
  "optional_prefix cl pre =
     (let trimmed = trim_start_matches CHR ''/'' (trim pre) in
      if trimmed = [] then Inr None
      else (case parse_key cl trimmed of Inl e \<Rightarrow> Inl e | Inr p \<Rightarrow> Inr (Some p)))"

definition map_backend :: "os_error \<Rightarrow> StorageClientError" where
  "map_backend e = Backend (os_text e)"

definition map_object_store_error_for_key :: "string \<Rightarrow> os_error \<Rightarrow> StorageClientError" where
  "map_object_store_error_for_key key e = (case e of Os_NotFound _ \<Rightarrow> NotFound key | _ \<Rightarrow> map_backend e)"

definition map_put_error :: "string \<Rightarrow> os_error \<Rightarrow> StorageClientError" where
  "map_put_error key e = (case e of Os_AlreadyExists _ \<Rightarrow> AlreadyExists key | _ \<Rightarrow> map_object_store_error_for_key key e)"

definition map_object_store_error :: "os_error \<Rightarrow> StorageClientError" where
  "map_object_store_error e = map_backend e"

text \<open>\<open>ObjectStoreClient::run\<close>: the error of the request, or the timeout.\<close>

definition client_run :: "client \<Rightarrow> (os_error \<Rightarrow> StorageClientError) \<Rightarrow> failure \<Rightarrow> StorageClientError" where
  "client_run cl conv f = (case f of
      Os e \<Rightarrow> conv e
    | Body_error t \<Rightarrow> Backend t
    | Elapsed \<Rightarrow> Timeout (case cl_timeout_ms cl of None \<Rightarrow> 0 | Some ms \<Rightarrow> if ms \<le> u64_max then ms else u64_max))"

definition client_list :: "client \<Rightarrow> string \<Rightarrow> (StorageClientError + StorageObject list) prog" where
  "client_list cl pre = (case optional_prefix cl pre of
      Inl e \<Rightarrow> Done (Inl e)
    | Inr location \<Rightarrow> Do_list location (\<lambda>r. Done (case r of
          Inl f \<Rightarrow> Inl (client_run cl map_object_store_error f)
        | Inr metas \<Rightarrow> Inr (map (\<lambda>(k, etag, n). \<lparr>so_key = k, so_etag = etag, so_byte_size = Some n\<rparr>) metas))))"

definition client_put :: "client \<Rightarrow> string \<Rightarrow> bytes \<Rightarrow> PutPrecondition \<Rightarrow> (StorageClientError + PutOutcome) prog" where
  "client_put cl key bs mode = (case parse_key cl key of
      Inl e \<Rightarrow> Done (Inl e)
    | Inr location \<Rightarrow> Do_put location bs mode (\<lambda>r. Done (case r of
          Inl f \<Rightarrow> Inl (client_run cl (map_put_error key) f)
        | Inr etag \<Rightarrow> Inr \<lparr>po_key = key, po_etag = etag, po_byte_size = length bs\<rparr>)))"

definition client_get :: "client \<Rightarrow> string \<Rightarrow> (StorageClientError + bytes) prog" where
  "client_get cl key = (case parse_key cl key of
      Inl e \<Rightarrow> Done (Inl e)
    | Inr location \<Rightarrow> Do_get location (\<lambda>r. Done (case r of
          Inl f \<Rightarrow> Inl (client_run cl (map_object_store_error_for_key key) f)
        | Inr bs \<Rightarrow> Inr bs)))"

definition client_head :: "client \<Rightarrow> string \<Rightarrow> (StorageClientError + StorageObject) prog" where
  "client_head cl key = (case parse_key cl key of
      Inl e \<Rightarrow> Done (Inl e)
    | Inr location \<Rightarrow> Do_head location (\<lambda>r. Done (case r of
          Inl f \<Rightarrow> Inl (client_run cl (map_object_store_error_for_key key) f)
        | Inr (etag, n) \<Rightarrow> Inr \<lparr>so_key = location, so_etag = etag, so_byte_size = Some n\<rparr>)))"

definition client_delete :: "client \<Rightarrow> string \<Rightarrow> (StorageClientError + unit) prog" where
  "client_delete cl key = (case parse_key cl key of
      Inl e \<Rightarrow> Done (Inl e)
    | Inr location \<Rightarrow> Do_delete location (\<lambda>r. Done (case r of
          Inr () \<Rightarrow> Inr ()
        | Inl (Os (Os_NotFound _)) \<Rightarrow> Inr ()
        | Inl f \<Rightarrow> Inl (client_run cl map_object_store_error f))))"

definition client_copy_if_absent :: "client \<Rightarrow> string \<Rightarrow> string \<Rightarrow> (StorageClientError + unit) prog" where
  "client_copy_if_absent cl source target = (case parse_key cl source of
      Inl e \<Rightarrow> Done (Inl e)
    | Inr from_path \<Rightarrow> (case parse_key cl target of
          Inl e \<Rightarrow> Done (Inl e)
        | Inr to_path \<Rightarrow> Do_copy from_path to_path (\<lambda>r. Done (case r of
              Inl f \<Rightarrow> Inl (client_run cl (map_put_error target) f)
            | Inr u \<Rightarrow> Inr u))))"

subsection \<open>Durable publication\<close>

record StorageObjectMeta =
  sm_key :: string
  sm_etag :: "string option"
  sm_byte_size :: nat

record PublishedObject =
  pb_final_key :: string
  pb_temp_key :: string
  pb_byte_size :: nat
  pb_etag :: "string option"
  pb_checksum :: string
  pb_reused_existing :: bool

datatype PublishAction =
    PutTemp string
  | CopyTempToFinal string string
  | ValidateFinal string
  | DeleteTemp string
  | PutManifest string

definition backend_safe_publish_actions :: "string \<Rightarrow> string \<Rightarrow> string \<Rightarrow> PublishAction list" where
  "backend_safe_publish_actions temp_path final_path manifest_path =
     [PutTemp temp_path, CopyTempToFinal temp_path final_path, ValidateFinal final_path, DeleteTemp temp_path,
      PutManifest manifest_path]"

definition validate_object_size :: "client \<Rightarrow> string \<Rightarrow> nat \<Rightarrow> (StorageClientError + StorageObjectMeta) prog" where
  "validate_object_size cl key expected_size =
     try_bind (\<lambda>e. e) (client_head cl key) (\<lambda>object.
     case so_byte_size object of
       None \<Rightarrow> Done (Inl (Validation key ''object metadata is missing byte_size''))
     | Some actual \<Rightarrow>
         if actual \<noteq> expected_size then
           Done (Inl (Validation key (''size mismatch: actual='' @ show_nat actual @ '' expected='' @ show_nat expected_size)))
         else Done (Inr \<lparr>sm_key = so_key object, sm_etag = so_etag object, sm_byte_size = actual\<rparr>))"

definition ensure_object_bytes :: "client \<Rightarrow> string \<Rightarrow> bytes \<Rightarrow> (StorageClientError + StorageObjectMeta) prog" where
  "ensure_object_bytes cl key bs =
     try_bind (\<lambda>e. e) (validate_object_size cl key (length bs)) (\<lambda>meta.
     try_bind (\<lambda>e. e) (client_get cl key) (\<lambda>actual.
     if actual \<noteq> bs then Done (Inl (Validation key ''object bytes do not match expected payload''))
     else Done (Inr meta)))"

definition try_reuse_identical_final ::
    "client \<Rightarrow> string \<Rightarrow> bytes \<Rightarrow> string \<Rightarrow> (StorageClientError + PublishedObject option) prog" where
  "try_reuse_identical_final cl final_key bs checksum =
     prog_bind (client_head cl final_key) (\<lambda>r. case r of
       Inr existing \<Rightarrow> (case so_byte_size existing of
           None \<Rightarrow> Done (Inl (Validation final_key ''existing final object metadata is missing byte_size''))
         | Some actual_size \<Rightarrow>
             if actual_size \<noteq> length bs then
               Done (Inl (Validation final_key (''final object exists with size '' @ show_nat actual_size
                 @ '', expected '' @ show_nat (length bs))))
             else try_bind (\<lambda>e. e) (client_get cl final_key) (\<lambda>actual.
               if actual \<noteq> bs then
                 Done (Inl (Validation final_key ''final object exists with matching size but different content''))
               else Done (Inr (Some \<lparr>pb_final_key = final_key, pb_temp_key = [], pb_byte_size = length bs,
                 pb_etag = so_etag existing, pb_checksum = checksum, pb_reused_existing = True\<rparr>))))
     | Inl (NotFound _) \<Rightarrow> Done (Inr None)
     | Inl e \<Rightarrow> Done (Inl e))"

definition to_ascii_lowercase :: "string \<Rightarrow> string" where
  "to_ascii_lowercase s = map (\<lambda>c. let n = of_char c :: nat in if n \<in> {65..90} then char_of (n + 32) else c) s"

definition is_not_implemented :: "StorageClientError \<Rightarrow> bool" where
  "is_not_implemented e = (case e of
      Backend message \<Rightarrow> (let lower = to_ascii_lowercase message in
        sublist ''not implemented'' lower \<or> sublist ''not support'' lower \<or> sublist ''unsupported'' lower)
    | _ \<Rightarrow> False)"

text \<open>The branch that finds the final object already present.\<close>

definition reuse_or_reject ::
    "client \<Rightarrow> string \<Rightarrow> string \<Rightarrow> bytes \<Rightarrow> string \<Rightarrow> (StorageClientError + PublishedObject) prog" where
  "reuse_or_reject cl temp_key final_key bs checksum =
     try_bind (\<lambda>e. e) (try_reuse_identical_final cl final_key bs checksum) (\<lambda>found. case found of
       None \<Rightarrow> Done (Inl (Validation final_key ''final object exists but content does not match payload''))
     | Some published \<Rightarrow> prog_bind (client_delete cl temp_key) (\<lambda>_. Done (Inr (published\<lparr>pb_temp_key := temp_key\<rparr>))))"

text \<open>Steps 4 and 5: re-read the final object, then drop the temporary one.\<close>

definition verify_final ::
    "client \<Rightarrow> string \<Rightarrow> string \<Rightarrow> bytes \<Rightarrow> string \<Rightarrow> (StorageClientError + PublishedObject) prog" where
  "verify_final cl temp_key final_key bs checksum =
     try_bind (\<lambda>e. e) (ensure_object_bytes cl final_key bs) (\<lambda>final_meta.
     prog_bind (client_delete cl temp_key) (\<lambda>_.
     Done (Inr \<lparr>pb_final_key = final_key, pb_temp_key = temp_key, pb_byte_size = length bs,
       pb_etag = sm_etag final_meta, pb_checksum = checksum, pb_reused_existing = False\<rparr>)))"

text \<open>Step 3: create the final object by a conditional copy, or by a conditional put where copies are not offered.\<close>

definition put_final ::
    "client \<Rightarrow> string \<Rightarrow> string \<Rightarrow> bytes \<Rightarrow> string \<Rightarrow> (StorageClientError + PublishedObject) prog" where
  "put_final cl temp_key final_key bs checksum =
     prog_bind (client_put cl final_key bs CreateIfAbsent) (\<lambda>r. case r of
         Inr _ \<Rightarrow> verify_final cl temp_key final_key bs checksum
       | Inl (AlreadyExists _) \<Rightarrow> reuse_or_reject cl temp_key final_key bs checksum
       | Inl put_error \<Rightarrow> prog_bind (client_delete cl temp_key) (\<lambda>_. Done (Inl put_error)))"

definition copy_final ::
    "client \<Rightarrow> string \<Rightarrow> string \<Rightarrow> bytes \<Rightarrow> string \<Rightarrow> (StorageClientError + PublishedObject) prog" where
  "copy_final cl temp_key final_key bs checksum =
     prog_bind (client_copy_if_absent cl temp_key final_key) (\<lambda>r. case r of
         Inr () \<Rightarrow> verify_final cl temp_key final_key bs checksum
       | Inl (AlreadyExists _) \<Rightarrow> reuse_or_reject cl temp_key final_key bs checksum
       | Inl e \<Rightarrow>
           if \<not> is_not_implemented e then prog_bind (client_delete cl temp_key) (\<lambda>_. Done (Inl e))
           else put_final cl temp_key final_key bs checksum)"

definition publish_immutable_object ::
    "(bytes \<Rightarrow> bytes) \<Rightarrow> client \<Rightarrow> string \<Rightarrow> string \<Rightarrow> bytes \<Rightarrow> (StorageClientError + PublishedObject) prog" where
  "publish_immutable_object sha256 cl temp_key final_key bs =
     (let checksum = content_checksum_sha256_hex sha256 bs in
      try_bind (\<lambda>e. e) (client_put cl temp_key bs Overwrite) (\<lambda>_.
      try_bind (\<lambda>e. e) (ensure_object_bytes cl temp_key bs) (\<lambda>_.
      try_bind (\<lambda>e. e) (try_reuse_identical_final cl final_key bs checksum) (\<lambda>reused. case reused of
        Some published \<Rightarrow> prog_bind (client_delete cl temp_key) (\<lambda>_. Done (Inr (published\<lparr>pb_temp_key := temp_key\<rparr>)))
      | None \<Rightarrow> copy_final cl temp_key final_key bs checksum))))"

definition publish_mutable_object :: "client \<Rightarrow> string \<Rightarrow> bytes \<Rightarrow> (StorageClientError + PutOutcome) prog" where
  "publish_mutable_object cl key bs =
     try_bind (\<lambda>e. e) (client_put cl key bs Overwrite) (\<lambda>outcome.
     try_bind (\<lambda>e. e) (validate_object_size cl key (length bs)) (\<lambda>_.
     Done (Inr outcome)))"

subsection \<open>The store and its contract\<close>

type_synonym store = "string \<rightharpoonup> bytes"

record object_store =
  os_put :: "string \<Rightarrow> bytes \<Rightarrow> PutPrecondition \<Rightarrow> store \<Rightarrow> failure + string option \<Rightarrow> store \<Rightarrow> bool"
  os_get :: "string \<Rightarrow> store \<Rightarrow> failure + bytes \<Rightarrow> bool"
  os_head :: "string \<Rightarrow> store \<Rightarrow> failure + string option \<times> nat \<Rightarrow> bool"
  os_delete :: "string \<Rightarrow> store \<Rightarrow> failure + unit \<Rightarrow> store \<Rightarrow> bool"
  os_copy :: "string \<Rightarrow> string \<Rightarrow> store \<Rightarrow> failure + unit \<Rightarrow> store \<Rightarrow> bool"
  os_list :: "string option \<Rightarrow> store \<Rightarrow> failure + (string \<times> string option \<times> nat) list \<Rightarrow> bool"

text \<open>
  What the documentation of \<open>object_store\<close> promises: every write is atomic and a failed one (a timeout
  included) took effect completely or not at all; \<open>PutMode::Create\<close> and \<open>copy_if_not_exists\<close>
  write only an absent key; a download returns the stored bytes and \<open>NotFound\<close> means that the key is absent.
  Nothing is assumed about listings and metadata.
\<close>

definition store_contract :: "object_store \<Rightarrow> bool" where
  "store_contract srv \<longleftrightarrow>
     (\<forall>k b m s r s'. os_put srv k b m s r s' \<longrightarrow>
        (isl r \<and> s' = s) \<or> (s' = s(k \<mapsto> b) \<and> (m = CreateIfAbsent \<longrightarrow> s k = None)))
     \<and> (\<forall>k s b. os_get srv k s (Inr b) \<longrightarrow> s k = Some b)
     \<and> (\<forall>k s t. os_get srv k s (Inl (Os (Os_NotFound t))) \<longrightarrow> s k = None)
     \<and> (\<forall>k s r s'. os_delete srv k s r s' \<longrightarrow> (isl r \<and> s' = s) \<or> s' = s(k := None))
     \<and> (\<forall>k l s r s'. os_copy srv k l s r s' \<longrightarrow>
        (isl r \<and> s' = s) \<or> (\<exists>b. s k = Some b \<and> s l = None \<and> s' = s(l \<mapsto> b)))"

lemma contract_put: "store_contract srv \<Longrightarrow> os_put srv k b m s r s' \<Longrightarrow>
    (isl r \<and> s' = s) \<or> (s' = s(k \<mapsto> b) \<and> (m = CreateIfAbsent \<longrightarrow> s k = None))"
  unfolding store_contract_def by (elim conjE) ((drule spec)+, erule (1) mp)

lemma contract_get: "store_contract srv \<Longrightarrow> os_get srv k s (Inr b) \<Longrightarrow> s k = Some b"
  unfolding store_contract_def by (elim conjE) ((drule spec)+, erule (1) mp)

lemma contract_missing: "store_contract srv \<Longrightarrow> os_get srv k s (Inl (Os (Os_NotFound t))) \<Longrightarrow> s k = None"
  unfolding store_contract_def by (elim conjE) ((drule spec)+, erule (1) mp)

lemma contract_delete: "store_contract srv \<Longrightarrow> os_delete srv k s r s' \<Longrightarrow> (isl r \<and> s' = s) \<or> s' = s(k := None)"
  unfolding store_contract_def by (elim conjE) ((drule spec)+, erule (1) mp)

lemma contract_copy: "store_contract srv \<Longrightarrow> os_copy srv k l s r s' \<Longrightarrow>
    (isl r \<and> s' = s) \<or> (\<exists>b. s k = Some b \<and> s l = None \<and> s' = s(l \<mapsto> b))"
  unfolding store_contract_def by (elim conjE) ((drule spec)+, erule (1) mp)

text \<open>Downloads that fail only because the key is absent.\<close>

definition reads_reliable :: "object_store \<Rightarrow> bool" where
  "reads_reliable srv \<longleftrightarrow> (\<forall>k s f. os_get srv k s (Inl f) \<longrightarrow> (\<exists>t. f = Os (Os_NotFound t)))"

text \<open>One request of a program.\<close>

inductive prog_step :: "object_store \<Rightarrow> store \<times> 'a prog \<Rightarrow> store \<times> 'a prog \<Rightarrow> bool" for srv where
  put: "os_put srv k b m s r s' \<Longrightarrow> prog_step srv (s, Do_put k b m c) (s', c r)"
| get: "os_get srv k s r \<Longrightarrow> prog_step srv (s, Do_get k c) (s, c r)"
| head: "os_head srv k s r \<Longrightarrow> prog_step srv (s, Do_head k c) (s, c r)"
| delete: "os_delete srv k s r s' \<Longrightarrow> prog_step srv (s, Do_delete k c) (s', c r)"
| copy: "os_copy srv k l s r s' \<Longrightarrow> prog_step srv (s, Do_copy k l c) (s', c r)"
| listing: "os_list srv p s r \<Longrightarrow> prog_step srv (s, Do_list p c) (s, c r)"

inductive_cases prog_step_cases:
  "prog_step srv (s, Done x) cfg"
  "prog_step srv (s, Do_put k b m c) cfg"
  "prog_step srv (s, Do_get k c) cfg"
  "prog_step srv (s, Do_head k c) cfg"
  "prog_step srv (s, Do_delete k c) cfg"
  "prog_step srv (s, Do_copy k l c) cfg"
  "prog_step srv (s, Do_list p c) cfg"

subsection \<open>Weakest preconditions\<close>

text \<open>Every step satisfies the guarantee \<open>G\<close>, and a result satisfies \<open>Q\<close> with the store it is returned in.\<close>

primrec wp :: "object_store \<Rightarrow> (store \<Rightarrow> store \<Rightarrow> bool) \<Rightarrow> ('a \<Rightarrow> store \<Rightarrow> bool) \<Rightarrow> 'a prog \<Rightarrow> store \<Rightarrow> bool" where
  "wp srv G Q (Done x) = (\<lambda>s. Q x s)"
| "wp srv G Q (Do_put k b m c) = (\<lambda>s. \<forall>r s'. os_put srv k b m s r s' \<longrightarrow> G s s' \<and> wp srv G Q (c r) s')"
| "wp srv G Q (Do_get k c) = (\<lambda>s. \<forall>r. os_get srv k s r \<longrightarrow> wp srv G Q (c r) s)"
| "wp srv G Q (Do_head k c) = (\<lambda>s. \<forall>r. os_head srv k s r \<longrightarrow> wp srv G Q (c r) s)"
| "wp srv G Q (Do_delete k c) = (\<lambda>s. \<forall>r s'. os_delete srv k s r s' \<longrightarrow> G s s' \<and> wp srv G Q (c r) s')"
| "wp srv G Q (Do_copy k l c) = (\<lambda>s. \<forall>r s'. os_copy srv k l s r s' \<longrightarrow> G s s' \<and> wp srv G Q (c r) s')"
| "wp srv G Q (Do_list p c) = (\<lambda>s. \<forall>r. os_list srv p s r \<longrightarrow> wp srv G Q (c r) s)"

lemma wp_bind [simp]: "wp srv G Q (prog_bind p f) = wp srv G (\<lambda>x. wp srv G Q (f x)) p"
  by (induction p) (simp_all add: fun_eq_iff)

lemma wp_mono: "wp srv G Q p s \<Longrightarrow> (\<And>x s. Q x s \<Longrightarrow> Q' x s) \<Longrightarrow> wp srv G Q' p s"
  by (induction p arbitrary: s) auto

lemma wp_guarantee:
  assumes "wp srv G Q p s" "A s" "\<And>s s'. A s \<Longrightarrow> G s s' \<Longrightarrow> A s' \<and> G' s s'"
  shows "wp srv G' (\<lambda>x s. Q x s \<and> A s) p s"
  using assms(1,2)
proof (induction p arbitrary: s)
  case (Do_put k b m c)
  show ?case
    unfolding wp.simps
  proof (intro allI impI)
    fix r s'
    assume "os_put srv k b m s r s'"
    then have step: "G s s'" and rest: "wp srv G Q (c r) s'"
      using Do_put.prems(1) by simp_all
    show "G' s s' \<and> wp srv G' (\<lambda>x s. Q x s \<and> A s) (c r) s'"
      using assms(3) [OF Do_put.prems(2) step] Do_put.IH [OF rangeI rest] by blast
  qed
next
  case (Do_delete k c)
  show ?case
    unfolding wp.simps
  proof (intro allI impI)
    fix r s'
    assume "os_delete srv k s r s'"
    then have step: "G s s'" and rest: "wp srv G Q (c r) s'"
      using Do_delete.prems(1) by simp_all
    show "G' s s' \<and> wp srv G' (\<lambda>x s. Q x s \<and> A s) (c r) s'"
      using assms(3) [OF Do_delete.prems(2) step] Do_delete.IH [OF rangeI rest] by blast
  qed
next
  case (Do_copy k l c)
  show ?case
    unfolding wp.simps
  proof (intro allI impI)
    fix r s'
    assume "os_copy srv k l s r s'"
    then have step: "G s s'" and rest: "wp srv G Q (c r) s'"
      using Do_copy.prems(1) by simp_all
    show "G' s s' \<and> wp srv G' (\<lambda>x s. Q x s \<and> A s) (c r) s'"
      using assms(3) [OF Do_copy.prems(2) step] Do_copy.IH [OF rangeI rest] by blast
  qed
qed auto

lemma wp_step: "prog_step srv (s, p) (s', p') \<Longrightarrow> wp srv G Q p s \<Longrightarrow> wp srv G Q p' s' \<and> (s' = s \<or> G s s')"
  by (cases p) (auto elim!: prog_step_cases)

text \<open>
  Readers: programs that only download.  Between their requests the store moves along \<open>G\<close>.
\<close>

primrec rwp :: "object_store \<Rightarrow> (store \<Rightarrow> store \<Rightarrow> bool) \<Rightarrow> ('a \<Rightarrow> store \<Rightarrow> bool) \<Rightarrow> 'a prog \<Rightarrow> store \<Rightarrow> bool" where
  "rwp srv G Q (Done x) = (\<lambda>s. \<forall>s'. G\<^sup>*\<^sup>* s s' \<longrightarrow> Q x s')"
| "rwp srv G Q (Do_get k c) = (\<lambda>s. \<forall>s'. G\<^sup>*\<^sup>* s s' \<longrightarrow> (\<forall>r. os_get srv k s' r \<longrightarrow> rwp srv G Q (c r) s'))"
| "rwp srv G Q (Do_put k b m c) = (\<lambda>s. False)"
| "rwp srv G Q (Do_head k c) = (\<lambda>s. False)"
| "rwp srv G Q (Do_delete k c) = (\<lambda>s. False)"
| "rwp srv G Q (Do_copy k l c) = (\<lambda>s. False)"
| "rwp srv G Q (Do_list p c) = (\<lambda>s. False)"

lemma rwp_stable: "rwp srv G Q p s \<Longrightarrow> G\<^sup>*\<^sup>* s s' \<Longrightarrow> rwp srv G Q p s'"
  by (cases p) (simp_all, (meson rtranclp_trans)+)

lemma rwp_bind: "rwp srv G (\<lambda>x. rwp srv G Q (f x)) p s \<Longrightarrow> rwp srv G Q (prog_bind p f) s"
  by (induction p arbitrary: s) auto

lemma rwp_mono: "rwp srv G Q p s \<Longrightarrow> (\<And>x s. Q x s \<Longrightarrow> Q' x s) \<Longrightarrow> rwp srv G Q' p s"
  by (induction p arbitrary: s) auto

lemma rwp_step: "prog_step srv (s, p) (s', p') \<Longrightarrow> rwp srv G Q p s \<Longrightarrow> rwp srv G Q p' s' \<and> s' = s"
  by (cases p) (auto elim!: prog_step_cases)

subsection \<open>What publication leaves alone\<close>

text \<open>
  Locations of \<open>T\<close> are scratch space, locations of \<open>F\<close> may be created; every other object, and
  every object that exists outside \<open>T\<close>, stays as it is.
\<close>

definition extends :: "string set \<Rightarrow> string set \<Rightarrow> store \<Rightarrow> store \<Rightarrow> bool" where
  "extends T F s s' \<longleftrightarrow> (\<forall>k. k \<notin> T \<and> (k \<notin> F \<or> s k \<noteq> None) \<longrightarrow> s' k = s k)"

lemma extends_refl [simp]: "extends T F s s"
  by (simp add: extends_def)

lemma extends_trans: "extends T F s t \<Longrightarrow> extends T F t u \<Longrightarrow> extends T F s u"
  unfolding extends_def by metis

lemma extends_scratch: "k \<in> T \<Longrightarrow> extends T F s (s(k := v))"
  by (auto simp: extends_def)

lemma extends_create: "k \<in> F \<Longrightarrow> s k = None \<Longrightarrow> extends T F s (s(k \<mapsto> b))"
  by (auto simp: extends_def)

lemma extends_keeps: "extends T F s s' \<Longrightarrow> k \<notin> T \<Longrightarrow> s k = Some b \<Longrightarrow> s' k = Some b"
  by (simp add: extends_def)

definition loc_in :: "client \<Rightarrow> string \<Rightarrow> string set \<Rightarrow> bool" where
  "loc_in cl key L \<longleftrightarrow> (\<forall>l. parse_key cl key = Inr l \<longrightarrow> l \<in> L)"

definition holds_at :: "client \<Rightarrow> string \<Rightarrow> bytes \<Rightarrow> store \<Rightarrow> bool" where
  "holds_at cl key bs s \<longleftrightarrow> (\<exists>l. parse_key cl key = Inr l \<and> s l = Some bs)"

lemma holds_at_extends:
  "holds_at cl key bs s \<Longrightarrow> extends T F s s' \<Longrightarrow> loc_in cl key (- T) \<Longrightarrow> holds_at cl key bs s'"
  unfolding holds_at_def loc_in_def using extends_keeps by (metis ComplD)

lemma wp_client_put:
  assumes "store_contract srv" "loc_in cl key (if mode = Overwrite then T else F)" "\<And>r s'. extends T F s s' \<Longrightarrow> Q r s'"
  shows "wp srv (extends T F) Q (client_put cl key bs mode) s"
proof (cases "parse_key cl key")
  case (Inr l)
  have "extends T F s s'" if "os_put srv l bs mode s r s'" for r s'
    using contract_put [OF assms(1) that] assms(2) Inr
    by (cases mode) (auto simp: loc_in_def extends_scratch extends_create)
  then show ?thesis
    using assms(3) Inr by (simp add: client_put_def)
qed (simp add: client_put_def assms(3))

lemma wp_client_delete:
  assumes "store_contract srv" "loc_in cl key T" "\<And>r s'. extends T F s s' \<Longrightarrow> Q r s'"
  shows "wp srv (extends T F) Q (client_delete cl key) s"
proof (cases "parse_key cl key")
  case (Inr l)
  have "extends T F s s'" if "os_delete srv l s r s'" for r s'
    using contract_delete [OF assms(1) that] assms(2) Inr by (auto simp: loc_in_def extends_scratch)
  then show ?thesis
    using assms(3) Inr by (simp add: client_delete_def)
qed (simp add: client_delete_def assms(3))

lemma wp_client_copy:
  assumes "store_contract srv" "loc_in cl target F" "\<And>r s'. extends T F s s' \<Longrightarrow> Q r s'"
  shows "wp srv (extends T F) Q (client_copy_if_absent cl source target) s"
proof (cases "parse_key cl source")
  case source: (Inr k)
  show ?thesis
  proof (cases "parse_key cl target")
    case (Inr l)
    have "extends T F s s'" if "os_copy srv k l s r s'" for r s'
      using contract_copy [OF assms(1) that] assms(2) Inr by (auto simp: loc_in_def extends_create)
    then show ?thesis
      using assms(3) Inr source by (simp add: client_copy_if_absent_def)
  qed (simp add: client_copy_if_absent_def assms(3) source)
qed (simp add: client_copy_if_absent_def assms(3))

lemma wp_client_head: "(\<And>r. Q r s) \<Longrightarrow> wp srv G Q (client_head cl key) s"
  by (cases "parse_key cl key") (simp_all add: client_head_def)

lemma wp_client_list: "(\<And>r. Q r s) \<Longrightarrow> wp srv G Q (client_list cl pre) s"
  by (cases "optional_prefix cl pre") (simp_all add: client_list_def)

lemma client_run_not_found: "client_run cl (map_object_store_error_for_key key) f = NotFound x \<Longrightarrow> \<exists>t. f = Os (Os_NotFound t)"
  by (auto simp: client_run_def map_object_store_error_for_key_def map_backend_def split: failure.splits os_error.splits)

lemma parse_key_not_found: "parse_key cl key \<noteq> Inl (NotFound x)"
  by (simp add: parse_key_def Let_def split: sum.splits)

definition get_answer :: "client \<Rightarrow> string \<Rightarrow> store \<Rightarrow> StorageClientError + bytes \<Rightarrow> bool" where
  "get_answer cl key s r \<longleftrightarrow> (\<forall>bs. r = Inr bs \<longrightarrow> holds_at cl key bs s)
     \<and> (\<forall>x. r = Inl (NotFound x) \<longrightarrow> (\<exists>l. parse_key cl key = Inr l \<and> s l = None))"

lemma client_get_answer:
  assumes "store_contract srv" "parse_key cl key = Inr l" "os_get srv l s r"
  shows "get_answer cl key s (case r of Inl f \<Rightarrow> Inl (client_run cl (map_object_store_error_for_key key) f) | Inr bs \<Rightarrow> Inr bs)"
proof (cases r)
  case (Inl f)
  have "s l = None" if "client_run cl (map_object_store_error_for_key key) f = NotFound x" for x
    using client_run_not_found [OF that] contract_missing [OF assms(1)] assms(3) Inl by blast
  then show ?thesis
    using assms(2) Inl by (simp add: get_answer_def)
next
  case (Inr bs)
  then show ?thesis
    using contract_get [OF assms(1)] assms(2,3) by (simp add: get_answer_def holds_at_def)
qed

lemma wp_client_get:
  assumes "store_contract srv" "\<And>r. get_answer cl key s r \<Longrightarrow> Q r s"
  shows "wp srv G Q (client_get cl key) s"
proof (cases "parse_key cl key")
  case (Inl e)
  then have "get_answer cl key s (Inl e)"
    using parse_key_not_found by (auto simp: get_answer_def)
  then show ?thesis
    using assms(2) Inl by (simp add: client_get_def)
next
  case (Inr l)
  then show ?thesis
    using assms client_get_answer [OF assms(1) Inr] by (simp add: client_get_def)
qed

lemma wp_try_bind:
  assumes "wp srv G (\<lambda>r s. case r of Inl e \<Rightarrow> Q (Inl (conv e)) s | Inr x \<Rightarrow> wp srv G Q (f x) s) p s"
  shows "wp srv G Q (try_bind conv p f) s"
  using assms by (simp add: try_bind_def) (erule wp_mono, simp split: sum.splits)

subsection \<open>Publication is safe and exact\<close>

lemma wp_validate_object_size: "(\<And>r. Q r s) \<Longrightarrow> wp srv G Q (validate_object_size cl key n) s"
  unfolding validate_object_size_def
  by (rule wp_try_bind, rule wp_client_head) (simp split: sum.splits option.splits)

lemma wp_ensure_object_bytes:
  assumes "store_contract srv" "\<And>r. (\<forall>m. r = Inr m \<longrightarrow> holds_at cl key bs s) \<Longrightarrow> Q r s"
  shows "wp srv G Q (ensure_object_bytes cl key bs) s"
proof -
  have "wp srv G Q (try_bind (\<lambda>e. e) (client_get cl key) (\<lambda>actual.
      if actual \<noteq> bs then Done (Inl (Validation key ''object bytes do not match expected payload'')) else Done (Inr m))) s" for m
    by (rule wp_try_bind, rule wp_client_get [OF assms(1)]) (auto simp: get_answer_def assms(2) split: sum.splits)
  then show ?thesis
    unfolding ensure_object_bytes_def
    by (intro wp_try_bind wp_validate_object_size) (simp add: assms(2) split: sum.splits)
qed

lemma wp_try_reuse:
  assumes "store_contract srv" "\<And>r. (\<forall>p. r = Inr (Some p) \<longrightarrow> holds_at cl key bs s) \<Longrightarrow> Q r s"
  shows "wp srv G Q (try_reuse_identical_final cl key bs checksum) s"
proof -
  have "wp srv G Q (try_bind (\<lambda>e. e) (client_get cl key) (\<lambda>actual.
      if actual \<noteq> bs then Done (Inl (Validation key ''final object exists with matching size but different content''))
      else Done (Inr (Some p)))) s" for p
    by (rule wp_try_bind, rule wp_client_get [OF assms(1)]) (auto simp: get_answer_def assms(2) split: sum.splits)
  then show ?thesis
    unfolding try_reuse_identical_final_def wp_bind
    by (intro wp_client_head) (simp add: assms(2) split: sum.splits option.splits StorageClientError.splits)
qed

definition publishes :: "client \<Rightarrow> string \<Rightarrow> bytes \<Rightarrow> string set \<Rightarrow> string set \<Rightarrow> store
    \<Rightarrow> StorageClientError + PublishedObject \<Rightarrow> store \<Rightarrow> bool" where
  "publishes cl final_key bs T F s0 r s \<longleftrightarrow> extends T F s0 s \<and> (\<forall>p. r = Inr p \<longrightarrow> holds_at cl final_key bs s)"

lemma wp_drop_temp:
  assumes "store_contract srv" "loc_in cl temp T" "loc_in cl final_key (- T)" "extends T F s0 s"
    and "\<And>p. r = Inr p \<Longrightarrow> holds_at cl final_key bs s"
  shows "wp srv (extends T F) (publishes cl final_key bs T F s0) (prog_bind (client_delete cl temp) (\<lambda>_. Done r)) s"
proof -
  have "publishes cl final_key bs T F s0 r s'" if "extends T F s s'" for s'
    using extends_trans [OF assms(4) that] holds_at_extends [OF assms(5) that assms(3)] by (simp add: publishes_def)
  then show ?thesis
    using wp_client_delete [OF assms(1,2)] by simp
qed

lemma publishes_error: "extends T F s0 s \<Longrightarrow> publishes cl final_key bs T F s0 (Inl e) s"
  by (simp add: publishes_def)

lemma wp_found_or_error:
  assumes "store_contract srv" "loc_in cl temp T" "loc_in cl final_key (- T)" "extends T F s0 s"
    and "wp srv (extends T F) (publishes cl final_key bs T F s0) p s"
  shows "wp srv (extends T F) (publishes cl final_key bs T F s0)
    (try_bind (\<lambda>e. e) (try_reuse_identical_final cl final_key bs checksum) (\<lambda>found. case found of
        None \<Rightarrow> p
      | Some published \<Rightarrow> prog_bind (client_delete cl temp) (\<lambda>_. Done (Inr (published\<lparr>pb_temp_key := temp\<rparr>))))) s"
proof (rule wp_try_bind, rule wp_try_reuse [OF assms(1)])
  fix r :: "StorageClientError + PublishedObject option"
  assume found: "\<forall>q. r = Inr (Some q) \<longrightarrow> holds_at cl final_key bs s"
  show "case r of Inl e \<Rightarrow> publishes cl final_key bs T F s0 (Inl e) s
    | Inr found \<Rightarrow> wp srv (extends T F) (publishes cl final_key bs T F s0) (case found of None \<Rightarrow> p
      | Some published \<Rightarrow> prog_bind (client_delete cl temp) (\<lambda>_. Done (Inr (published\<lparr>pb_temp_key := temp\<rparr>)))) s"
  proof (cases r)
    case (Inr found')
    then show ?thesis
      using found assms(5) wp_drop_temp [OF assms(1-4)] by (cases found') (simp_all del: wp_bind)
  qed (simp add: publishes_error [OF assms(4)])
qed

lemma wp_reuse_or_reject:
  assumes "store_contract srv" "loc_in cl temp T" "loc_in cl final_key (- T)" "extends T F s0 s"
  shows "wp srv (extends T F) (publishes cl final_key bs T F s0) (reuse_or_reject cl temp final_key bs checksum) s"
  unfolding reuse_or_reject_def by (rule wp_found_or_error [OF assms]) (simp add: publishes_error [OF assms(4)])

lemma wp_verify_final:
  assumes "store_contract srv" "loc_in cl temp T" "loc_in cl final_key (- T)" "extends T F s0 s"
  shows "wp srv (extends T F) (publishes cl final_key bs T F s0) (verify_final cl temp final_key bs checksum) s"
  unfolding verify_final_def
proof (rule wp_try_bind, rule wp_ensure_object_bytes [OF assms(1)])
  fix r :: "StorageClientError + StorageObjectMeta"
  assume ok: "\<forall>m. r = Inr m \<longrightarrow> holds_at cl final_key bs s"
  show "case r of Inl e \<Rightarrow> publishes cl final_key bs T F s0 (Inl e) s
    | Inr m \<Rightarrow> wp srv (extends T F) (publishes cl final_key bs T F s0) (prog_bind (client_delete cl temp) (\<lambda>_.
        Done (Inr \<lparr>pb_final_key = final_key, pb_temp_key = temp, pb_byte_size = length bs, pb_etag = sm_etag m,
          pb_checksum = checksum, pb_reused_existing = False\<rparr>))) s"
    using wp_drop_temp [OF assms] ok publishes_error [OF assms(4)] by (cases r) (simp_all del: wp_bind)
qed

lemma wp_put_final:
  assumes "store_contract srv" "loc_in cl temp T" "loc_in cl final_key (F - T)" "extends T F s0 s"
  shows "wp srv (extends T F) (publishes cl final_key bs T F s0) (put_final cl temp final_key bs checksum) s"
  unfolding put_final_def wp_bind
proof (rule wp_client_put [OF assms(1)])
  show "loc_in cl final_key (if CreateIfAbsent = Overwrite then T else F)"
    using assms(3) by (simp add: loc_in_def)
  fix r s'
  assume "extends T F s s'"
  then have s': "extends T F s0 s'"
    by (rule extends_trans [OF assms(4)])
  have keep: "loc_in cl final_key (- T)"
    using assms(3) by (simp add: loc_in_def)
  note rules = wp_verify_final [OF assms(1,2) keep s'] wp_reuse_or_reject [OF assms(1,2) keep s']
    wp_drop_temp [OF assms(1,2) keep s', of "Inl e" for e]
  show "wp srv (extends T F) (publishes cl final_key bs T F s0) (case r of
      Inr _ \<Rightarrow> verify_final cl temp final_key bs checksum
    | Inl (AlreadyExists _) \<Rightarrow> reuse_or_reject cl temp final_key bs checksum
    | Inl put_error \<Rightarrow> prog_bind (client_delete cl temp) (\<lambda>_. Done (Inl put_error))) s'"
    using rules by (simp del: wp_bind split: sum.splits StorageClientError.splits)
qed

lemma wp_copy_final:
  assumes "store_contract srv" "loc_in cl temp T" "loc_in cl final_key (F - T)" "extends T F s0 s"
  shows "wp srv (extends T F) (publishes cl final_key bs T F s0) (copy_final cl temp final_key bs checksum) s"
  unfolding copy_final_def wp_bind
proof (rule wp_client_copy [OF assms(1)])
  show "loc_in cl final_key F"
    using assms(3) by (simp add: loc_in_def)
  fix r s'
  assume "extends T F s s'"
  then have s': "extends T F s0 s'"
    by (rule extends_trans [OF assms(4)])
  have keep: "loc_in cl final_key (- T)"
    using assms(3) by (simp add: loc_in_def)
  note rules = wp_verify_final [OF assms(1,2) keep s'] wp_reuse_or_reject [OF assms(1,2) keep s']
    wp_put_final [OF assms(1-3) s'] wp_drop_temp [OF assms(1,2) keep s', of "Inl e" for e]
  show "wp srv (extends T F) (publishes cl final_key bs T F s0) (case r of
      Inr () \<Rightarrow> verify_final cl temp final_key bs checksum
    | Inl (AlreadyExists _) \<Rightarrow> reuse_or_reject cl temp final_key bs checksum
    | Inl e \<Rightarrow>
        if \<not> is_not_implemented e then prog_bind (client_delete cl temp) (\<lambda>_. Done (Inl e))
        else put_final cl temp final_key bs checksum) s'"
    using rules by (simp del: wp_bind split: sum.splits StorageClientError.splits unit.splits)
qed

lemma publish_immutable_object_safe:
  assumes "store_contract srv" "loc_in cl temp T" "loc_in cl final_key (F - T)"
  shows "wp srv (extends T F) (publishes cl final_key bs T F s) (publish_immutable_object sha256 cl temp final_key bs) s"
  unfolding publish_immutable_object_def Let_def
proof (rule wp_try_bind, rule wp_client_put [OF assms(1)])
  show "loc_in cl temp (if Overwrite = Overwrite then T else F)"
    using assms(2) by simp
  fix r :: "StorageClientError + PutOutcome" and s1
  assume s1: "extends T F s s1"
  have keep: "loc_in cl final_key (- T)"
    using assms(3) by (simp add: loc_in_def)
  note found = wp_found_or_error [OF assms(1,2) keep s1 wp_copy_final [OF assms s1]]
  show "case r of Inl e \<Rightarrow> publishes cl final_key bs T F s (Inl e) s1
    | Inr _ \<Rightarrow> wp srv (extends T F) (publishes cl final_key bs T F s)
      (try_bind (\<lambda>e. e) (ensure_object_bytes cl temp bs) (\<lambda>_.
       try_bind (\<lambda>e. e) (try_reuse_identical_final cl final_key bs (content_checksum_sha256_hex sha256 bs)) (\<lambda>reused. case reused of
           None \<Rightarrow> copy_final cl temp final_key bs (content_checksum_sha256_hex sha256 bs)
         | Some published \<Rightarrow> prog_bind (client_delete cl temp) (\<lambda>_. Done (Inr (published\<lparr>pb_temp_key := temp\<rparr>)))))) s1"
  proof (cases r)
    case (Inr _)
    have "wp srv (extends T F) (publishes cl final_key bs T F s)
      (try_bind (\<lambda>e. e) (ensure_object_bytes cl temp bs) (\<lambda>_.
       try_bind (\<lambda>e. e) (try_reuse_identical_final cl final_key bs (content_checksum_sha256_hex sha256 bs)) (\<lambda>reused. case reused of
           None \<Rightarrow> copy_final cl temp final_key bs (content_checksum_sha256_hex sha256 bs)
         | Some published \<Rightarrow> prog_bind (client_delete cl temp) (\<lambda>_. Done (Inr (published\<lparr>pb_temp_key := temp\<rparr>)))))) s1"
      by (rule wp_try_bind, rule wp_ensure_object_bytes [OF assms(1)])
        (use found publishes_error [OF s1] in \<open>simp split: sum.splits\<close>)
    then show ?thesis
      by (simp add: Inr)
  qed (simp add: publishes_error [OF s1])
qed

lemma rwp_client_get:
  assumes "store_contract srv"
    and "\<And>s' r. G\<^sup>*\<^sup>* s s' \<Longrightarrow> get_answer cl key s' r \<Longrightarrow>
      (reads_reliable srv \<Longrightarrow> \<not> isl (parse_key cl key) \<Longrightarrow> (\<forall>e. r = Inl e \<longrightarrow> (\<exists>y. e = NotFound y))) \<Longrightarrow> rwp srv G Q (f r) s'"
  shows "rwp srv G Q (prog_bind (client_get cl key) f) s"
proof (cases "parse_key cl key")
  case (Inl e)
  then have "get_answer cl key s (Inl e)"
    using parse_key_not_found by (auto simp: get_answer_def)
  then have "rwp srv G Q (f (Inl e)) s"
    by (rule assms(2) [OF rtranclp.rtrancl_refl]) (simp add: Inl)
  then show ?thesis
    by (simp add: client_get_def Inl)
next
  case (Inr l)
  have "rwp srv G Q (f (case r of Inl g \<Rightarrow> Inl (client_run cl (map_object_store_error_for_key key) g) | Inr bs \<Rightarrow> Inr bs)) s'"
    if "G\<^sup>*\<^sup>* s s'" "os_get srv l s' r" for s' r
  proof (rule assms(2) [OF that(1) client_get_answer [OF assms(1) Inr that(2)]])
    assume "reads_reliable srv"
    then have "\<exists>t. g = Os (Os_NotFound t)" if "r = Inl g" for g
      using \<open>os_get srv l s' r\<close> that unfolding reads_reliable_def by blast
    then show "\<forall>e. (case r of Inl g \<Rightarrow> Inl (client_run cl (map_object_store_error_for_key key) g) | Inr bs \<Rightarrow> Inr bs) = Inl e
        \<longrightarrow> (\<exists>y. e = NotFound y)"
      by (cases r) (auto simp: client_run_def map_object_store_error_for_key_def)
  qed
  then show ?thesis
    by (simp add: client_get_def Inr)
qed

text \<open>Programs are finite, so against a store that answers every request they return.\<close>

definition answers :: "object_store \<Rightarrow> bool" where
  "answers srv \<longleftrightarrow> (\<forall>k b m s. \<exists>r s'. os_put srv k b m s r s') \<and> (\<forall>k s. \<exists>r. os_get srv k s r) \<and> (\<forall>k s. \<exists>r. os_head srv k s r)
     \<and> (\<forall>k s. \<exists>r s'. os_delete srv k s r s') \<and> (\<forall>k l s. \<exists>r s'. os_copy srv k l s r s') \<and> (\<forall>p s. \<exists>r. os_list srv p s r)"

lemma prog_step_smaller:
  assumes "prog_step srv (s, p) (s', p')" "\<And>t. \<exists>u x. (prog_step srv)\<^sup>*\<^sup>* (t, p') (u, Done x)"
  shows "\<exists>u x. (prog_step srv)\<^sup>*\<^sup>* (s, p) (u, Done x)"
  using assms(2) [of s'] converse_rtranclp_into_rtranclp [of "prog_step srv", OF assms(1)] by blast

lemma prog_finishes:
  assumes "answers srv"
  shows "\<exists>u x. (prog_step srv)\<^sup>*\<^sup>* (s, p) (u, Done x)"
proof (induction p arbitrary: s)
  case (Done x)
  show ?case
    by blast
next
  case (Do_put k b m c)
  obtain r s' where "os_put srv k b m s r s'"
    using assms unfolding answers_def by meson
  then have "prog_step srv (s, Do_put k b m c) (s', c r)"
    by (rule prog_step.put)
  then show ?case
    by (rule prog_step_smaller) (rule Do_put.IH [OF rangeI])
next
  case (Do_get k c)
  obtain r where "os_get srv k s r"
    using assms unfolding answers_def by meson
  then have "prog_step srv (s, Do_get k c) (s, c r)"
    by (rule prog_step.get)
  then show ?case
    by (rule prog_step_smaller) (rule Do_get.IH [OF rangeI])
next
  case (Do_head k c)
  obtain r where "os_head srv k s r"
    using assms unfolding answers_def by meson
  then have "prog_step srv (s, Do_head k c) (s, c r)"
    by (rule prog_step.head)
  then show ?case
    by (rule prog_step_smaller) (rule Do_head.IH [OF rangeI])
next
  case (Do_delete k c)
  obtain r s' where "os_delete srv k s r s'"
    using assms unfolding answers_def by meson
  then have "prog_step srv (s, Do_delete k c) (s', c r)"
    by (rule prog_step.delete)
  then show ?case
    by (rule prog_step_smaller) (rule Do_delete.IH [OF rangeI])
next
  case (Do_copy k l c)
  obtain r s' where "os_copy srv k l s r s'"
    using assms unfolding answers_def by meson
  then have "prog_step srv (s, Do_copy k l c) (s', c r)"
    by (rule prog_step.copy)
  then show ?case
    by (rule prog_step_smaller) (rule Do_copy.IH [OF rangeI])
next
  case (Do_list p c)
  obtain r where "os_list srv p s r"
    using assms unfolding answers_def by meson
  then have "prog_step srv (s, Do_list p c) (s, c r)"
    by (rule prog_step.listing)
  then show ?case
    by (rule prog_step_smaller) (rule Do_list.IH [OF rangeI])
qed

end
