(* ===== verification/Manifest_Publish.thy ===== *)
theory Manifest_Publish
  imports Manifest_Shards Object_Store
begin

text \<open>
  Publishing and loading a manifest through the storage client (\<open>koldstore-manifest/src/io.rs\<close>).  The
  writer publishes the content-addressed shards, then replaces the root, then removes shards no root names;
  a reader loads the root and its shards and retries once with a fresh root.  The theorem at the end shows
  that a reader running beside a writer, or after a writer that stopped anywhere, loads either the old or
  the new manifest.
\<close>

subsection \<open>External code\<close>

record json_ext =
  shard_to_vec :: "ManifestShard \<Rightarrow> string + bytes"
  shard_from_slice :: "bytes \<Rightarrow> string + ManifestShard"
  manifest_to_vec :: "Manifest \<Rightarrow> string + bytes"
  manifest_from_slice :: "bytes \<Rightarrow> string + Manifest"
  hex_decode :: "string \<Rightarrow> string + bytes"
  sha256 :: "bytes \<Rightarrow> bytes"

datatype io_error =
    Manifest_error manifest_error
  | Storage_error StorageClientError
  | Serde_error string
  | Missing_reference string
  | Checksum_mismatch string
  | Invalid_manifest_key string
  | Load_failed io_error io_error

subsection \<open>Keys\<close>

definition table_prefix_from_manifest_key :: "string \<Rightarrow> io_error + string" where
  "table_prefix_from_manifest_key object_key =
     ok_or (Invalid_manifest_key object_key) (strip_suffix ''/manifest.json'' (trim_matches CHR ''/'' object_key))"

definition is_manifest_shard_key :: "string \<Rightarrow> string \<Rightarrow> bool" where
  "is_manifest_shard_key pre key =
     (case Option.bind (strip_prefix pre key) (strip_prefix ''/'') of
        None \<Rightarrow> False
      | Some relative \<Rightarrow> (case split_once CHR ''/'' relative of
          None \<Rightarrow> False
        | Some (folder, file_name) \<Rightarrow> CHR ''/'' \<notin> set file_name \<and> parse_folder_name folder \<noteq> None
            \<and> prefix ''manifest-shard-'' file_name \<and> suffix ''.json'' file_name))"

subsection \<open>Writing\<close>

definition manifest_shard_to_json_bytes :: "json_ext \<Rightarrow> ManifestShard \<Rightarrow> io_error + bytes" where
  "manifest_shard_to_json_bytes x shard = (case shard_to_vec x shard of Inl e \<Rightarrow> Inl (Serde_error e) | Inr bs \<Rightarrow> Inr bs)"

definition manifest_to_json_bytes :: "json_ext \<Rightarrow> Manifest \<Rightarrow> io_error + bytes" where
  "manifest_to_json_bytes x m = (case manifest_to_vec x m of Inl e \<Rightarrow> Inl (Serde_error e) | Inr bs \<Rightarrow> Inr bs)"

definition manifest_from_json_bytes :: "json_ext \<Rightarrow> bytes \<Rightarrow> io_error + Manifest" where
  "manifest_from_json_bytes x bs = (case manifest_from_slice x bs of Inl e \<Rightarrow> Inl (Serde_error e) | Inr m \<Rightarrow> Inr m)"

definition manifest_shard_from_json_bytes :: "json_ext \<Rightarrow> bytes \<Rightarrow> io_error + ManifestShard" where
  "manifest_shard_from_json_bytes x bs = (case shard_from_slice x bs of Inl e \<Rightarrow> Inl (Serde_error e) | Inr sh \<Rightarrow> Inr sh)"

definition previous_shard_refs :: "json_ext \<Rightarrow> client \<Rightarrow> string \<Rightarrow> Manifest \<Rightarrow> (io_error + ManifestShardRef list) prog" where
  "previous_shard_refs x cl object_key next_root =
     prog_bind (client_get cl object_key) (\<lambda>r. case r of
       Inl (NotFound _) \<Rightarrow> Done (Inr [])
     | Inl e \<Rightarrow> Done (Inl (Storage_error e))
     | Inr bs \<Rightarrow> (case manifest_from_json_bytes x bs of
           Inl _ \<Rightarrow> Done (Inr [])
         | Inr root \<Rightarrow>
             if m_version root \<noteq> MANIFEST_VERSION \<or> m_segments root \<noteq> [] \<or> m_table root \<noteq> m_table next_root
                \<or> m_namespace root \<noteq> m_namespace next_root
             then Done (Inr []) else Done (Inr (m_shards root))))"

text \<open>
  The loop over the exported shards; \<open>uuid i\<close> is the fresh identifier of the i-th round and
  \<open>hashes\<close> the map of the previous root's paths to digests.
\<close>

fun publish_shards ::
    "json_ext \<Rightarrow> client \<Rightarrow> (nat \<Rightarrow> string) \<Rightarrow> string \<Rightarrow> (string \<rightharpoonup> string) \<Rightarrow> ManifestShardRef list \<Rightarrow> nat
      \<Rightarrow> (string \<times> ManifestShard) list \<Rightarrow> (io_error + unit) prog" where
  "publish_shards x cl uuid pre hashes refs i [] = Done (Inr ())"
| "publish_shards x cl uuid pre hashes refs i ((relative_path, shard) # rest) =
     (case find (\<lambda>r. ref_path r = relative_path) refs of
        None \<Rightarrow> Done (Inl (Missing_reference relative_path))
      | Some shard_ref \<Rightarrow>
          if hashes relative_path = Some (ref_content_sha256 shard_ref)
          then publish_shards x cl uuid pre hashes refs (i + 1) rest
          else (case manifest_shard_to_json_bytes x shard of
              Inl e \<Rightarrow> Done (Inl e)
            | Inr bs \<Rightarrow>
                try_bind Storage_error
                  (publish_immutable_object (sha256 x) cl
                    (temp_object_key pre ''manifest-shard'' (unique_temp_file_name (uuid i) ''manifest-shard.json''))
                    (join_object_key pre relative_path) bs)
                  (\<lambda>_. publish_shards x cl uuid pre hashes refs (i + 1) rest)))"

fun delete_objects :: "client \<Rightarrow> string \<Rightarrow> string list \<Rightarrow> StorageObject list \<Rightarrow> (io_error + unit) prog" where
  "delete_objects cl pre referenced [] = Done (Inr ())"
| "delete_objects cl pre referenced (object # objects) =
     (if is_manifest_shard_key pre (so_key object) \<and> so_key object \<notin> set referenced
      then try_bind Storage_error (client_delete cl (so_key object)) (\<lambda>_. delete_objects cl pre referenced objects)
      else delete_objects cl pre referenced objects)"

fun remove_in_folders :: "client \<Rightarrow> string \<Rightarrow> string list \<Rightarrow> string list \<Rightarrow> (io_error + unit) prog" where
  "remove_in_folders cl pre referenced [] = Done (Inr ())"
| "remove_in_folders cl pre referenced (folder # folders) =
     try_bind Storage_error (client_list cl (join_object_key pre folder)) (\<lambda>objects.
     try_bind (\<lambda>e. e) (delete_objects cl pre referenced objects) (\<lambda>_.
     remove_in_folders cl pre referenced folders))"

definition remove_unreferenced_manifest_shards ::
    "client \<Rightarrow> string \<Rightarrow> Manifest \<Rightarrow> ManifestShardRef list \<Rightarrow> (io_error + unit) prog" where
  "remove_unreferenced_manifest_shards cl pre root previous_shards =
     (let referenced = map (\<lambda>shard. join_object_key pre (ref_path shard)) (m_shards root);
          folders = sort (remdups (filter (\<lambda>folder. parse_folder_name folder \<noteq> None)
            (map ref_folder (m_shards root @ previous_shards)))) in
      remove_in_folders cl pre referenced folders)"

definition write_manifest_with_client ::
    "json_ext \<Rightarrow> client \<Rightarrow> (nat \<Rightarrow> string) \<Rightarrow> string \<Rightarrow> Manifest \<Rightarrow> (io_error + unit) prog" where
  "write_manifest_with_client x cl uuid object_key manifest =
     (case split_manifest_for_export (hex_decode x) (shard_to_vec x) (sha256 x) manifest of
        Inl e \<Rightarrow> Done (Inl (Manifest_error e))
      | Inr export \<Rightarrow> (case table_prefix_from_manifest_key object_key of
          Inl e \<Rightarrow> Done (Inl e)
        | Inr pre \<Rightarrow>
            try_bind (\<lambda>e. e) (previous_shard_refs x cl object_key (exp_root export)) (\<lambda>previous_shards.
            let previous_hashes = map_of (rev (map (\<lambda>shard. (ref_path shard, ref_content_sha256 shard)) previous_shards)) in
            try_bind (\<lambda>e. e)
              (publish_shards x cl uuid pre previous_hashes (m_shards (exp_root export)) 0 (exp_shards export)) (\<lambda>_.
            case manifest_to_json_bytes x (exp_root export) of
              Inl e \<Rightarrow> Done (Inl e)
            | Inr root_bytes \<Rightarrow>
                try_bind Storage_error (publish_mutable_object cl object_key root_bytes) (\<lambda>_.
                remove_unreferenced_manifest_shards cl pre (exp_root export) previous_shards)))))"

subsection \<open>Loading\<close>

fun load_shards :: "json_ext \<Rightarrow> client \<Rightarrow> string \<Rightarrow> ManifestShardRef list \<Rightarrow> (io_error + ManifestShard list) prog" where
  "load_shards x cl pre [] = Done (Inr [])"
| "load_shards x cl pre (shard_ref # refs) =
     try_bind Storage_error (client_get cl (join_object_key pre (ref_path shard_ref))) (\<lambda>bs.
     if content_checksum_sha256_hex (sha256 x) bs \<noteq> ref_content_sha256 shard_ref
     then Done (Inl (Checksum_mismatch (ref_path shard_ref)))
     else (case manifest_shard_from_json_bytes x bs of
         Inl e \<Rightarrow> Done (Inl e)
       | Inr shard \<Rightarrow> try_bind (\<lambda>e. e) (load_shards x cl pre refs) (\<lambda>shards. Done (Inr (shard # shards)))))"

definition merge_loaded_root :: "json_ext \<Rightarrow> client \<Rightarrow> string \<Rightarrow> Manifest \<Rightarrow> (io_error + Manifest) prog" where
  "merge_loaded_root x cl pre root =
     try_bind (\<lambda>e. e) (load_shards x cl pre (m_shards root)) (\<lambda>shards.
     Done (case merge_manifest_shards (hex_decode x) root shards of Inl e \<Rightarrow> Inl (Manifest_error e) | Inr m \<Rightarrow> Inr m))"

text \<open>
  One round of the retry loop: the result it returns at once, or the manifest-level outcome of the merge,
  which the first round retries and the second returns.
\<close>

definition load_attempt ::
    "json_ext \<Rightarrow> client \<Rightarrow> string \<Rightarrow> string \<Rightarrow> (io_error \<Rightarrow> (io_error + Manifest option) prog)
      \<Rightarrow> (io_error + Manifest option) prog" where
  "load_attempt x cl object_key pre on_error =
     prog_bind (client_get cl object_key) (\<lambda>r. case r of
       Inl (NotFound _) \<Rightarrow> Done (Inr None)
     | Inl e \<Rightarrow> Done (Inl (Storage_error e))
     | Inr bs \<Rightarrow> (case manifest_from_json_bytes x bs of
           Inl e \<Rightarrow> Done (Inl e)
         | Inr root \<Rightarrow> prog_bind (merge_loaded_root x cl pre root) (\<lambda>r. case r of
             Inr manifest \<Rightarrow> Done (Inr (Some manifest))
           | Inl e \<Rightarrow> on_error e)))"

definition try_load_manifest_with_client ::
    "json_ext \<Rightarrow> client \<Rightarrow> string \<Rightarrow> (io_error + Manifest option) prog" where
  "try_load_manifest_with_client x cl object_key =
     (case table_prefix_from_manifest_key object_key of
        Inl e \<Rightarrow> Done (Inl e)
      | Inr pre \<Rightarrow> load_attempt x cl object_key pre (\<lambda>first.
          load_attempt x cl object_key pre (\<lambda>error. Done (Inl (Load_failed error first)))))"

subsection \<open>The keys of a table\<close>

definition clean_prefix :: "string \<Rightarrow> bool" where
  "clean_prefix pre \<longleftrightarrow> pre \<noteq> [] \<and> plain_char (hd pre) \<and> hd pre \<noteq> CHR ''/'' \<and> last pre \<noteq> CHR ''/''"

text \<open>\<open>Path::parse\<close> keeps a path that has no slash at its ends as it is.\<close>

definition path_faithful :: "client \<Rightarrow> bool" where
  "path_faithful cl \<longleftrightarrow> (\<forall>t p. t \<noteq> [] \<longrightarrow> hd t \<noteq> CHR ''/'' \<longrightarrow> last t \<noteq> CHR ''/'' \<longrightarrow> cl_path_parse cl t = Inr p \<longrightarrow> p = t)"

definition root_key :: "string \<Rightarrow> string" where
  "root_key pre = pre @ ''/manifest.json''"

definition shard_key :: "string \<Rightarrow> string \<Rightarrow> string" where
  "shard_key pre path = pre @ ''/'' @ path"

definition shard_path :: "string \<Rightarrow> bool" where
  "shard_path p \<longleftrightarrow> (\<exists>folder file. p = folder @ ''/'' @ file \<and> folder \<noteq> [] \<and> list_all is_digit folder
     \<and> suffix ''.json'' file)"

definition scratch_keys :: "string set" where
  "scratch_keys = {k. suffix ''.tmp'' k}"

definition shard_keys :: "string \<Rightarrow> string set" where
  "shard_keys pre = {k. \<exists>p. shard_path p \<and> k = shard_key pre p}"

lemma parse_key_clean:
  assumes "path_faithful cl" "clean_prefix pre" "rest \<noteq> []" "plain_char (last rest)" "last rest \<noteq> CHR ''/''"
    and "parse_key cl (pre @ ''/'' @ rest) = Inr l"
  shows "l = pre @ ''/'' @ rest"
proof -
  let ?k = "pre @ ''/'' @ rest"
  have ends: "?k \<noteq> []" "hd ?k = hd pre" "last ?k = last rest"
    using assms(2,3) by (simp_all add: clean_prefix_def)
  then have "trim ?k = ?k"
    using assms(2,4) by (intro trim_ends) (simp_all add: clean_prefix_def)
  moreover have "trim_start_matches CHR ''/'' ?k = ?k"
    using assms(2) by (cases pre) (simp_all add: clean_prefix_def trim_start_matches_def)
  ultimately have "cl_path_parse cl ?k = Inr l"
    using assms(6) by (simp add: parse_key_def Let_def split: if_splits sum.splits option.splits)
  then show ?thesis
    using assms(1,2,5) ends unfolding path_faithful_def clean_prefix_def by metis
qed

lemma plain_ends: "plain_char CHR ''n''" "plain_char CHR ''p''"
  by (simp_all add: plain_char_def)

lemma suffix_last: "suffix x k \<Longrightarrow> x \<noteq> [] \<Longrightarrow> k \<noteq> [] \<and> last k = last x"
  by (auto simp: suffix_def)

lemma shard_path_ends: "shard_path p \<Longrightarrow> p \<noteq> [] \<and> is_digit (hd p) \<and> last p = CHR ''n''"
  using suffix_last [of "''.json''"] hd_digits by (auto simp: shard_path_def)

lemma root_key_parse: "path_faithful cl \<Longrightarrow> clean_prefix pre \<Longrightarrow> parse_key cl (root_key pre) = Inr l \<Longrightarrow> l = root_key pre"
  using parse_key_clean [of cl pre "''manifest.json''" l] by (simp add: root_key_def plain_ends)

lemma shard_key_parse:
  "path_faithful cl \<Longrightarrow> clean_prefix pre \<Longrightarrow> shard_path p \<Longrightarrow> parse_key cl (shard_key pre p) = Inr l \<Longrightarrow> l = shard_key pre p"
  using parse_key_clean [of cl pre p l] shard_path_ends [of p] by (simp add: shard_key_def plain_ends)

lemma shard_key_join: "clean_prefix pre \<Longrightarrow> shard_path p \<Longrightarrow> join_object_key pre p = shard_key pre p"
  using shard_path_ends [of p] digit_not_slash(1) by (auto simp: join_object_key_def shard_key_def clean_prefix_def)

lemma root_key_prefix: "clean_prefix pre \<Longrightarrow> table_prefix_from_manifest_key (root_key pre) = Inr pre"
  by (simp add: table_prefix_from_manifest_key_def root_key_def clean_prefix_def strip_suffix_def ok_or_def suffix_def)

lemma shard_key_inj: "shard_key pre p = shard_key pre q \<longleftrightarrow> p = q"
  by (simp add: shard_key_def)

lemma keys_apart:
  "root_key pre \<notin> scratch_keys" "root_key pre \<notin> shard_keys pre" "shard_keys pre \<inter> scratch_keys = {}"
proof -
  have "last k = CHR ''p''" if "k \<in> scratch_keys" for k
    using that suffix_last [of "''.tmp''" k] by (simp add: scratch_keys_def)
  moreover have "last (root_key pre) = CHR ''n''"
    by (simp add: root_key_def)
  moreover have "last k = CHR ''n''" if "k \<in> shard_keys pre" for k
    using that shard_path_ends by (auto simp: shard_keys_def shard_key_def)
  ultimately show "root_key pre \<notin> scratch_keys" "shard_keys pre \<inter> scratch_keys = {}"
    by fastforce+
  have "\<not> is_digit CHR ''m''"
    using digit_not_slash(3) by blast
  moreover have "hd p = CHR ''m''" if "root_key pre = shard_key pre p" for p
    using that by (simp add: root_key_def shard_key_def) (metis list.sel(1))
  ultimately show "root_key pre \<notin> shard_keys pre"
    using shard_path_ends by (auto simp: shard_keys_def) metis
qed

lemma content_path_shape:
  "shard_path (relative_manifest_shard_content_path n h)"
  "takeWhile (\<lambda>c. c \<noteq> CHR ''/'') (relative_manifest_shard_content_path n h) = pad_nat 3 n"
proof -
  obtain token where p: "relative_manifest_shard_content_path n h = pad_nat 3 n @ ''/'' @ ''manifest-shard-'' @ token @ ''.json''"
    by (auto simp: relative_manifest_shard_content_path_def)
  have "suffix ''.json'' (''manifest-shard-'' @ token @ ''.json'')"
    unfolding suffix_def by (metis append.assoc)
  then show "shard_path (relative_manifest_shard_content_path n h)"
    unfolding shard_path_def p using pad_nat_digits by blast
  show "takeWhile (\<lambda>c. c \<noteq> CHR ''/'') (relative_manifest_shard_content_path n h) = pad_nat 3 n"
    unfolding p using pad_nat_no_slash [of 3 n] by (subst takeWhile_append2) auto
qed

lemma content_path_folder: "relative_manifest_shard_content_path n h = relative_manifest_shard_content_path n' h' \<Longrightarrow> n = n'"
  using content_path_shape(2) pad_nat_inj by metis

lemma temp_key_scratch:
  assumes "path_faithful cl" "clean_prefix pre"
  shows "loc_in cl (temp_object_key pre ''manifest-shard'' (unique_temp_file_name u ''manifest-shard.json'')) scratch_keys"
proof -
  let ?file = "unique_temp_file_name u ''manifest-shard.json''"
  have tr: "trim_matches CHR ''/'' ?file = ?file"
    by (rule trim_matches_id) (simp_all add: unique_temp_file_name_def)
  let ?rest = "''.tmp/manifest-shard-'' @ ?file"
  have k: "temp_object_key pre ''manifest-shard'' ?file = pre @ ''/'' @ ?rest"
    unfolding temp_object_key_def tr Let_def using assms(2) by (simp add: clean_prefix_def)
  have "suffix ''.tmp'' (pre @ ''/'' @ ?rest)"
    unfolding unique_temp_file_name_def suffix_def by (metis append.assoc)
  moreover have "l = pre @ ''/'' @ ?rest" if "parse_key cl (pre @ ''/'' @ ?rest) = Inr l" for l
    by (rule parse_key_clean [OF assms _ _ _ that]) (simp_all add: unique_temp_file_name_def plain_ends)
  ultimately show ?thesis
    unfolding k loc_in_def scratch_keys_def by blast
qed

lemma manifest_shard_key_shape:
  assumes "is_manifest_shard_key pre k"
  shows "k \<in> shard_keys pre"
proof -
  obtain relative folder fname where r: "strip_prefix pre k = Some (CHR ''/'' # relative)"
    and so: "split_once CHR ''/'' relative = Some (folder, fname)" and f: "parse_folder_name folder \<noteq> None" "suffix ''.json'' fname"
    using assms unfolding is_manifest_shard_key_def
    by (auto simp: strip_prefix_def prefix_def split: option.splits if_splits bind_splits)
  have "k = pre @ ''/'' @ relative"
    using r by (auto simp: strip_prefix_def prefix_def split: if_splits)
  moreover have "relative = folder @ ''/'' @ fname"
  proof -
    obtain c where c: "dropWhile (\<lambda>x. x \<noteq> CHR ''/'') relative = c # fname" "folder = takeWhile (\<lambda>x. x \<noteq> CHR ''/'') relative"
      using so by (auto simp: split_once_def split: list.splits)
    then have "c = CHR ''/''"
      using hd_dropWhile [of "\<lambda>x. x \<noteq> CHR ''/''" relative] by simp
    then show ?thesis
      using c takeWhile_dropWhile_id [of "\<lambda>x. x \<noteq> CHR ''/''" relative] by (metis append_Cons append_Nil)
  qed
  moreover have "folder \<noteq> []" "list_all is_digit folder"
    using f(1) pad_nat_digits by (auto simp: parse_folder_name_iff)
  ultimately show ?thesis
    using f(2) unfolding shard_keys_def shard_path_def shard_key_def by blast
qed

subsection \<open>The phases of a publication\<close>

text \<open>
  \<open>before\<close>: the old root stands, only scratch objects and new shards have been written.  \<open>after\<close>: the
  new root stands with all its shards, and old shards are intact or removed.  \<open>moves\<close> is what the writer
  does to the store, one step at a time.
\<close>

definition before :: "string \<Rightarrow> store \<Rightarrow> store \<Rightarrow> bool" where
  "before pre s0 s \<longleftrightarrow> extends scratch_keys (shard_keys pre) s0 s"

definition after :: "string \<Rightarrow> store \<Rightarrow> bytes \<Rightarrow> (string \<times> bytes) list \<Rightarrow> store \<Rightarrow> bool" where
  "after pre s0 rb new s \<longleftrightarrow> s (root_key pre) = Some rb \<and> (\<forall>(p, b)\<in>set new. s (shard_key pre p) = Some b)
     \<and> (\<forall>k\<in>shard_keys pre. s0 k \<noteq> None \<longrightarrow> s k = None \<or> s k = s0 k)"

definition moves :: "string \<Rightarrow> store \<Rightarrow> bytes \<Rightarrow> (string \<times> bytes) list \<Rightarrow> store \<Rightarrow> store \<Rightarrow> bool" where
  "moves pre s0 rb new s s' \<longleftrightarrow>
     before pre s0 s \<and> extends scratch_keys (shard_keys pre) s s'
     \<or> before pre s0 s \<and> after pre s0 rb new s'
     \<or> after pre s0 rb new s \<and> after pre s0 rb new s'"

lemma before_keeps:
  assumes "before pre s0 s"
  shows "s (root_key pre) = s0 (root_key pre)" "k \<in> shard_keys pre \<Longrightarrow> s0 k = Some b \<Longrightarrow> s k = Some b"
proof -
  show "s (root_key pre) = s0 (root_key pre)"
    using assms keys_apart(1,2) unfolding before_def extends_def by blast
  show "s k = Some b" if "k \<in> shard_keys pre" "s0 k = Some b"
  proof -
    have "k \<notin> scratch_keys"
      using that(1) keys_apart(3) [of pre] by blast
    then show ?thesis
      using extends_keeps [OF assms [unfolded before_def]] that(2) by blast
  qed
qed

lemma before_extends: "before pre s0 s \<Longrightarrow> extends scratch_keys (shard_keys pre) s s' \<Longrightarrow> before pre s0 s'"
  unfolding before_def by (rule extends_trans)

lemma shard_key_apart: "shard_path p \<Longrightarrow> shard_key pre p \<in> shard_keys pre \<and> shard_key pre p \<notin> scratch_keys \<and> shard_key pre p \<noteq> root_key pre"
  using keys_apart [of pre] by (auto simp: shard_keys_def)

lemma after_stable:
  assumes paths: "\<forall>(p, b)\<in>set new. shard_path p" and a: "after pre s0 rb new s" and m: "moves pre s0 rb new s s'"
  shows "after pre s0 rb new s'"
proof (cases "after pre s0 rb new s'")
  case False
  then have b: "before pre s0 s" and e: "extends scratch_keys (shard_keys pre) s s'"
    using m unfolding moves_def by blast+
  have "s' (root_key pre) = s (root_key pre)"
    using e keys_apart(1,2) unfolding extends_def by blast
  moreover have "s' (shard_key pre p) = Some c" if "(p, c) \<in> set new" for p c
    using paths a that shard_key_apart [of p pre] extends_keeps [OF e] unfolding after_def by blast
  moreover have "s' k = None \<or> s' k = s0 k" if "k \<in> shard_keys pre" "s0 k \<noteq> None" for k
    using before_keeps(2) [OF before_extends [OF b e] that(1)] that(2) by auto
  ultimately show ?thesis
    using a by (auto simp: after_def)
qed

lemma moves_phase: "before pre s0 s \<or> after pre s0 rb new s \<Longrightarrow> moves pre s0 rb new s s' \<Longrightarrow> before pre s0 s' \<or> after pre s0 rb new s'"
  unfolding moves_def using before_extends by blast

lemma after_stable_star:
  "(moves pre s0 rb new)\<^sup>*\<^sup>* s s' \<Longrightarrow> \<forall>(p, b)\<in>set new. shard_path p \<Longrightarrow> after pre s0 rb new s \<Longrightarrow> after pre s0 rb new s'"
  by (induction rule: rtranclp_induct) (auto intro: after_stable)

lemma moves_phase_star:
  "(moves pre s0 rb new)\<^sup>*\<^sup>* s s' \<Longrightarrow> before pre s0 s \<or> after pre s0 rb new s \<Longrightarrow> before pre s0 s' \<or> after pre s0 rb new s'"
proof (induction rule: rtranclp_induct)
  case (step t u)
  then show ?case
    using moves_phase [of pre s0 t rb new u] by blast
qed

subsection \<open>The writer\<close>

lemma holds_at_root: "path_faithful cl \<Longrightarrow> clean_prefix pre \<Longrightarrow> holds_at cl (root_key pre) bs s \<Longrightarrow> s (root_key pre) = Some bs"
  unfolding holds_at_def using root_key_parse by blast

lemma holds_at_shard:
  "path_faithful cl \<Longrightarrow> clean_prefix pre \<Longrightarrow> shard_path p \<Longrightarrow> holds_at cl (shard_key pre p) bs s \<Longrightarrow> s (shard_key pre p) = Some bs"
  unfolding holds_at_def using shard_key_parse by blast

definition previous_of :: "json_ext \<Rightarrow> string \<Rightarrow> store \<Rightarrow> ManifestShardRef list \<Rightarrow> bool" where
  "previous_of x pre s refs \<longleftrightarrow> refs = []
     \<or> (\<exists>bs root. s (root_key pre) = Some bs \<and> manifest_from_slice x bs = Inr root \<and> refs = m_shards root)"

lemma wp_previous_shard_refs:
  assumes "store_contract srv" "path_faithful cl" "clean_prefix pre"
    and "\<And>r. (\<forall>refs. r = Inr refs \<longrightarrow> previous_of x pre s refs) \<Longrightarrow> Q r s"
  shows "wp srv G Q (previous_shard_refs x cl (root_key pre) next_root) s"
  unfolding previous_shard_refs_def wp_bind
proof (rule wp_client_get [OF assms(1)])
  fix r
  assume ans: "get_answer cl (root_key pre) s r"
  show "wp srv G Q (case r of
       Inl (NotFound _) \<Rightarrow> Done (Inr [])
     | Inl e \<Rightarrow> Done (Inl (Storage_error e))
     | Inr bs \<Rightarrow> (case manifest_from_json_bytes x bs of
           Inl _ \<Rightarrow> Done (Inr [])
         | Inr root \<Rightarrow>
             if m_version root \<noteq> MANIFEST_VERSION \<or> m_segments root \<noteq> [] \<or> m_table root \<noteq> m_table next_root
                \<or> m_namespace root \<noteq> m_namespace next_root
             then Done (Inr []) else Done (Inr (m_shards root)))) s"
  proof (cases r)
    case (Inl e)
    then show ?thesis
      by (cases e) (simp_all add: assms(4) previous_of_def)
  next
    case (Inr bs)
    then have "s (root_key pre) = Some bs"
      using ans holds_at_root [OF assms(2,3)] by (simp add: get_answer_def)
    then show ?thesis
      using Inr by (auto simp: assms(4) previous_of_def manifest_from_json_bytes_def split: sum.splits)
  qed
qed

text \<open>What the loop over the shards needs to know of each item.\<close>

definition shard_item :: "json_ext \<Rightarrow> string \<Rightarrow> (string \<rightharpoonup> string) \<Rightarrow> ManifestShardRef list \<Rightarrow> store \<Rightarrow> string \<times> ManifestShard \<Rightarrow> bytes \<Rightarrow> bool" where
  "shard_item x pre hashes refs s item bs \<longleftrightarrow> shard_path (fst item) \<and> shard_to_vec x (snd item) = Inr bs
     \<and> (\<exists>r. find (\<lambda>r. ref_path r = fst item) refs = Some r
         \<and> (hashes (fst item) = Some (ref_content_sha256 r) \<longrightarrow> s (shard_key pre (fst item)) = Some bs))"

lemma shard_item_extends:
  "shard_item x pre hashes refs s item bs \<Longrightarrow> extends scratch_keys F s s' \<Longrightarrow> shard_item x pre hashes refs s' item bs"
  unfolding shard_item_def using shard_key_apart extends_keeps by metis

lemma wp_publish_shards:
  assumes "store_contract srv" "path_faithful cl" "clean_prefix pre"
    and "list_all2 (shard_item x pre hashes refs s) items bss"
  shows "wp srv (extends scratch_keys (shard_keys pre))
    (\<lambda>r s'. extends scratch_keys (shard_keys pre) s s'
       \<and> (r = Inr () \<longrightarrow> list_all2 (\<lambda>item bs. s' (shard_key pre (fst item)) = Some bs) items bss))
    (publish_shards x cl uuid pre hashes refs i items) s"
  using assms(4)
proof (induction items arbitrary: bss s i)
  case Nil
  then show ?case
    by simp
next
  case (Cons item items)
  let ?E = "extends scratch_keys (shard_keys pre)"
  obtain bs bss' where bss: "bss = bs # bss'" and item: "shard_item x pre hashes refs s item bs"
    and rest: "list_all2 (shard_item x pre hashes refs s) items bss'"
    using Cons.prems by (auto simp: list_all2_Cons1)
  obtain path shard where it: "item = (path, shard)"
    by (cases item)
  obtain r where r: "find (\<lambda>r. ref_path r = path) refs = Some r"
    and skip: "hashes path = Some (ref_content_sha256 r) \<Longrightarrow> s (shard_key pre path) = Some bs"
    and path: "shard_path path" and json: "shard_to_vec x shard = Inr bs"
    using item by (auto simp: shard_item_def it)
  have continue: "wp srv ?E (\<lambda>r s'. ?E s s'
       \<and> (r = Inr () \<longrightarrow> list_all2 (\<lambda>item bs. s' (shard_key pre (fst item)) = Some bs) (item # items) bss))
      (publish_shards x cl uuid pre hashes refs (i + 1) items) t"
    if ext: "?E s t" and here: "t (shard_key pre path) = Some bs" for t
  proof (rule wp_mono [OF Cons.IH])
    show "list_all2 (shard_item x pre hashes refs t) items bss'"
      using rest by (rule list_all2_mono) (rule shard_item_extends [OF _ ext])
    fix q s'
    assume q: "?E t s' \<and> (q = Inr () \<longrightarrow> list_all2 (\<lambda>item bs. s' (shard_key pre (fst item)) = Some bs) items bss')"
    have "s' (shard_key pre path) = Some bs"
      using extends_keeps [OF conjunct1 [OF q]] here shard_key_apart [OF path] by blast
    then show "?E s s' \<and> (q = Inr () \<longrightarrow> list_all2 (\<lambda>item bs. s' (shard_key pre (fst item)) = Some bs) (item # items) bss)"
      using q extends_trans [OF ext] by (simp add: bss it)
  qed
  show ?case
  proof (cases "hashes path = Some (ref_content_sha256 r)")
    case True
    then show ?thesis
      using continue [of s] skip by (simp add: it r)
  next
    case False
    let ?temp = "temp_object_key pre ''manifest-shard'' (unique_temp_file_name (uuid i) ''manifest-shard.json'')"
    have final: "loc_in cl (shard_key pre path) (shard_keys pre - scratch_keys)"
      unfolding loc_in_def using shard_key_parse [OF assms(2,3) path] shard_key_apart [OF path] by blast
    note published = publish_immutable_object_safe [OF assms(1) temp_key_scratch [OF assms(2,3)] final]
    have "wp srv ?E (\<lambda>r s'. ?E s s'
         \<and> (r = Inr () \<longrightarrow> list_all2 (\<lambda>item bs. s' (shard_key pre (fst item)) = Some bs) (item # items) bss))
        (try_bind Storage_error (publish_immutable_object (sha256 x) cl ?temp (shard_key pre path) bs)
          (\<lambda>_. publish_shards x cl uuid pre hashes refs (i + 1) items)) s"
    proof (rule wp_try_bind, rule wp_mono [OF published])
      fix q :: "StorageClientError + PublishedObject" and t
      assume q: "publishes cl (shard_key pre path) bs scratch_keys (shard_keys pre) s q t"
      show "case q of Inl e \<Rightarrow> ?E s t \<and> (Inl (Storage_error e) = Inr () \<longrightarrow>
            list_all2 (\<lambda>item bs. t (shard_key pre (fst item)) = Some bs) (item # items) bss)
        | Inr _ \<Rightarrow> wp srv ?E (\<lambda>r s'. ?E s s'
            \<and> (r = Inr () \<longrightarrow> list_all2 (\<lambda>item bs. s' (shard_key pre (fst item)) = Some bs) (item # items) bss))
          (publish_shards x cl uuid pre hashes refs (i + 1) items) t"
        using q continue [of t] holds_at_shard [OF assms(2,3) path]
        by (cases q) (simp_all add: publishes_def)
    qed
    then show ?thesis
      using False by (simp add: it r json manifest_shard_to_json_bytes_def shard_key_join [OF assms(3) path])
  qed
qed

lemma wp_publish_root:
  assumes "store_contract srv" "path_faithful cl" "clean_prefix pre"
    and "before pre s0 s" "\<forall>(p, b)\<in>set new. shard_path p \<and> s (shard_key pre p) = Some b"
  shows "wp srv (moves pre s0 rb new)
    (\<lambda>r s'. (before pre s0 s' \<or> after pre s0 rb new s') \<and> (\<forall>u. r = Inr u \<longrightarrow> after pre s0 rb new s'))
    (publish_mutable_object cl (root_key pre) rb) s"
proof -
  let ?Q = "\<lambda>(r :: StorageClientError + PutOutcome) s'.
    (before pre s0 s' \<or> after pre s0 rb new s') \<and> (\<forall>u. r = Inr u \<longrightarrow> after pre s0 rb new s')"
  have put: "after pre s0 rb new (s(root_key pre \<mapsto> rb))"
    unfolding after_def
  proof (intro conjI ballI impI)
    fix k
    assume k: "k \<in> shard_keys pre" "s0 k \<noteq> None"
    then have "k \<noteq> root_key pre" "s k = s0 k"
      using keys_apart(2) [of pre] before_keeps(2) [OF assms(4)] by auto
    then show "(s(root_key pre \<mapsto> rb)) k = None \<or> (s(root_key pre \<mapsto> rb)) k = s0 k"
      by simp
  next
    fix pb
    assume "pb \<in> set new"
    then show "case pb of (p, b) \<Rightarrow> (s(root_key pre \<mapsto> rb)) (shard_key pre p) = Some b"
      using assms(5) shard_key_apart [of "fst pb" pre] by (cases pb) auto
  qed simp
  have "wp srv (moves pre s0 rb new) (\<lambda>r s'. case r of Inl e \<Rightarrow> ?Q (Inl e) s'
      | Inr outcome \<Rightarrow> wp srv (moves pre s0 rb new) ?Q
          (try_bind (\<lambda>e. e) (validate_object_size cl (root_key pre) (length rb)) (\<lambda>_. Done (Inr outcome))) s')
      (client_put cl (root_key pre) rb Overwrite) s"
  proof (cases "parse_key cl (root_key pre)")
    case (Inl e)
    then show ?thesis
      using assms(4) by (simp add: client_put_def)
  next
    case (Inr l)
    then have l: "l = root_key pre"
      by (rule root_key_parse [OF assms(2,3)])
    have fin: "wp srv (moves pre s0 rb new) ?Q
        (try_bind (\<lambda>e. e) (validate_object_size cl (root_key pre) (length rb)) (\<lambda>_. Done (Inr outcome))) t"
      if "after pre s0 rb new t" for outcome t
      by (rule wp_try_bind, rule wp_validate_object_size) (simp add: that split: sum.splits)
    have step: "moves pre s0 rb new s s' \<and> (before pre s0 s' \<or> after pre s0 rb new s')"
      if "os_put srv l rb Overwrite s r s'" for r s'
      using contract_put [OF assms(1) that] put assms(4) by (auto simp: l moves_def)
    have "after pre s0 rb new s'" if "os_put srv l rb Overwrite s (Inr e) s'" for e s'
      using contract_put [OF assms(1) that] put by (auto simp: l)
    then show ?thesis
      using Inr fin step by (auto simp: client_put_def split: sum.splits)
  qed
  then show ?thesis
    unfolding publish_mutable_object_def by (rule wp_try_bind)
qed

lemma wp_delete_objects:
  assumes "store_contract srv" "path_faithful cl" "clean_prefix pre" "\<forall>(p, b)\<in>set new. shard_key pre p \<in> set referenced"
  shows "after pre s0 rb new s \<Longrightarrow>
    wp srv (moves pre s0 rb new) (\<lambda>r s'. after pre s0 rb new s') (delete_objects cl pre referenced objects) s"
proof (induction objects arbitrary: s)
  case (Cons object objects)
  let ?k = "so_key object"
  show ?case
  proof (cases "is_manifest_shard_key pre ?k \<and> ?k \<notin> set referenced")
    case True
    obtain p where p: "shard_path p" "?k = shard_key pre p"
      using manifest_shard_key_shape True by (auto simp: shard_keys_def)
    have gone: "after pre s0 rb new (s(?k := None))"
      unfolding after_def
    proof (intro conjI ballI impI)
      show "(s(?k := None)) (root_key pre) = Some rb"
        using Cons.prems shard_key_apart [OF p(1), of pre] p(2) by (auto simp: after_def)
    next
      fix pb
      assume pb: "pb \<in> set new"
      then have "shard_key pre (fst pb) \<noteq> ?k"
        using assms(4) True by (cases pb) auto
      then show "case pb of (p, b) \<Rightarrow> (s(?k := None)) (shard_key pre p) = Some b"
        using Cons.prems pb by (cases pb) (auto simp: after_def)
    next
      fix k
      assume "k \<in> shard_keys pre" "s0 k \<noteq> None"
      then show "(s(?k := None)) k = None \<or> (s(?k := None)) k = s0 k"
        using Cons.prems by (simp add: after_def)
    qed
    have "wp srv (moves pre s0 rb new) (\<lambda>r s'. case r of Inl e \<Rightarrow> after pre s0 rb new s'
        | Inr _ \<Rightarrow> wp srv (moves pre s0 rb new) (\<lambda>r s'. after pre s0 rb new s') (delete_objects cl pre referenced objects) s')
        (client_delete cl ?k) s"
    proof (cases "parse_key cl ?k")
      case (Inl e)
      then show ?thesis
        using Cons.prems by (simp add: client_delete_def)
    next
      case (Inr l)
      then have l: "l = ?k"
        using shard_key_parse [OF assms(2,3) p(1)] p(2) by simp
      have "moves pre s0 rb new s s' \<and> after pre s0 rb new s'" if "os_delete srv l s r s'" for r s'
        using contract_delete [OF assms(1) that] gone Cons.prems by (auto simp: l moves_def)
      then show ?thesis
        using Inr Cons.IH by (simp add: client_delete_def split: sum.splits)
    qed
    then show ?thesis
      using True by (simp add: wp_try_bind)
  next
    case False
    then show ?thesis
      using Cons by auto
  qed
qed simp

lemma wp_remove_in_folders:
  assumes "store_contract srv" "path_faithful cl" "clean_prefix pre" "\<forall>(p, b)\<in>set new. shard_key pre p \<in> set referenced"
  shows "after pre s0 rb new s \<Longrightarrow>
    wp srv (moves pre s0 rb new) (\<lambda>r s'. after pre s0 rb new s') (remove_in_folders cl pre referenced folders) s"
proof (induction folders arbitrary: s)
  case (Cons folder folders)
  have "wp srv (moves pre s0 rb new) (\<lambda>r s'. after pre s0 rb new s')
      (try_bind (\<lambda>e. e) (delete_objects cl pre referenced objects) (\<lambda>_. remove_in_folders cl pre referenced folders)) s" for objects
    by (rule wp_try_bind, rule wp_mono [OF wp_delete_objects [OF assms Cons.prems]]) (simp add: Cons.IH split: sum.splits)
  then show ?case
    unfolding remove_in_folders.simps
    by (intro wp_try_bind wp_client_list) (simp add: Cons.prems split: sum.splits)
qed simp

text \<open>
  A stored manifest: the root parses, every shard it names is there with its digest and parses, and the
  merge of the shards is the manifest; \<open>None\<close> is a table that was never published.
\<close>

definition stored_root :: "json_ext \<Rightarrow> string \<Rightarrow> store \<Rightarrow> Manifest \<Rightarrow> Manifest \<Rightarrow> bool" where
  "stored_root x pre s root m \<longleftrightarrow>
     (\<exists>bs. s (root_key pre) = Some bs \<and> manifest_from_slice x bs = Inr root)
     \<and> (\<exists>bss shards. list_all2 (\<lambda>r b. s (shard_key pre (ref_path r)) = Some b
            \<and> content_checksum_sha256_hex (sha256 x) b = ref_content_sha256 r) (m_shards root) bss
          \<and> list_all2 (\<lambda>b sh. shard_from_slice x b = Inr sh) bss shards
          \<and> merge_manifest_shards (hex_decode x) root shards = Inr m)"

definition stored :: "json_ext \<Rightarrow> string \<Rightarrow> store \<Rightarrow> Manifest option \<Rightarrow> bool" where
  "stored x pre s old \<longleftrightarrow> (case old of None \<Rightarrow> s (root_key pre) = None | Some m \<Rightarrow> \<exists>root. stored_root x pre s root m)"

definition export_bytes :: "json_ext \<Rightarrow> ShardedManifestExport \<Rightarrow> (string \<times> bytes) list" where
  "export_bytes x ex = map (\<lambda>(p, sh). (p, projr (shard_to_vec x sh))) (exp_shards ex)"

text \<open>No stored object has the digest of a different new shard.\<close>

definition no_collision :: "json_ext \<Rightarrow> store \<Rightarrow> ShardedManifestExport \<Rightarrow> bool" where
  "no_collision x s ex \<longleftrightarrow> (\<forall>k b p bs. s k = Some b \<longrightarrow> (p, bs) \<in> set (export_bytes x ex) \<longrightarrow>
     content_checksum_sha256_hex (sha256 x) b = content_checksum_sha256_hex (sha256 x) bs \<longrightarrow> b = bs)"

lemma find_unique: "distinct (map f xs) \<Longrightarrow> y \<in> set xs \<Longrightarrow> find (\<lambda>z. f z = f y) xs = Some y"
  by (induction xs) auto

lemma exported_folders_distinct:
  assumes "grouped h ss g" "res_list (export_shard to_vec sha m) g = Inr exported"
  shows "distinct (map fst exported)"
proof -
  have len: "length exported = length g"
    by (rule res_list_length [OF assms(2)])
  have folder: "fst (g ! i) = pad_nat 3 (fst (exported ! i))" if "i < length g" for i
    using res_list_nth [OF assms(2) that] parse_folder_name_iff
    by (cases "g ! i"; cases "exported ! i") (simp add: export_shard_Inr)
  have "distinct (map fst g)"
    using assms(1) unfolding grouped_def by (simp add: strict_sorted_iff)
  then show ?thesis
    using folder len by (simp add: distinct_conv_nth) metis
qed

lemma export_items:
  assumes "split_manifest_for_export hex to_vec sha m = Inr ex"
  shows "list_all2 (\<lambda>r (p, sh). p = ref_path r \<and> shard_path p
      \<and> (\<exists>bs. to_vec sh = Inr bs \<and> ref_content_sha256 r = content_checksum_sha256_hex sha bs))
    (m_shards (exp_root ex)) (exp_shards ex)" (is ?items)
    and "distinct (map ref_path (m_shards (exp_root ex)))"
proof -
  obtain g exported where g: "group_by_folder (validated_segment_folder hex) (m_segments m) [] = Inr g"
    and e: "res_list (export_shard to_vec sha m) g = Inr exported"
    and ex: "ex = \<lparr>exp_root = export_root m exported, exp_shards = map (snd \<circ> snd) exported\<rparr>"
    by (rule split_cases [OF assms])
  have item: "ref_path r = p \<and> p = relative_manifest_shard_content_path n (ref_content_sha256 r)
      \<and> (\<exists>bs. to_vec sh = Inr bs \<and> ref_content_sha256 r = content_checksum_sha256_hex sha bs)"
    if here: "(n, r, p, sh) \<in> set exported" for n r p sh
  proof -
    obtain i where i: "i < length g" "exported ! i = (n, r, p, sh)"
      using here res_list_length [OF e] unfolding in_set_conv_nth by auto
    then show ?thesis
      using res_list_nth [OF e i(1)] by (cases "g ! i") (auto simp: export_shard_Inr)
  qed
  have "list_all2 (\<lambda>r (p, sh). p = ref_path r \<and> shard_path p
      \<and> (\<exists>bs. to_vec sh = Inr bs \<and> ref_content_sha256 r = content_checksum_sha256_hex sha bs))
    (map (fst \<circ> snd) exported) (map (snd \<circ> snd) exported)"
    unfolding list_all2_map1 list_all2_map2 list_all2_same
    using item content_path_shape(1) by fastforce
  then show ?items
    by (simp add: ex)
  have dist: "distinct (map fst exported)"
    by (rule exported_folders_distinct [OF group_result(2) [OF g] e])
  have same: "fst a = fst b" if "a \<in> set exported" "b \<in> set exported" "ref_path (fst (snd a)) = ref_path (fst (snd b))" for a b
    using item [of "fst a" "fst (snd a)"] item [of "fst b" "fst (snd b)"] that content_path_folder
    by (cases a, cases b) (metis fst_conv snd_conv)
  have "inj_on (ref_path \<circ> fst \<circ> snd) (set exported)"
  proof (rule inj_onI)
    fix a b
    assume ab: "a \<in> set exported" "b \<in> set exported" "(ref_path \<circ> fst \<circ> snd) a = (ref_path \<circ> fst \<circ> snd) b"
    have "fst a = fst b"
      by (rule same [OF ab(1,2)]) (use ab(3) in simp)
    then show "a = b"
      using dist ab(1,2) unfolding distinct_map by (blast dest: inj_onD)
  qed
  then have "distinct (map (ref_path \<circ> fst \<circ> snd) exported)"
    using dist unfolding distinct_map by blast
  then show "distinct (map ref_path (m_shards (exp_root ex)))"
    by (simp add: ex comp_assoc)
qed

lemma export_bytes_items:
  assumes "split_manifest_for_export (hex_decode x) (shard_to_vec x) (sha256 x) m = Inr ex"
  shows "\<forall>(p, b)\<in>set (export_bytes x ex). shard_path p"
    and "list_all2 (\<lambda>r (p, b). p = ref_path r \<and> ref_content_sha256 r = content_checksum_sha256_hex (sha256 x) b)
      (m_shards (exp_root ex)) (export_bytes x ex)"
    and "list_all2 (\<lambda>(p, sh) (q, b). p = q \<and> shard_to_vec x sh = Inr b) (exp_shards ex) (export_bytes x ex)"
proof -
  note items = export_items(1) [OF assms]
  have each: "shard_path p \<and> shard_to_vec x sh = Inr (projr (shard_to_vec x sh))" if "(p, sh) \<in> set (exp_shards ex)" for p sh
  proof -
    obtain i where "i < length (exp_shards ex)" "exp_shards ex ! i = (p, sh)"
      using \<open>(p, sh) \<in> _\<close> by (auto simp: in_set_conv_nth)
    then show ?thesis
      using list_all2_nthD2 [OF items, of i] by auto
  qed
  then show "\<forall>(p, b)\<in>set (export_bytes x ex). shard_path p"
    by (auto simp: export_bytes_def)
  show "list_all2 (\<lambda>(p, sh) (q, b). p = q \<and> shard_to_vec x sh = Inr b) (exp_shards ex) (export_bytes x ex)"
    unfolding export_bytes_def list_all2_map2 list_all2_same using each by auto
  show "list_all2 (\<lambda>r (p, b). p = ref_path r \<and> ref_content_sha256 r = content_checksum_sha256_hex (sha256 x) b)
      (m_shards (exp_root ex)) (export_bytes x ex)"
    unfolding export_bytes_def list_all2_map2 using items by (rule list_all2_mono) auto
qed

lemma skipped_shard_present:
  assumes "previous_of x pre s refs" "stored x pre s old" "no_collision x s ex" "(p, bs) \<in> set (export_bytes x ex)"
    and "map_of (rev (map (\<lambda>r. (ref_path r, ref_content_sha256 r)) refs)) p = Some (content_checksum_sha256_hex (sha256 x) bs)"
  shows "s (shard_key pre p) = Some bs"
proof -
  obtain r where r: "r \<in> set refs" "ref_path r = p" "ref_content_sha256 r = content_checksum_sha256_hex (sha256 x) bs"
    using map_of_SomeD [OF assms(5)] by auto
  then obtain rbs root where root: "s (root_key pre) = Some rbs" "manifest_from_slice x rbs = Inr root" "refs = m_shards root"
    using assms(1) by (auto simp: previous_of_def)
  then obtain m where "old = Some m" "stored_root x pre s root m"
    using assms(2) by (auto simp: stored_def stored_root_def split: option.splits)
  then obtain bss where bss: "list_all2 (\<lambda>r b. s (shard_key pre (ref_path r)) = Some b
      \<and> content_checksum_sha256_hex (sha256 x) b = ref_content_sha256 r) refs bss"
    unfolding stored_root_def root(3) by blast
  then obtain b where "s (shard_key pre p) = Some b" "content_checksum_sha256_hex (sha256 x) b = ref_content_sha256 r"
    using r(1,2) by (auto simp: in_set_conv_nth list_all2_conv_all_nth)
  then show ?thesis
    using assms(3,4) r(3) unfolding no_collision_def by metis
qed

text \<open>The loop over the shards of an export finds each item's reference, and skips only what is stored.\<close>

lemma export_shard_items:
  assumes split: "split_manifest_for_export (hex_decode x) (shard_to_vec x) (sha256 x) m = Inr ex"
    and old: "stored x pre s0 old" and unique: "no_collision x s0 ex" and refs: "previous_of x pre s0 refs"
  shows "list_all2 (shard_item x pre (map_of (rev (map (\<lambda>r. (ref_path r, ref_content_sha256 r)) refs))) (m_shards (exp_root ex)) s0) (exp_shards ex) (map snd (export_bytes x ex))"
proof -
  let ?new = "export_bytes x ex" and ?hashes = "map_of (rev (map (\<lambda>r. (ref_path r, ref_content_sha256 r)) refs))"
  note facts = export_bytes_items [OF split]
  have "shard_item x pre ?hashes (m_shards (exp_root ex)) s0 (exp_shards ex ! i) (snd (?new ! i))" if i: "i < length (exp_shards ex)" for i
  proof -
    obtain p sh where ish: "exp_shards ex ! i = (p, sh)"
      by (cases "exp_shards ex ! i")
    have new_i: "?new ! i = (p, projr (shard_to_vec x sh))"
      using i by (simp add: export_bytes_def ish)
    have len: "length (m_shards (exp_root ex)) = length (exp_shards ex)" "length ?new = length (exp_shards ex)"
      using list_all2_lengthD [OF facts(2)] list_all2_lengthD [OF facts(3)] by simp_all
    have r: "ref_path (m_shards (exp_root ex) ! i) = p"
      "ref_content_sha256 (m_shards (exp_root ex) ! i) = content_checksum_sha256_hex (sha256 x) (snd (?new ! i))"
      using list_all2_nthD2 [OF facts(2), of i] len i by (simp_all add: new_i)
    have found: "find (\<lambda>r. ref_path r = p) (m_shards (exp_root ex)) = Some (m_shards (exp_root ex) ! i)"
      using find_unique [OF export_items(2) [OF split], of "m_shards (exp_root ex) ! i"] i len r(1) by simp
    have mem: "(p, snd (?new ! i)) \<in> set ?new"
      using i len new_i by (metis nth_mem prod.collapse fst_conv)
    have "shard_to_vec x sh = Inr (snd (?new ! i))"
      using list_all2_nthD [OF facts(3) i] by (simp add: ish new_i)
    moreover have "shard_path p"
      using facts(1) mem by blast
    moreover have "s0 (shard_key pre p) = Some (snd (?new ! i))" if "?hashes p = Some (ref_content_sha256 (m_shards (exp_root ex) ! i))"
      using skipped_shard_present [OF refs old unique mem] that unfolding r(2) by blast
    ultimately show ?thesis
      using found by (simp add: shard_item_def ish)
  qed
  then show "list_all2 (shard_item x pre ?hashes (m_shards (exp_root ex)) s0) (exp_shards ex) (map snd (export_bytes x ex))"
    using list_all2_lengthD [OF facts(3)] by (simp add: list_all2_conv_all_nth)
qed

lemma export_shards_present:
  assumes split: "split_manifest_for_export (hex_decode x) (shard_to_vec x) (sha256 x) m = Inr ex"
    and stored: "list_all2 (\<lambda>item bs. s (shard_key pre (fst item)) = Some bs) (exp_shards ex) (map snd (export_bytes x ex))"
  shows "\<forall>(p, b)\<in>set (export_bytes x ex). s (shard_key pre p) = Some b"
proof (clarify)
  fix p b
  assume "(p, b) \<in> set (export_bytes x ex)"
  then obtain i where i: "i < length (export_bytes x ex)" "(export_bytes x ex) ! i = (p, b)"
    by (auto simp: in_set_conv_nth)
  then show "s (shard_key pre p) = Some b"
    using list_all2_nthD2 [OF stored, of i] list_all2_nthD2 [OF export_bytes_items(3) [OF split] i(1)] by (auto split: prod.splits)
qed

lemma wp_publish_export:
  assumes contract: "store_contract srv" and path: "path_faithful cl" and pre: "clean_prefix pre" and split: "split_manifest_for_export (hex_decode x) (shard_to_vec x) (sha256 x) m = Inr ex"
    and old: "stored x pre s0 old" and unique: "no_collision x s0 ex" and refs: "previous_of x pre s0 refs"
  shows "wp srv (moves pre s0 rb (export_bytes x ex))
    (\<lambda>r s. before pre s0 s \<and> (r = Inr () \<longrightarrow> (\<forall>(p, b)\<in>set (export_bytes x ex). s (shard_key pre p) = Some b)))
    (publish_shards x cl uuid pre (map_of (rev (map (\<lambda>r. (ref_path r, ref_content_sha256 r)) refs))) (m_shards (exp_root ex)) 0 (exp_shards ex)) s0"
proof -
  have start: "before pre s0 s0"
    by (simp add: before_def)
  show ?thesis
    by (rule wp_mono [OF wp_guarantee [OF wp_publish_shards [OF contract path pre export_shard_items [OF split old unique refs]],
          where A = "before pre s0", OF start]])
      (use export_shards_present [OF split] before_extends in \<open>auto simp: moves_def\<close>)
qed

lemma wp_replace_root:
  assumes contract: "store_contract srv" and path: "path_faithful cl" and pre: "clean_prefix pre" and split: "split_manifest_for_export (hex_decode x) (shard_to_vec x) (sha256 x) m = Inr ex"
    and s: "before pre s0 s" "\<forall>(p, b)\<in>set (export_bytes x ex). s (shard_key pre p) = Some b"
  shows "wp srv (moves pre s0 rb (export_bytes x ex))
    (\<lambda>r s. (before pre s0 s \<or> after pre s0 rb (export_bytes x ex) s) \<and> (r = Inr () \<longrightarrow> after pre s0 rb (export_bytes x ex) s))
    (try_bind Storage_error (publish_mutable_object cl (root_key pre) rb)
      (\<lambda>_. remove_unreferenced_manifest_shards cl pre (exp_root ex) refs)) s"
proof -
  let ?new = "export_bytes x ex"
  let ?G = "moves pre s0 rb ?new"
  let ?Q = "\<lambda>(r :: io_error + unit) s. (before pre s0 s \<or> after pre s0 rb ?new s) \<and> (r = Inr () \<longrightarrow> after pre s0 rb ?new s)"
  note facts = export_bytes_items [OF split]
  have ready: "\<forall>(p, b)\<in>set ?new. shard_path p \<and> s (shard_key pre p) = Some b"
    using facts(1) s(2) by blast
  have named: "\<forall>(p, b)\<in>set ?new. shard_key pre p \<in> set (map (\<lambda>r. join_object_key pre (ref_path r)) (m_shards (exp_root ex)))"
  proof (clarify)
    fix p b
    assume pb: "(p, b) \<in> set ?new"
    then obtain i where i: "i < length ?new" "?new ! i = (p, b)"
      by (auto simp: in_set_conv_nth)
    then have r: "ref_path (m_shards (exp_root ex) ! i) = p" "i < length (m_shards (exp_root ex))"
      using list_all2_nthD2 [OF facts(2) i(1)] list_all2_lengthD [OF facts(2)] by simp_all
    have "shard_path p"
      using facts(1) pb by blast
    then have "shard_key pre p = join_object_key pre (ref_path (m_shards (exp_root ex) ! i))"
      using shard_key_join [OF pre] r(1) by simp
    then show "shard_key pre p \<in> set (map (\<lambda>r. join_object_key pre (ref_path r)) (m_shards (exp_root ex)))"
      unfolding set_map by (rule image_eqI) (rule nth_mem [OF r(2)])
  qed
  show ?thesis
  proof (rule wp_try_bind, rule wp_mono [OF wp_publish_root [OF contract path pre s(1) ready]])
    fix r :: "StorageClientError + PutOutcome" and t
    assume r: "(before pre s0 t \<or> after pre s0 rb ?new t) \<and> (\<forall>u. r = Inr u \<longrightarrow> after pre s0 rb ?new t)"
    have clean: "wp srv ?G ?Q (remove_unreferenced_manifest_shards cl pre (exp_root ex) refs) t" if "after pre s0 rb ?new t"
      unfolding remove_unreferenced_manifest_shards_def Let_def
      by (rule wp_mono [OF wp_remove_in_folders [OF contract path pre named that]]) simp
    show "case r of Inl e \<Rightarrow> ?Q (Inl (Storage_error e)) t
      | Inr _ \<Rightarrow> wp srv ?G ?Q (remove_unreferenced_manifest_shards cl pre (exp_root ex) refs) t"
      using r clean by (cases r) simp_all
  qed
qed

lemma wp_write_manifest:
  assumes contract: "store_contract srv" and path: "path_faithful cl" and pre: "clean_prefix pre"
    and split: "split_manifest_for_export (hex_decode x) (shard_to_vec x) (sha256 x) m = Inr ex"
    and json: "manifest_to_vec x (exp_root ex) = Inr rb"
    and old: "stored x pre s0 old" and unique: "no_collision x s0 ex"
  shows "wp srv (moves pre s0 rb (export_bytes x ex))
    (\<lambda>r s. (before pre s0 s \<or> after pre s0 rb (export_bytes x ex) s) \<and> (r = Inr () \<longrightarrow> after pre s0 rb (export_bytes x ex) s))
    (write_manifest_with_client x cl uuid (root_key pre) m) s0"
proof -
  let ?new = "export_bytes x ex"
  let ?G = "moves pre s0 rb ?new"
  let ?Q = "\<lambda>(r :: io_error + unit) s. (before pre s0 s \<or> after pre s0 rb ?new s) \<and> (r = Inr () \<longrightarrow> after pre s0 rb ?new s)"
  have start: "before pre s0 s0"
    by (simp add: before_def)
  show ?thesis
    unfolding write_manifest_with_client_def split root_key_prefix [OF pre] sum.case Let_def manifest_to_json_bytes_def json
  proof (rule wp_try_bind, rule wp_previous_shard_refs [OF contract path pre])
    fix r :: "io_error + ManifestShardRef list"
    assume r: "\<forall>refs. r = Inr refs \<longrightarrow> previous_of x pre s0 refs"
    show "case r of Inl e \<Rightarrow> ?Q (Inl e) s0
      | Inr refs \<Rightarrow> wp srv ?G ?Q (try_bind (\<lambda>e. e) (publish_shards x cl uuid pre
            (map_of (rev (map (\<lambda>shard. (ref_path shard, ref_content_sha256 shard)) refs))) (m_shards (exp_root ex)) 0 (exp_shards ex))
          (\<lambda>_. try_bind Storage_error (publish_mutable_object cl (root_key pre) rb)
            (\<lambda>_. remove_unreferenced_manifest_shards cl pre (exp_root ex) refs))) s0"
    proof (cases r)
      case (Inr refs)
      have "wp srv ?G ?Q (try_bind (\<lambda>e. e) (publish_shards x cl uuid pre
            (map_of (rev (map (\<lambda>shard. (ref_path shard, ref_content_sha256 shard)) refs))) (m_shards (exp_root ex)) 0 (exp_shards ex))
          (\<lambda>_. try_bind Storage_error (publish_mutable_object cl (root_key pre) rb)
            (\<lambda>_. remove_unreferenced_manifest_shards cl pre (exp_root ex) refs))) s0"
        by (rule wp_try_bind, rule wp_mono [OF wp_publish_export [OF contract path pre split old unique]])
          (use r Inr wp_replace_root [OF contract path pre split] in \<open>auto split: sum.splits\<close>)
      then show ?thesis
        by (simp add: Inr)
    qed (simp add: start)
  qed
qed

subsection \<open>The reader\<close>

lemma rwp_load_shards:
  assumes contract: "store_contract srv" and path: "path_faithful cl" and pre: "clean_prefix pre"
    and P: "\<And>s s'. P s \<Longrightarrow> G\<^sup>*\<^sup>* s s' \<Longrightarrow> P s'" and E: "\<And>s s'. E s \<Longrightarrow> G\<^sup>*\<^sup>* s s' \<Longrightarrow> E s'"
    and refs: "list_all2 (\<lambda>r b. shard_path (ref_path r) \<and> content_checksum_sha256_hex (sha256 x) b = ref_content_sha256 r
        \<and> (rel \<longrightarrow> \<not> isl (parse_key cl (shard_key pre (ref_path r))))
        \<and> (\<forall>s. P s \<longrightarrow> s (shard_key pre (ref_path r)) = Some b \<or> E s \<and> s (shard_key pre (ref_path r)) = None)) refs bss"
    and shards: "list_all2 (\<lambda>b sh. shard_from_slice x b = Inr sh) bss shards"
    and rel: "rel \<Longrightarrow> reads_reliable srv" and "P s"
  shows "rwp srv G (\<lambda>res s. P s \<and> (res = Inr shards \<or> isl res \<and> (E s \<or> \<not> rel))) (load_shards x cl pre refs) s"
  using refs shards \<open>P s\<close>
proof (induction refs arbitrary: bss shards s)
  case Nil
  then show ?case
    using P by auto
next
  case (Cons r refs)
  obtain b bss' sh shards' where lists: "bss = b # bss'" "shards = sh # shards'" and sh: "shard_from_slice x b = Inr sh"
    and rest: "list_all2 (\<lambda>r b. shard_path (ref_path r) \<and> content_checksum_sha256_hex (sha256 x) b = ref_content_sha256 r
        \<and> (rel \<longrightarrow> \<not> isl (parse_key cl (shard_key pre (ref_path r))))
        \<and> (\<forall>s. P s \<longrightarrow> s (shard_key pre (ref_path r)) = Some b \<or> E s \<and> s (shard_key pre (ref_path r)) = None)) refs bss'"
      "list_all2 (\<lambda>b sh. shard_from_slice x b = Inr sh) bss' shards'"
    and r: "shard_path (ref_path r)" "content_checksum_sha256_hex (sha256 x) b = ref_content_sha256 r"
      "rel \<longrightarrow> \<not> isl (parse_key cl (shard_key pre (ref_path r)))"
      "\<forall>s. P s \<longrightarrow> s (shard_key pre (ref_path r)) = Some b \<or> E s \<and> s (shard_key pre (ref_path r)) = None"
    using Cons.prems(1,2) by (auto simp: list_all2_Cons1)
  let ?Q = "\<lambda>(res :: io_error + ManifestShard list) s. P s \<and> (res = Inr shards \<or> isl res \<and> (E s \<or> \<not> rel))"
  have failed: "rwp srv G ?Q (Done (Inl e)) t" if "P t" "E t \<or> \<not> rel" for e t
    using that P E by auto
  have continue: "rwp srv G ?Q (try_bind (\<lambda>e. e) (load_shards x cl pre refs) (\<lambda>shards. Done (Inr (sh # shards)))) t" if "P t" for t
    unfolding try_bind_def
  proof (rule rwp_bind, rule rwp_mono [OF Cons.IH [OF rest that]])
    fix q :: "io_error + ManifestShard list" and u
    assume "P u \<and> (q = Inr shards' \<or> isl q \<and> (E u \<or> \<not> rel))"
    then show "rwp srv G ?Q (case q of Inl e \<Rightarrow> Done (Inl e) | Inr shards \<Rightarrow> Done (Inr (sh # shards))) u"
      using P E by (cases q) (auto simp: lists)
  qed
  show ?case
    unfolding load_shards.simps try_bind_def [of Storage_error] shard_key_join [OF pre r(1)]
  proof (rule rwp_client_get [OF contract])
    fix t q
    assume "G\<^sup>*\<^sup>* s t" and ans: "get_answer cl (shard_key pre (ref_path r)) t q"
      and missing: "reads_reliable srv \<Longrightarrow> \<not> isl (parse_key cl (shard_key pre (ref_path r))) \<Longrightarrow> \<forall>e. q = Inl e \<longrightarrow> (\<exists>y. e = NotFound y)"
    then have Pt: "P t"
      using P Cons.prems(3) by blast
    show "rwp srv G ?Q (case q of Inl e \<Rightarrow> Done (Inl (Storage_error e)) | Inr bs \<Rightarrow>
        if content_checksum_sha256_hex (sha256 x) bs \<noteq> ref_content_sha256 r
        then Done (Inl (Checksum_mismatch (ref_path r)))
        else (case manifest_shard_from_json_bytes x bs of
            Inl e \<Rightarrow> Done (Inl e)
          | Inr shard \<Rightarrow> try_bind (\<lambda>e. e) (load_shards x cl pre refs) (\<lambda>shards. Done (Inr (shard # shards))))) t"
    proof (cases q)
      case (Inl e)
      have "E t \<or> \<not> rel"
      proof (rule disjCI)
        assume "\<not> \<not> rel"
        then obtain y where "e = NotFound y"
          using missing rel r(3) Inl by blast
        then have "t (shard_key pre (ref_path r)) = None"
          using ans Inl shard_key_parse [OF path pre r(1)] by (auto simp: get_answer_def)
        then show "E t"
          using r(4) Pt by fastforce
      qed
      then show ?thesis
        using failed [OF Pt] by (simp add: Inl)
    next
      case (Inr bs)
      have "t (shard_key pre (ref_path r)) = Some bs"
        using ans holds_at_shard [OF path pre r(1)] by (simp add: get_answer_def Inr)
      then have "bs = b"
        using r(4) Pt by fastforce
      then show ?thesis
        using continue [OF Pt] r(2) sh by (simp add: Inr manifest_shard_from_json_bytes_def)
    qed
  qed
qed

lemma rwp_merge_loaded_root:
  assumes "rwp srv G (\<lambda>res s. P s \<and> (res = Inr shards \<or> isl res \<and> (E s \<or> \<not> rel))) (load_shards x cl pre (m_shards root)) s"
    and "\<And>s s'. P s \<Longrightarrow> G\<^sup>*\<^sup>* s s' \<Longrightarrow> P s'" "\<And>s s'. E s \<Longrightarrow> G\<^sup>*\<^sup>* s s' \<Longrightarrow> E s'"
    and "merge_manifest_shards (hex_decode x) root shards = Inr m"
  shows "rwp srv G (\<lambda>res s. P s \<and> (res = Inr m \<or> isl res \<and> (E s \<or> \<not> rel))) (merge_loaded_root x cl pre root) s"
  unfolding merge_loaded_root_def try_bind_def
proof (rule rwp_bind, rule rwp_mono [OF assms(1)])
  fix q :: "io_error + ManifestShard list" and u
  assume "P u \<and> (q = Inr shards \<or> isl q \<and> (E u \<or> \<not> rel))"
  then show "rwp srv G (\<lambda>res s. P s \<and> (res = Inr m \<or> isl res \<and> (E s \<or> \<not> rel))) (case q of
      Inl e \<Rightarrow> Done (Inl e)
    | Inr shards \<Rightarrow> Done (case merge_manifest_shards (hex_decode x) root shards of Inl e \<Rightarrow> Inl (Manifest_error e) | Inr m \<Rightarrow> Inr m)) u"
    using assms(2-4) by (cases q) auto
qed

text \<open>The setting of one publication: what is stored, what is written and what is assumed of the external code.\<close>

definition publication ::
    "json_ext \<Rightarrow> client \<Rightarrow> string \<Rightarrow> store \<Rightarrow> Manifest option \<Rightarrow> Manifest \<Rightarrow> ShardedManifestExport \<Rightarrow> bytes \<Rightarrow> bool" where
  "publication x cl pre s0 old m ex rb \<longleftrightarrow>
     path_faithful cl \<and> clean_prefix pre
     \<and> split_manifest_for_export (hex_decode x) (shard_to_vec x) (sha256 x) m = Inr ex
     \<and> length (m_segments m) \<le> u64_max
     \<and> manifest_to_vec x (exp_root ex) = Inr rb \<and> manifest_from_slice x rb = Inr (exp_root ex)
     \<and> (\<forall>(p, sh)\<in>set (exp_shards ex). \<forall>bs. shard_to_vec x sh = Inr bs \<longrightarrow> shard_from_slice x bs = Inr sh)
     \<and> stored x pre s0 old \<and> no_collision x s0 ex"

text \<open>Downloads are reliable and the client accepts the keys a reader asks for.\<close>

definition readable :: "object_store \<Rightarrow> json_ext \<Rightarrow> client \<Rightarrow> string \<Rightarrow> store \<Rightarrow> ShardedManifestExport \<Rightarrow> bool" where
  "readable srv x cl pre s0 ex \<longleftrightarrow> reads_reliable srv \<and> \<not> isl (parse_key cl (root_key pre))
     \<and> (\<forall>r\<in>set (m_shards (exp_root ex)). \<not> isl (parse_key cl (shard_key pre (ref_path r))))
     \<and> (\<forall>bs root. s0 (root_key pre) = Some bs \<longrightarrow> manifest_from_slice x bs = Inr root \<longrightarrow>
          (\<forall>r\<in>set (m_shards root). \<not> isl (parse_key cl (shard_key pre (ref_path r)))))"

lemma rwp_new_root:
  assumes contract: "store_contract srv" and pub: "publication x cl pre s0 old m ex rb"
    and s: "after pre s0 rb (export_bytes x ex) s"
  shows "rwp srv (moves pre s0 rb (export_bytes x ex))
    (\<lambda>res s. after pre s0 rb (export_bytes x ex) s
       \<and> (res = Inr (reordered (hex_decode x) (exp_root ex) m) \<or> isl res \<and> (False \<or> \<not> readable srv x cl pre s0 ex)))
    (merge_loaded_root x cl pre (exp_root ex)) s"
proof -
  let ?new = "export_bytes x ex"
  have path: "path_faithful cl" and pre: "clean_prefix pre"
    and split: "split_manifest_for_export (hex_decode x) (shard_to_vec x) (sha256 x) m = Inr ex"
    and small: "length (m_segments m) \<le> u64_max"
    and parse: "\<forall>(p, sh)\<in>set (exp_shards ex). \<forall>bs. shard_to_vec x sh = Inr bs \<longrightarrow> shard_from_slice x bs = Inr sh"
    using pub by (simp_all add: publication_def)
  note facts = export_bytes_items [OF split]
  have stable: "after pre s0 rb ?new s'" if "after pre s0 rb ?new s" "(moves pre s0 rb ?new)\<^sup>*\<^sup>* s s'" for s s'
    using after_stable_star [OF that(2) facts(1) that(1)] .
  have refs: "list_all2 (\<lambda>r b. shard_path (ref_path r) \<and> content_checksum_sha256_hex (sha256 x) b = ref_content_sha256 r
        \<and> (readable srv x cl pre s0 ex \<longrightarrow> \<not> isl (parse_key cl (shard_key pre (ref_path r))))
        \<and> (\<forall>s. after pre s0 rb ?new s \<longrightarrow> s (shard_key pre (ref_path r)) = Some b \<or> False \<and> s (shard_key pre (ref_path r)) = None))
      (m_shards (exp_root ex)) (map snd ?new)"
    unfolding list_all2_map2
  proof (rule list_all2_all_nthI)
    fix i
    assume i: "i < length (m_shards (exp_root ex))"
    obtain p b where pb: "?new ! i = (p, b)"
      by (cases "?new ! i")
    have "(p, b) \<in> set ?new"
      using i list_all2_lengthD [OF facts(2)] pb by (metis nth_mem)
    moreover have "p = ref_path (m_shards (exp_root ex) ! i)"
      "ref_content_sha256 (m_shards (exp_root ex) ! i) = content_checksum_sha256_hex (sha256 x) b"
      using list_all2_nthD [OF facts(2) i] by (simp_all add: pb)
    moreover have "readable srv x cl pre s0 ex \<Longrightarrow> \<not> isl (parse_key cl (shard_key pre (ref_path (m_shards (exp_root ex) ! i))))"
      using i by (simp add: readable_def)
    ultimately show "shard_path (ref_path (m_shards (exp_root ex) ! i))
        \<and> content_checksum_sha256_hex (sha256 x) (snd (?new ! i)) = ref_content_sha256 (m_shards (exp_root ex) ! i)
        \<and> (readable srv x cl pre s0 ex \<longrightarrow> \<not> isl (parse_key cl (shard_key pre (ref_path (m_shards (exp_root ex) ! i)))))
        \<and> (\<forall>s. after pre s0 rb ?new s \<longrightarrow> s (shard_key pre (ref_path (m_shards (exp_root ex) ! i))) = Some (snd (?new ! i))
            \<or> False \<and> s (shard_key pre (ref_path (m_shards (exp_root ex) ! i))) = None)"
      using facts(1) unfolding pb after_def by auto
  qed (use list_all2_lengthD [OF facts(2)] in simp)
  have shards: "list_all2 (\<lambda>b sh. shard_from_slice x b = Inr sh) (map snd ?new) (map snd (exp_shards ex))"
    unfolding list_all2_map1 list_all2_map2
  proof (rule list_all2_all_nthI)
    fix i
    assume i: "i < length ?new"
    obtain p sh where psh: "exp_shards ex ! i = (p, sh)"
      by (cases "exp_shards ex ! i")
    have "(p, sh) \<in> set (exp_shards ex)"
      using i list_all2_lengthD [OF facts(3)] psh by (metis nth_mem)
    then show "shard_from_slice x (snd (?new ! i)) = Inr (snd (exp_shards ex ! i))"
      using parse list_all2_nthD2 [OF facts(3) i] by (auto simp: psh split: prod.splits)
  qed (use list_all2_lengthD [OF facts(3)] in simp)
  have merged: "merge_manifest_shards (hex_decode x) (exp_root ex) (map snd (exp_shards ex))
      = Inr (reordered (hex_decode x) (exp_root ex) m)"
    by (rule merge_after_split [OF split small])
  show ?thesis
    by (rule rwp_merge_loaded_root [OF rwp_load_shards [OF contract path pre stable _ refs shards _ s] stable _ merged])
      (simp_all add: readable_def)
qed

lemma stored_root_paths:
  assumes "stored_root x pre s root m" "r \<in> set (m_shards root)"
  shows "shard_path (ref_path r)"
proof -
  obtain shards where mg: "merge_manifest_shards (hex_decode x) root shards = Inr m"
    using assms(1) by (auto simp: stored_root_def)
  obtain i where i: "i < length (m_shards root)" "m_shards root ! i = r"
    using assms(2) by (auto simp: in_set_conv_nth)
  then have "validate_shard (hex_decode x) root r (shards ! i) = Inr ()"
    using merge_Inr(1,3) [OF mg] by metis
  then obtain n where "ref_path r = relative_manifest_shard_content_path n (ref_content_sha256 r)"
    using validate_shard_path by blast
  then show ?thesis
    using content_path_shape(1) by simp
qed

lemma rwp_old_root:
  assumes contract: "store_contract srv" and pub: "publication x cl pre s0 (Some m0) m ex rb"
    and root: "s0 (root_key pre) = Some bs" "manifest_from_slice x bs = Inr root"
    and s: "before pre s0 s \<or> after pre s0 rb (export_bytes x ex) s"
  shows "rwp srv (moves pre s0 rb (export_bytes x ex))
    (\<lambda>res s. (before pre s0 s \<or> after pre s0 rb (export_bytes x ex) s)
       \<and> (res = Inr m0 \<or> isl res \<and> (after pre s0 rb (export_bytes x ex) s \<or> \<not> readable srv x cl pre s0 ex)))
    (merge_loaded_root x cl pre root) s"
proof -
  let ?new = "export_bytes x ex"
  let ?P = "\<lambda>s. before pre s0 s \<or> after pre s0 rb ?new s"
  have path: "path_faithful cl" and pre: "clean_prefix pre"
    and split: "split_manifest_for_export (hex_decode x) (shard_to_vec x) (sha256 x) m = Inr ex"
    and old: "stored_root x pre s0 root m0"
    using pub root by (auto simp: publication_def stored_def stored_root_def)
  note facts = export_bytes_items [OF split]
  have stable: "after pre s0 rb ?new s'" if "after pre s0 rb ?new s" "(moves pre s0 rb ?new)\<^sup>*\<^sup>* s s'" for s s'
    using after_stable_star [OF that(2) facts(1) that(1)] .
  have phase: "?P s'" if "?P s" "(moves pre s0 rb ?new)\<^sup>*\<^sup>* s s'" for s s'
    using moves_phase_star [OF that(2) that(1)] .
  obtain bss shards where bss: "list_all2 (\<lambda>r b. s0 (shard_key pre (ref_path r)) = Some b
        \<and> content_checksum_sha256_hex (sha256 x) b = ref_content_sha256 r) (m_shards root) bss"
    and shards: "list_all2 (\<lambda>b sh. shard_from_slice x b = Inr sh) bss shards"
    and merged: "merge_manifest_shards (hex_decode x) root shards = Inr m0"
    using old by (auto simp: stored_root_def)
  have refs: "list_all2 (\<lambda>r b. shard_path (ref_path r) \<and> content_checksum_sha256_hex (sha256 x) b = ref_content_sha256 r
        \<and> (readable srv x cl pre s0 ex \<longrightarrow> \<not> isl (parse_key cl (shard_key pre (ref_path r))))
        \<and> (\<forall>s. ?P s \<longrightarrow> s (shard_key pre (ref_path r)) = Some b
              \<or> after pre s0 rb ?new s \<and> s (shard_key pre (ref_path r)) = None)) (m_shards root) bss"
  proof (rule list_all2_all_nthI)
    show "length (m_shards root) = length bss"
      by (rule list_all2_lengthD [OF bss])
    fix i
    assume i: "i < length (m_shards root)"
    let ?r = "m_shards root ! i"
    have in_root: "?r \<in> set (m_shards root)"
      using i by simp
    have b: "s0 (shard_key pre (ref_path ?r)) = Some (bss ! i)"
      "content_checksum_sha256_hex (sha256 x) (bss ! i) = ref_content_sha256 ?r"
      using list_all2_nthD [OF bss i] by simp_all
    have sp: "shard_path (ref_path ?r)"
      by (rule stored_root_paths [OF old in_root])
    have "s (shard_key pre (ref_path ?r)) = Some (bss ! i) \<or> after pre s0 rb ?new s \<and> s (shard_key pre (ref_path ?r)) = None"
      if "?P s" for s
      using that before_keeps(2) [of pre s0 s] b(1) shard_key_apart [OF sp, of pre] unfolding after_def by (metis option.distinct(1))
    then show "shard_path (ref_path ?r) \<and> content_checksum_sha256_hex (sha256 x) (bss ! i) = ref_content_sha256 ?r
        \<and> (readable srv x cl pre s0 ex \<longrightarrow> \<not> isl (parse_key cl (shard_key pre (ref_path ?r))))
        \<and> (\<forall>s. ?P s \<longrightarrow> s (shard_key pre (ref_path ?r)) = Some (bss ! i)
              \<or> after pre s0 rb ?new s \<and> s (shard_key pre (ref_path ?r)) = None)"
      using sp b(2) root in_root unfolding readable_def by blast
  qed
  show ?thesis
    by (rule rwp_merge_loaded_root [OF rwp_load_shards [OF contract path pre phase stable refs shards _ s] phase stable merged])
      (simp_all add: readable_def)
qed

lemma rwp_attempt:
  assumes contract: "store_contract srv" and pub: "publication x cl pre s0 old m ex rb"
    and s: "before pre s0 s \<and> \<not> newest \<or> after pre s0 rb (export_bytes x ex) s"
    and retry: "\<And>e t. before pre s0 t \<and> \<not> newest \<or> after pre s0 rb (export_bytes x ex) t \<Longrightarrow>
      \<not> newest \<and> after pre s0 rb (export_bytes x ex) t \<or> \<not> readable srv x cl pre s0 ex \<Longrightarrow>
      rwp srv (moves pre s0 rb (export_bytes x ex)) (\<lambda>r s. R r) (on_error e) t"
    and R: "R (Inr (Some (reordered (hex_decode x) (exp_root ex) m)))" "\<not> newest \<Longrightarrow> R (Inr old)"
      "\<And>e. \<not> readable srv x cl pre s0 ex \<Longrightarrow> R (Inl e)"
  shows "rwp srv (moves pre s0 rb (export_bytes x ex)) (\<lambda>r s. R r) (load_attempt x cl (root_key pre) pre on_error) s"
proof -
  let ?new = "export_bytes x ex"
  let ?G = "moves pre s0 rb ?new" and ?P = "\<lambda>s. before pre s0 s \<and> \<not> newest \<or> after pre s0 rb ?new s"
  have path: "path_faithful cl" and pre: "clean_prefix pre"
    and split: "split_manifest_for_export (hex_decode x) (shard_to_vec x) (sha256 x) m = Inr ex"
    and new_root: "manifest_from_slice x rb = Inr (exp_root ex)" and old: "stored x pre s0 old"
    using pub by (simp_all add: publication_def)
  have phase: "?P t" if "?G\<^sup>*\<^sup>* s t" for t
    using moves_phase_star [OF that] after_stable_star [OF that export_bytes_items(1) [OF split]] s by blast
  have merged: "rwp srv ?G (\<lambda>r s. R r) (prog_bind (merge_loaded_root x cl pre root) (\<lambda>r. case r of
      Inr manifest \<Rightarrow> Done (Inr (Some manifest)) | Inl e \<Rightarrow> on_error e)) t"
    if bs: "t (root_key pre) = Some bs" and root: "manifest_from_slice x bs = Inr root" and t: "?P t" for t bs root
  proof (rule rwp_bind, cases "after pre s0 rb ?new t")
    case True
    then have "root = exp_root ex"
      using bs root new_root by (simp add: after_def)
    show "rwp srv ?G (\<lambda>r. rwp srv ?G (\<lambda>r s. R r) (case r of
        Inr manifest \<Rightarrow> Done (Inr (Some manifest)) | Inl e \<Rightarrow> on_error e)) (merge_loaded_root x cl pre root) t"
      unfolding \<open>root = exp_root ex\<close>
      by (rule rwp_mono [OF rwp_new_root [OF contract pub True]]) (use retry R(1) in \<open>auto split: sum.splits\<close>)
  next
    case False
    then have b: "before pre s0 t" "\<not> newest"
      using t by simp_all
    then have bs0: "s0 (root_key pre) = Some bs"
      using before_keeps(1) [OF b(1)] bs by simp
    then obtain m0 where m0: "old = Some m0"
      using old by (auto simp: stored_def split: option.splits)
    show "rwp srv ?G (\<lambda>r. rwp srv ?G (\<lambda>r s. R r) (case r of
        Inr manifest \<Rightarrow> Done (Inr (Some manifest)) | Inl e \<Rightarrow> on_error e)) (merge_loaded_root x cl pre root) t"
      by (rule rwp_mono [OF rwp_old_root [OF contract pub [unfolded m0] bs0 root]])
        (use retry R(2) b m0 in \<open>auto split: sum.splits\<close>)
  qed
  show ?thesis
    unfolding load_attempt_def
  proof (rule rwp_client_get [OF contract])
    fix t r
    assume t: "?G\<^sup>*\<^sup>* s t" and ans: "get_answer cl (root_key pre) t r"
      and missing: "reads_reliable srv \<Longrightarrow> \<not> isl (parse_key cl (root_key pre)) \<Longrightarrow> \<forall>e. r = Inl e \<longrightarrow> (\<exists>y. e = NotFound y)"
    show "rwp srv ?G (\<lambda>r s. R r) (case r of
        Inl (NotFound _) \<Rightarrow> Done (Inr None)
      | Inl e \<Rightarrow> Done (Inl (Storage_error e))
      | Inr bs \<Rightarrow> (case manifest_from_json_bytes x bs of
            Inl e \<Rightarrow> Done (Inl e)
          | Inr root \<Rightarrow> prog_bind (merge_loaded_root x cl pre root) (\<lambda>r. case r of
              Inr manifest \<Rightarrow> Done (Inr (Some manifest)) | Inl e \<Rightarrow> on_error e))) t"
    proof (cases r)
      case (Inr bs)
      have bs: "t (root_key pre) = Some bs"
        using ans holds_at_root [OF path pre] by (simp add: get_answer_def Inr)
      moreover obtain root where "manifest_from_slice x bs = Inr root"
        using phase [OF t] bs new_root old before_keeps(1) [of pre s0 t]
        by (auto simp: after_def stored_def stored_root_def split: option.splits)
      ultimately show ?thesis
        using merged phase [OF t] by (simp add: Inr manifest_from_json_bytes_def)
    next
      case (Inl e)
      have gone: "R (Inr None)" if "e = NotFound y" for y
      proof -
        have none: "t (root_key pre) = None"
          using ans that root_key_parse [OF path pre] by (auto simp: get_answer_def Inl)
        then have b: "before pre s0 t" "\<not> newest"
          using phase [OF t] by (auto simp: after_def)
        then have "old = None"
          using none before_keeps(1) [OF b(1)] old by (auto simp: stored_def stored_root_def split: option.splits)
        then show ?thesis
          using R(2) b(2) by simp
      qed
      moreover have "R (Inl e')" if "\<forall>y. e \<noteq> NotFound y" for e'
        using missing R(3) that Inl by (auto simp: readable_def)
      ultimately show ?thesis
        by (cases e) (auto simp: Inl)
    qed
  qed
qed

subsection \<open>Writer and reader together\<close>

inductive system_step :: "object_store \<Rightarrow> store \<times> 'a prog \<times> 'b prog \<Rightarrow> store \<times> 'a prog \<times> 'b prog \<Rightarrow> bool" for srv where
  writer: "prog_step srv (s, w) (s', w') \<Longrightarrow> system_step srv (s, w, r) (s', w', r)"
| reader: "prog_step srv (s, r) (s', r') \<Longrightarrow> system_step srv (s, w, r) (s', w, r')"

inductive_cases system_step_cases: "system_step srv (s, w, r) cfg"

lemma system_invariant:
  assumes "(system_step srv)\<^sup>*\<^sup>* (s, w, r) (s', w', r')" "wp srv G Qw w s" "rwp srv G Qr r s"
  shows "wp srv G Qw w' s' \<and> rwp srv G Qr r' s'"
  using assms(1)
proof (induction "(s', w', r')" arbitrary: s' w' r' rule: rtranclp_induct)
  case base
  then show ?case
    using assms(2,3) by simp
next
  case (step cfg)
  obtain t u v where cfg: "cfg = (t, u, v)"
    by (cases cfg)
  have inv: "wp srv G Qw u t" "rwp srv G Qr v t"
    using step.hyps(3) [OF cfg] by simp_all
  have "prog_step srv (t, u) (s', w') \<and> v = r' \<or> prog_step srv (t, v) (s', r') \<and> u = w'"
    using step.hyps(2) unfolding cfg by (auto elim: system_step_cases)
  then show ?case
  proof
    assume "prog_step srv (t, u) (s', w') \<and> v = r'"
    then show ?thesis
      using wp_step [OF _ inv(1)] rwp_stable [OF inv(2)] inv(2) by (metis r_into_rtranclp)
  next
    assume "prog_step srv (t, v) (s', r') \<and> u = w'"
    then show ?thesis
      using rwp_step [OF _ inv(2)] inv(1) by metis
  qed
qed

lemma reader_finishes:
  assumes "answers srv"
  shows "\<exists>s' res. (system_step srv)\<^sup>*\<^sup>* (s, w, r) (s', w, Done res)"
proof -
  have "(system_step srv)\<^sup>*\<^sup>* (s, w, r) (s', w, r')" if "(prog_step srv)\<^sup>*\<^sup>* (s, r) (s', r')" for s' r'
    using that
  proof (induction "(s', r')" arbitrary: s' r' rule: rtranclp_induct)
    case (step cfg)
    obtain t v where cfg: "cfg = (t, v)"
      by (cases cfg)
    show ?case
      using step.hyps(3) [OF cfg] step.hyps(2) system_step.reader [of srv t v s' r' w] unfolding cfg
      by (meson rtranclp.rtrancl_into_rtrancl)
  qed simp
  then show ?thesis
    using prog_finishes [OF assms, of s r] by blast
qed

lemma rwp_load:
  assumes contract: "store_contract srv" and pub: "publication x cl pre s0 old m ex rb"
    and s: "before pre s0 s \<and> \<not> newest \<or> after pre s0 rb (export_bytes x ex) s"
    and R: "R (Inr (Some (reordered (hex_decode x) (exp_root ex) m)))" "\<not> newest \<Longrightarrow> R (Inr old)"
      "\<And>e. \<not> readable srv x cl pre s0 ex \<Longrightarrow> R (Inl e)"
  shows "rwp srv (moves pre s0 rb (export_bytes x ex)) (\<lambda>r s. R r) (try_load_manifest_with_client x cl (root_key pre)) s"
proof -
  have pre: "clean_prefix pre"
    using pub by (simp add: publication_def)
  let ?G = "moves pre s0 rb (export_bytes x ex)" and ?A = "after pre s0 rb (export_bytes x ex)"
  have last_error: "rwp srv ?G (\<lambda>r s. R r) (Done (Inl (Load_failed e first))) t" if "\<not> readable srv x cl pre s0 ex" for e first t
    using R(3) that by simp
  have second: "rwp srv ?G (\<lambda>r s. R r) (load_attempt x cl (root_key pre) pre (\<lambda>e. Done (Inl (Load_failed e first)))) t"
    if t: "before pre s0 t \<and> \<not> newest \<or> ?A t" and why: "\<not> newest \<and> ?A t \<or> \<not> readable srv x cl pre s0 ex" for first t
  proof (cases "?A t")
    case True
    show ?thesis
    proof (rule rwp_attempt [OF contract pub, where newest = True])
      show "before pre s0 t \<and> \<not> True \<or> ?A t"
        using True by simp
    qed (use R last_error in auto)
  next
    case False
    then have "\<not> readable srv x cl pre s0 ex"
      using why by blast
    then show ?thesis
      using R last_error by (intro rwp_attempt [OF contract pub t]) auto
  qed
  show ?thesis
    unfolding try_load_manifest_with_client_def root_key_prefix [OF pre] sum.case
    by (rule rwp_attempt [OF contract pub s second R])
qed

text \<open>A writer and a reader that are about to start on the store \<open>s0\<close>.\<close>

definition side_by_side :: "json_ext \<Rightarrow> client \<Rightarrow> (nat \<Rightarrow> string) \<Rightarrow> string \<Rightarrow> Manifest \<Rightarrow> store
    \<Rightarrow> store \<times> (io_error + unit) prog \<times> (io_error + Manifest option) prog" where
  "side_by_side x cl uuid pre m s0 =
     (s0, write_manifest_with_client x cl uuid (root_key pre) m, try_load_manifest_with_client x cl (root_key pre))"

text \<open>
  C40.  Publication is atomic for readers.  A reader that runs beside a writer in any interleaving of their
  storage requests, with requests failing or taking effect although they report a failure, and with the
  writer stopped anywhere, returns the old manifest or the new one (with its segments in folder order); it
  returns an error only if a download failed or a key was refused.  Once the writer has reported success every
  reader that starts returns the new manifest.  Readers always return when the store answers.
\<close>

theorem manifest_publication_atomic:
  assumes "store_contract srv" and "publication x cl pre s0 old m ex rb"
  shows "(\<forall>s w res. (system_step srv)\<^sup>*\<^sup>* (side_by_side x cl uuid pre m s0) (s, w, Done res) \<longrightarrow>
        res = Inr old \<or> res = Inr (Some (reordered (hex_decode x) (exp_root ex) m)) \<or> isl res \<and> \<not> readable srv x cl pre s0 ex)
    \<and> (\<forall>s s' w res. (system_step srv)\<^sup>*\<^sup>* (side_by_side x cl uuid pre m s0) (s, Done (Inr ()), try_load_manifest_with_client x cl (root_key pre)) \<longrightarrow>
        (system_step srv)\<^sup>*\<^sup>* (s, Done (Inr ()), try_load_manifest_with_client x cl (root_key pre)) (s', w, Done res) \<longrightarrow>
        res = Inr (Some (reordered (hex_decode x) (exp_root ex) m)) \<or> isl res \<and> \<not> readable srv x cl pre s0 ex)
    \<and> (answers srv \<longrightarrow> (\<forall>s w r. (system_step srv)\<^sup>*\<^sup>* (side_by_side x cl uuid pre m s0) (s, w, r) \<longrightarrow>
        (\<exists>s' res. (system_step srv)\<^sup>*\<^sup>* (s, w, r) (s', w, Done res))))"
proof -
  let ?writing = "write_manifest_with_client x cl uuid (root_key pre) m" and ?loading = "try_load_manifest_with_client x cl (root_key pre)"
  let ?new_manifest = "reordered (hex_decode x) (exp_root ex) m"
  let ?new = "export_bytes x ex"
  let ?G = "moves pre s0 rb ?new" and ?A = "after pre s0 rb ?new"
  let ?Qw = "\<lambda>(r :: io_error + unit) s. (before pre s0 s \<or> ?A s) \<and> (r = Inr () \<longrightarrow> ?A s)"
  have w: "wp srv ?G ?Qw ?writing s0"
    by (rule wp_write_manifest [OF assms(1), where old = old]) (use assms(2) in \<open>simp_all add: publication_def\<close>)
  have start: "before pre s0 s0"
    by (simp add: before_def)
  let ?R = "\<lambda>res. res = Inr old \<or> res = Inr (Some ?new_manifest) \<or> isl res \<and> \<not> readable srv x cl pre s0 ex"
  have any: "rwp srv ?G (\<lambda>r s. ?R r) ?loading s0"
    by (rule rwp_load [OF assms(1,2), where newest = False]) (simp_all add: start)
  let ?R2 = "\<lambda>res. res = Inr (Some ?new_manifest) \<or> isl res \<and> \<not> readable srv x cl pre s0 ex"
  have latest: "rwp srv ?G (\<lambda>r s. ?R2 r) ?loading s" if "?A s" for s
    by (rule rwp_load [OF assms(1,2), where newest = True]) (simp_all add: that)
  have one: "?R res" if run: "(system_step srv)\<^sup>*\<^sup>* (s0, ?writing, ?loading) (s, w', Done res)" for s w' res
    using system_invariant [OF run w any] by auto
  have two: "?R2 res" if run1: "(system_step srv)\<^sup>*\<^sup>* (s0, ?writing, ?loading) (s, Done (Inr ()), ?loading)"
    and run2: "(system_step srv)\<^sup>*\<^sup>* (s, Done (Inr ()), ?loading) (s', w', Done res)" for s s' w' res
  proof -
    have "?Qw (Inr ()) s"
      using system_invariant [OF run1 w any] by simp
    then have "wp srv ?G ?Qw (Done (Inr ())) s" "?A s"
      by simp_all
    then show ?thesis
      using system_invariant [OF run2 _ latest] by auto
  qed
  show ?thesis
    unfolding side_by_side_def using one two reader_finishes by (intro conjI allI impI) blast+
qed

subsection \<open>A concrete store\<close>

text \<open>An in-memory store that answers every request, and a JSON printer and parser for one export.\<close>

definition memory_store :: object_store where
  "memory_store = \<lparr>
     os_put = (\<lambda>k b m s r s'. if m = CreateIfAbsent \<and> s k \<noteq> None then r = Inl (Os (Os_AlreadyExists [])) \<and> s' = s
       else r = Inr None \<and> s' = s(k \<mapsto> b)),
     os_get = (\<lambda>k s r. r = (case s k of None \<Rightarrow> Inl (Os (Os_NotFound [])) | Some b \<Rightarrow> Inr b)),
     os_head = (\<lambda>k s r. r = (case s k of None \<Rightarrow> Inl (Os (Os_NotFound [])) | Some b \<Rightarrow> Inr (None, length b))),
     os_delete = (\<lambda>k s r s'. r = Inr () \<and> s' = s(k := None)),
     os_copy = (\<lambda>k l s r s'. case s k of None \<Rightarrow> r = Inl (Os (Os_NotFound [])) \<and> s' = s
       | Some b \<Rightarrow> if s l \<noteq> None then r = Inl (Os (Os_AlreadyExists [])) \<and> s' = s else r = Inr () \<and> s' = s(l \<mapsto> b)),
     os_list = (\<lambda>p s r. r = Inr [])\<rparr>"

definition sample_client :: client where
  "sample_client = \<lparr>cl_path_parse = Inr, cl_timeout_ms = None\<rparr>"

definition sample_export :: ShardedManifestExport where
  "sample_export = projr (split_manifest_for_export (\<lambda>s. Inr []) (\<lambda>sh. Inr (utf8 (sh_folder sh))) (\<lambda>bs. bs) shard_manifest)"

definition sample_json :: json_ext where
  "sample_json = \<lparr>shard_to_vec = (\<lambda>sh. Inr (utf8 (sh_folder sh))),
     shard_from_slice = (\<lambda>b. case find (\<lambda>sh. utf8 (sh_folder sh) = b) (map snd (exp_shards sample_export)) of
       None \<Rightarrow> Inl ''unknown shard'' | Some sh \<Rightarrow> Inr sh),
     manifest_to_vec = (\<lambda>m. Inr [1]), manifest_from_slice = (\<lambda>b. Inr (exp_root sample_export)),
     hex_decode = (\<lambda>s. Inr []), sha256 = (\<lambda>bs. bs)\<rparr>"

lemma memory_store_contract: "store_contract memory_store"
  by (auto simp: store_contract_def memory_store_def split: if_splits option.splits)

lemma memory_store_answers: "answers memory_store"
proof -
  have "\<exists>r s'. os_put memory_store k b m s r s'" for k b m s
    by (cases "m = CreateIfAbsent \<and> s k \<noteq> None") (auto simp: memory_store_def)
  moreover have "\<exists>r s'. os_copy memory_store k l s r s'" for k l s
    by (cases "s k"; cases "s l") (auto simp: memory_store_def)
  ultimately show ?thesis
    unfolding answers_def by (simp add: memory_store_def)
qed

lemma memory_store_reliable: "reads_reliable memory_store"
  by (auto simp: reads_reliable_def memory_store_def split: option.splits)

lemma shard_manifest_valid: "\<forall>s\<in>set (m_segments shard_manifest). segment_valid (\<lambda>s. Inr []) s"
  by (simp add: shard_manifest_segments segment_valid_def shard_segment_folder)

lemma sample_split:
  "split_manifest_for_export (\<lambda>s. Inr []) (\<lambda>sh. Inr (utf8 (sh_folder sh))) (\<lambda>bs. bs) shard_manifest = Inr sample_export"
proof -
  have "\<exists>ex. split_manifest_for_export (\<lambda>s. Inr []) (\<lambda>sh. Inr (utf8 (sh_folder sh))) (\<lambda>bs. bs) shard_manifest = Inr ex"
    by (rule split_total [OF shard_manifest_valid]) (simp_all add: shard_manifest_segments u32_max_def)
  then show ?thesis
    unfolding sample_export_def by (metis sum.sel(2))
qed

text \<open>The folders of an export are distinct and are folders of its segments.\<close>

lemma export_folders:
  assumes "split_manifest_for_export hex to_vec sha m = Inr ex"
  shows "distinct (map sh_folder (map snd (exp_shards ex)))"
    and "r \<in> set (m_shards (exp_root ex)) \<Longrightarrow> \<exists>sh n bs. to_vec sh = Inr bs \<and> sh_folder sh \<in> folder_key hex ` set (m_segments m)
      \<and> parse_folder_name (sh_folder sh) = Some n \<and> ref_path r = relative_manifest_shard_content_path n (content_checksum_sha256_hex sha bs)"
proof -
  obtain g exported where g: "group_by_folder (validated_segment_folder hex) (m_segments m) [] = Inr g"
    and e: "res_list (export_shard to_vec sha m) g = Inr exported"
    and ex: "ex = \<lparr>exp_root = export_root m exported, exp_shards = map (snd \<circ> snd) exported\<rparr>"
    by (rule split_cases [OF assms])
  have keys: "sorted_wrt (<) (map fst g)" "fst ` set g = folder_key hex ` set (m_segments m)"
    using group_result(2) [OF g] by (simp_all add: grouped_def)
  have len: "length exported = length g"
    by (rule res_list_length [OF e])
  have at: "sh_folder (snd (snd (snd (exported ! i)))) = fst (g ! i)" if "i < length g" for i
    using res_list_nth [OF e that] by (cases "g ! i"; cases "exported ! i") (simp add: export_shard_Inr)
  then have "map (sh_folder \<circ> snd \<circ> snd \<circ> snd) exported = map fst g"
    using len by (simp add: list_eq_iff_nth_eq)
  then show "distinct (map sh_folder (map snd (exp_shards ex)))"
    using keys(1) by (simp add: ex comp_assoc strict_sorted_iff)
  show "\<exists>sh n bs. to_vec sh = Inr bs \<and> sh_folder sh \<in> folder_key hex ` set (m_segments m)
      \<and> parse_folder_name (sh_folder sh) = Some n \<and> ref_path r = relative_manifest_shard_content_path n (content_checksum_sha256_hex sha bs)"
    if r: "r \<in> set (m_shards (exp_root ex))"
  proof -
    obtain i where i: "i < length g" "r = fst (snd (exported ! i))"
      using r len by (auto simp: ex in_set_conv_nth)
    obtain f segs where gi: "g ! i = (f, segs)"
      by (cases "g ! i")
    obtain n p sh where ei: "exported ! i = (n, r, p, sh)"
      using i(2) by (cases "exported ! i") simp
    have "f \<in> folder_key hex ` set (m_segments m)"
      using keys(2) i(1) gi by (metis fst_conv image_eqI nth_mem)
    moreover have "export_shard to_vec sha m (f, segs) = Inr (n, r, p, sh)"
      using res_list_nth [OF e i(1)] by (simp add: gi ei)
    then obtain bs where "to_vec sh = Inr bs" "sh_folder sh = f" "parse_folder_name f = Some n"
      "ref_path r = relative_manifest_shard_content_path n (content_checksum_sha256_hex sha bs)"
      unfolding export_shard_Inr by auto
    ultimately show ?thesis
      by (intro exI [of _ sh] exI [of _ n] exI [of _ bs]) simp
  qed
qed

lemma sample_parse_key:
  assumes "k \<noteq> []" "plain_char (hd k)" "plain_char (last k)" "hd k \<noteq> CHR ''/''" "CHR ''#'' \<notin> set k"
    and "\<not> list_ex (\<lambda>part. part = ''.'' \<or> part = ''..'') (split_on CHR ''/'' k)"
  shows "parse_key sample_client k = Inr k"
proof -
  have "trim k = k" "trim_start_matches CHR ''/'' k = k"
    using assms(1-4) by (auto simp: trim_ends trim_start_matches_def dropWhile_eq_self_iff)
  moreover have "CHR ''#'' \<notin> set (rsplit_name k)"
    using assms(5) set_takeWhileD unfolding rsplit_name_def by fastforce
  then have "dropWhile (\<lambda>c. c \<noteq> CHR ''#'') (rev (rsplit_name k)) = []"
    by (auto simp: dropWhile_eq_Nil_conv)
  then have "rsplit_once CHR ''#'' (rsplit_name k) = None"
    by (simp only: rsplit_once_def split_once_def list.case option.map)
  ultimately show ?thesis
    using assms(1,6) by (simp add: parse_key_def sample_client_def Let_def)
qed

lemma sample_paths:
  "relative_manifest_shard_content_path 1 (hex_encode (utf8 ''001'')) = ''001/manifest-shard-303031.json''"
  "relative_manifest_shard_content_path 2 (hex_encode (utf8 ''002'')) = ''002/manifest-shard-303032.json''"
  by code_simp+

lemma sample_parse:
  "parse_key sample_client (root_key ''t'') = Inr (root_key ''t'')"
  "parse_key sample_client (shard_key ''t'' ''001/manifest-shard-303031.json'') = Inr (shard_key ''t'' ''001/manifest-shard-303031.json'')"
  "parse_key sample_client (shard_key ''t'' ''002/manifest-shard-303032.json'') = Inr (shard_key ''t'' ''002/manifest-shard-303032.json'')"
  by (rule sample_parse_key; simp add: root_key_def shard_key_def plain_char_def)+

lemma sample_publication:
  "publication sample_json sample_client ''t'' Map.empty None shard_manifest sample_export [1]"
proof -
  have "shard_from_slice sample_json (utf8 (sh_folder sh)) = Inr sh" if "(p, sh) \<in> set (exp_shards sample_export)" for p sh
  proof -
    let ?shards = "map snd (exp_shards sample_export)"
    have "inj_on (utf8 :: string \<Rightarrow> bytes) A" for A
      by (rule inj_onI) simp
    then have "distinct (map (\<lambda>sh. utf8 (sh_folder sh)) ?shards)"
      using export_folders(1) [OF sample_split] distinct_map [of utf8 "map sh_folder ?shards"] by (simp add: comp_def)
    moreover have "sh \<in> set ?shards"
      using that by force
    ultimately have "find (\<lambda>z. utf8 (sh_folder z) = utf8 (sh_folder sh)) ?shards = Some sh"
      by (rule find_unique)
    then show ?thesis
      by (simp add: sample_json_def)
  qed
  then have "\<forall>(p, sh)\<in>set (exp_shards sample_export). \<forall>bs. shard_to_vec sample_json sh = Inr bs \<longrightarrow> shard_from_slice sample_json bs = Inr sh"
    by (auto simp: sample_json_def)
  moreover have "path_faithful sample_client" "clean_prefix ''t''"
    by (simp_all add: path_faithful_def sample_client_def clean_prefix_def plain_char_def)
  ultimately show ?thesis
    by (simp add: publication_def sample_split stored_def no_collision_def shard_manifest_segments u64_max_def)
      (simp add: sample_json_def sample_split)
qed

lemma sample_readable: "readable memory_store sample_json sample_client ''t'' Map.empty sample_export"
proof -
  have "\<not> isl (parse_key sample_client (shard_key ''t'' (ref_path r)))" if named: "r \<in> set (m_shards (exp_root sample_export))" for r
  proof -
    obtain f n where f: "f \<in> folder_key (\<lambda>s. Inr []) ` set (m_segments shard_manifest)" "parse_folder_name f = Some n"
      and path: "ref_path r = relative_manifest_shard_content_path n (content_checksum_sha256_hex (\<lambda>bs. bs) (utf8 f))"
      using export_folders(2) [OF sample_split named] by auto
    have "n = digits_value f"
      using f(2) digits_value_pad_nat by (auto simp: parse_folder_name_iff)
    moreover have "f = ''002'' \<or> f = ''001''"
      using f(1) by (auto simp: shard_manifest_segments folder_key_def shard_segment_folder)
    moreover have "digits_value ''001'' = 1" "digits_value ''002'' = 2"
      by (simp_all add: digits_value_def)
    ultimately have "ref_path r = ''001/manifest-shard-303031.json'' \<or> ref_path r = ''002/manifest-shard-303032.json''"
      using path sample_paths unfolding content_checksum_sha256_hex_def by metis
    then show ?thesis
      using sample_parse(2,3) by auto
  qed
  then show ?thesis
    using memory_store_reliable sample_parse(1) by (simp add: readable_def)
qed

theorem manifest_publication_atomic_witness:
  "\<exists>s w res. (system_step memory_store)\<^sup>*\<^sup>*
       (side_by_side sample_json sample_client (\<lambda>i. ''u'') ''t'' shard_manifest Map.empty) (s, w, Done res)
     \<and> (res = Inr None \<or> res = Inr (Some (reordered (\<lambda>s. Inr []) (exp_root sample_export) shard_manifest)))"
proof -
  note atomic = manifest_publication_atomic [OF memory_store_contract sample_publication, of "\<lambda>i. ''u''"]
  let ?start = "side_by_side sample_json sample_client (\<lambda>i. ''u'') ''t'' shard_manifest Map.empty"
  obtain s w res where run: "(system_step memory_store)\<^sup>*\<^sup>* ?start (s, w, Done res)"
    using atomic memory_store_answers unfolding side_by_side_def by blast
  have "hex_decode sample_json = (\<lambda>s. Inr [])"
    by (simp add: sample_json_def)
  then show ?thesis
    using atomic run sample_readable by metis
qed

end
