(* ===== verification/Spec2Isabelle.thy ===== *)
theory Spec2Isabelle
  imports Prelude Sort_Key_Types Numeric_Key Json Sort_Key_Encode Key_Bounds Value_Summary
    Term_Text Query_Text Term_Filter Domain Resolver Change_Feed Snowflake Pg_Output
    Compaction Scan_Plan Supervisor Txn_Nesting
    Object_Keys Manifest Manifest_Shards Object_Store Manifest_Publish
begin

text \<open>
  KoldStore: hot/cold tiered storage for PostgreSQL.

  \<^bold>\<open>The program.\<close>  A managed table keeps recent rows in its heap (hot) and older rows in immutable Parquet
  segments on an object store (cold); a mirror table, fed from the replication stream, holds the latest state and
  the tombstones.  A flush writes segments with their key bounds, summaries and term filters; compaction rewrites
  segments that overlap; the manifest publishes the segment list; a merge scan prunes segments, reads the rest
  newest first and lets, for every primary key, the newest version win.  A supervisor process starts workers per
  database.  Paths below are relative to \<open>src/crates/\<close>.

  \<^bold>\<open>Conventions.\<close>  \<open>Prelude\<close>: a byte string is a list of 8-bit words, a \<open>&str\<close> the list of its UTF-8 bytes,
  a \<open>Result\<close> a sum with the error left, a signed integer an \<open>int\<close> with the range and the saturation written out,
  a \<open>u64\<close> that is shifted or masked a 64-bit word.  A crate that is not in the sources is an argument (a function or a
  record such as \<open>sort_ext\<close>, \<open>term_ext\<close>, \<open>num_ext\<close>, \<open>json_ext\<close>, \<open>object_store\<close>), what is relied on is a named
  predicate, and a sample instance satisfies it.  \<open>Json\<close> is \<open>serde_json::Value\<close>.

  \<^bold>\<open>Keys\<close> (\<open>koldstore-sortkey\<close>, \<open>koldstore-parquet/src/key_bounds.rs\<close>).
  \<open>Sort_Key_Types\<close>, \<open>Sort_Key_Encode\<close> and \<open>Numeric_Key\<close> model \<open>types.rs\<close> and \<open>encode.rs\<close>: numeric keys
  are ordered as numbers (C1), JSON values survive encoding and decoding at every type but \<open>numeric\<close>, whose keys are
  one-way (C2), epoch shifts are exact with the infinities fixed (C3).  \<open>Key_Bounds\<close> models framing, the builder and the rebuild from a file: bounds are the exact
  extrema of the tuples (C4) and separate segments (C5); the locale \<open>order_codec\<close> is the contract of an
  order-preserving encoder.

  \<^bold>\<open>Pruning summaries.\<close>  \<open>Value_Summary\<close> (\<open>summary.rs\<close>, \<open>value_summary.rs\<close>): no false negatives (C6), a rebuilt
  summary covers its segment (C7).  \<open>Term_Text\<close> and \<open>Term_Filter\<close> (\<open>term_filter.rs\<close>): array and tsvector texts
  parse back (C8, C9), and a segment with a matching row is never skipped (C10 to C12).  For C10 \<open>Query_Text\<close>
  gives the queries, the texts that spell them and the lexemes a match needs, apart from the parser.  The locale
  \<open>membership_filter\<close> is the shared contract.  The parser of tsquery texts recurses on fuel
  \<open>4 * length + 4\<close>: each call consumes a character or descends one of at most four grammar levels.

  \<^bold>\<open>Rows and scans.\<close>  \<open>Domain\<close> (\<open>koldstore-common/src/domain\<close>): primary-key shapes and identities (C13 to C15).
  Numbers in keys are one identity through integers below \<open>9e15\<close> only (C15).
  \<open>Resolver\<close> (\<open>koldstore-merge/src/core/resolver.rs\<close>): the resolved rows are the visible newest versions, stated on
  sequence ids and sources alone (C16), the
  owned and borrowed routines agree (C17), and the incremental resolver returns what batch resolution returns
  (C18, C19) within its caps (C20); locale \<open>contest\<close>.  \<open>Change_Feed\<close>: pages of the feed (C21).  \<open>Scan_Plan\<close>
  (\<open>scan/\<close>, \<open>planning/\<close>): grouping of segments (C31, locale \<open>range_sweep\<close>) and the ordered frontier (C32), with
  pruning, strategies and the path portfolio.  This theory composes them: a scan over grouped segments (C33) and over
  disjoint segments (C34).

  \<^bold>\<open>Ids, replication, compaction.\<close>  \<open>Snowflake\<close> (\<open>snowflake.rs\<close>): ids are unique and increasing under every
  interleaving of the compare-and-swap loop (C22), above a floor (C23), and cutoffs are exact (C24).  \<open>Pg_Output\<close>
  (\<open>pgoutput.rs\<close>): the decoder accepts exactly the protocol grammar (C25) and detects wrong framing, except for the
  messages it skips by their tag (C26).  \<open>Compaction\<close>
  (\<open>koldstore-flush/src/compaction.rs\<close>): planning returns (C27), components are the classes of the overlap relation
  (C28), the disjointness test (C29) and the plan (C30) are right.

  \<^bold>\<open>Workers.\<close>  \<open>Supervisor\<close> (\<open>koldstore-supervisor/src/supervisor.rs\<close>): the open-addressed registry refines a map
  (C35); flush slots (C36, any number of reservers, changing limits, wrapping counters) and the wake protocol (C37)
  are step relations over single atomic accesses, sequentially consistent.  \<open>Txn_Nesting\<close> (\<open>wake.rs\<close>, \<open>fence_pending.rs\<close>, \<open>ensure_pause.rs\<close>): bookkeeping over nested
  savepoints is exact (C38, locale \<open>nested_bookkeeping\<close>).

  \<^bold>\<open>Manifest\<close> (\<open>koldstore-manifest\<close>, \<open>koldstore-storage\<close>).  \<open>Object_Keys\<close> models key joining and path layout,
  \<open>Manifest\<close> the documents, appending and assembly, \<open>Manifest_Shards\<close> validation, split and merge (C39).
  \<open>Object_Store\<close> models the client and the publication helpers as finite trees of requests, with a weakest
  precondition for a writer's steps and one for a reader under interference; \<open>Manifest_Publish\<close> models \<open>io.rs\<close> and
  shows that publication is atomic for readers (C40), given what the store promises (\<open>store_contract\<close>), that JSON
  parses what it prints, and that no stored object shares its digest with a different new shard.

  \<^bold>\<open>Not modelled.\<close>  \<open>pg_koldstore\<close> (about half of the sources) calls PostgreSQL through \<open>pgrx\<close>: executor and
  planner hooks, SPI, configuration variables, background workers, and the in-database tests; its behaviour is that
  of the server's C interfaces.  Catalog, setup, migration and schema crates mostly assemble SQL text that the server
  gives meaning to.  The Parquet writer and readers, the footer cache and the vector sketch are driven by the
  \<open>arrow\<close> and \<open>parquet\<close> crates or by floating-point arithmetic.  Storage backends, fault injection and the
  runtime wrap external clients and threads.  Flush execution, job tables and counters are transactions in the
  server; the mirror's row application and the remaining \<open>koldstore-common\<close> helpers (options, SQL text) are smaller
  parts that are left out.  Memory orderings weaker than sequential consistency are not modelled.
\<close>

section \<open>Properties across components\<close>

subsection \<open>Scans over grouped segments\<close>

definition read_batch :: "(SegmentStatsHint \<Rightarrow> ColdRow list) \<Rightarrow> SegmentStatsHint list \<Rightarrow> ColdRow list" where
  "read_batch rows g = concat (map rows g)"

lemma batches_newest_first:
  assumes "sorted_wrt (\<lambda>g h. \<forall>s\<in>set g. \<forall>t\<in>set h. ssh_max_seq t < ssh_min_seq s) groups"
    and "\<forall>g\<in>set groups. \<forall>s\<in>set g. \<forall>r\<in>set (rows s). ssh_min_seq s \<le> cold_seq r \<and> cold_seq r \<le> ssh_max_seq s"
  shows "sorted_wrt (\<lambda>b b'. newest_first (cold_versions b) (cold_versions b')) (map (read_batch rows) groups)"
  unfolding sorted_wrt_map
proof (rule sorted_wrt_mono_rel [OF _ assms(1)])
  fix g h
  assume gh: "g \<in> set groups" "h \<in> set groups" "\<forall>s\<in>set g. \<forall>t\<in>set h. ssh_max_seq t < ssh_min_seq s"
  have "cold_seq q \<le> cold_seq r" if rq: "r \<in> set (read_batch rows g)" "q \<in> set (read_batch rows h)" for r q
  proof -
    obtain s t where "s \<in> set g" "r \<in> set (rows s)" "t \<in> set h" "q \<in> set (rows t)"
      using rq by (auto simp: read_batch_def)
    then have "cold_seq q \<le> ssh_max_seq t" "ssh_max_seq t < ssh_min_seq s" "ssh_min_seq s \<le> cold_seq r"
      using assms(2) gh by blast+
    then show ?thesis
      by simp
  qed
  then show "newest_first (cold_versions (read_batch rows g)) (cold_versions (read_batch rows h))"
    by (auto simp: newest_first_def cold_versions_def cold_parts_def)
qed

text \<open>
  C33.  A scan over the catalog: group the segments newest first, read each batch, and resolve the hot rows, the
  tombstones and then one batch at a time.  When every segment's rows lie in its sequence range, every segment
  is read once and the scan returns the rows that resolving everything at once would return.
\<close>

theorem merge_scan_over_groups:
  assumes "group_segments_newest_first segments = Inr groups"
    and "\<forall>s\<in>set segments. \<forall>r\<in>set (rows s). ssh_min_seq s \<le> cold_seq r \<and> cold_seq r \<le> ssh_max_seq s"
    and "scan_input cols hot tombs (map (read_batch rows) groups)"
  shows "\<exists>r out. progressive_scan hot tombs (map (read_batch rows) groups) (resolver_new []) = (r, Inr out)
    \<and> set out = set (resolve_rows hot (unmasked tombs (concat (map (read_batch rows) groups))))
    \<and> mset (concat (map (read_batch rows) groups)) = mset (concat (map rows segments))"
proof -
  have find: "find (\<lambda>s. ssh_max_seq s < ssh_min_seq s) segments = None"
    using assms(1) by (auto simp: group_segments_newest_first_def ranged_result split: option.splits)
  then have groups: "mset (concat groups) = mset segments"
    "sorted_wrt (\<lambda>g h. \<forall>s\<in>set g. \<forall>t\<in>set h. ssh_max_seq t < ssh_min_seq s) groups"
    using newest_groups [of segments] assms(1) by (auto simp: group_segments_newest_first_def ranged_result)
  have "set (concat groups) = set segments"
    using groups(1) by (rule mset_eq_setD)
  then have "\<forall>g\<in>set groups. \<forall>s\<in>set g. s \<in> set segments"
    by auto
  then have "sorted_wrt (\<lambda>b b'. newest_first (cold_versions b) (cold_versions b')) (map (read_batch rows) groups)"
    using assms(2) by (intro batches_newest_first [OF groups(2)]) blast
  from progressive_scan_answers [OF assms(3) this] obtain r out where
    scan: "progressive_scan hot tombs (map (read_batch rows) groups) (resolver_new []) = (r, Inr out)"
    "set out = set (resolve_rows hot (unmasked tombs (concat (map (read_batch rows) groups))))"
    by blast
  have "concat (map (read_batch rows) groups) = concat (map rows (concat groups))"
    unfolding read_batch_def by (induction groups) simp_all
  moreover have "mset (concat (map rows (concat groups))) = mset (concat (map rows segments))"
    unfolding mset_concat by (metis groups(1) mset_map sum_mset_sum_list)
  ultimately show ?thesis
    using scan by (intro exI [of _ r] exI [of _ out]) (simp only: simp_thms)
qed

definition sample_rows :: "SegmentStatsHint \<Rightarrow> ColdRow list" where
  "sample_rows s = (if ssh_min_seq s = 1 then [sample_cold ''a'' 1] else [sample_cold ''b'' 3, sample_cold ''c'' 4])"

lemma sample_groups: "group_segments_newest_first [sample_segment ''x'' 1 2, sample_segment ''y'' 3 4]
    = Inr [[sample_segment ''y'' 3 4], [sample_segment ''x'' 1 2]]"
  by (simp add: group_segments_newest_first_def ranged_result with_range_def sample_segment_def)

theorem merge_scan_over_groups_witness:
  "\<exists>r out. progressive_scan sample_hot [sample_pk ''b''] [[sample_cold ''b'' 3, sample_cold ''c'' 4], [sample_cold ''a'' 1]] (resolver_new []) = (r, Inr out)
    \<and> set out = set (resolve_rows sample_hot (unmasked [sample_pk ''b''] [sample_cold ''b'' 3, sample_cold ''c'' 4, sample_cold ''a'' 1]))"
proof -
  have "map (read_batch sample_rows) [[sample_segment ''y'' 3 4], [sample_segment ''x'' 1 2]]
      = [[sample_cold ''b'' 3, sample_cold ''c'' 4], [sample_cold ''a'' 1]]"
    by (simp add: read_batch_def sample_rows_def sample_segment_def)
  then show ?thesis
    using merge_scan_over_groups [OF sample_groups, of sample_rows "[''id'']" sample_hot "[sample_pk ''b'']"]
    by (auto simp: sample_scan sample_rows_def sample_segment_def)
qed

subsection \<open>Scans over disjoint segments\<close>

text \<open>
  C34.  The disjointness test of the compaction planner justifies scanning without retaining cold identities:
  when it answers true for segments whose recorded ranges hold the encoded keys of their rows, the unretained
  scan over the segments returns the rows of batch resolution and keeps only hot and tombstone identities.
\<close>

theorem disjoint_segments_unretained_scan:
  assumes "lead_sorted segments" "\<forall>i<length segments. has_bounds segments i" "keys_disjoint segments max_pairs = Some True"
    and "\<forall>i<length segments. \<forall>row\<in>set (rows i). segment_holds (segments ! i) (encode_columns (cold_pk row)) (encode_tuple (cold_pk row))"
    and "scan_input cols hot tombs (map rows [0..<length segments])"
  shows "\<exists>r out. progressive_scan hot tombs (map rows [0..<length segments]) (without_cold_identity_retention (resolver_new [])) = (r, Inr out)
    \<and> set out = set (resolve_rows hot (unmasked tombs (concat (map rows [0..<length segments]))))
    \<and> seen_key_count r = card (pks_of (hot_versions hot) \<union> set tombs)"
proof (rule progressive_scan_unretained [OF assms(5)])
  have "pks_of (cold_versions (rows i)) \<inter> pks_of (cold_versions (rows j)) = {}"
    if ij: "i \<in> set [0..<length segments]" "j \<in> set [0..<length segments]" "i < j" for i j
  proof (rule ccontr)
    assume "pks_of (cold_versions (rows i)) \<inter> pks_of (cold_versions (rows j)) \<noteq> {}"
    then obtain a b where ab: "a \<in> set (rows i)" "b \<in> set (rows j)" "cold_pk a = cold_pk b"
      by (auto simp: pks_of_def cold_versions_def cold_parts_def)
    have "i < length segments" "j < length segments"
      using ij by auto
    then have "segment_holds (segments ! i) (encode_columns (cold_pk a)) (encode_tuple (cold_pk a))"
      "segment_holds (segments ! j) (encode_columns (cold_pk a)) (encode_tuple (cold_pk a))"
      using assms(4) ab by (blast, metis)
    then show False
      using keys_disjoint_no_common_key [OF assms(1-3), of i j] ij by auto
  qed
  then show "sorted_wrt (\<lambda>b b'. pks_of (cold_versions b) \<inter> pks_of (cold_versions b') = {}) (map rows [0..<length segments])"
    unfolding sorted_wrt_map by (intro sorted_wrt_mono_rel [OF _ sorted_wrt_upt]) auto
qed

theorem disjoint_segments_unretained_scan_witness:
  "\<exists>r out. progressive_scan sample_hot [] [[sample_cold ''a'' 1], [sample_cold ''c'' 2]]
      (without_cold_identity_retention (resolver_new [])) = (r, Inr out)
    \<and> set out = set (resolve_rows sample_hot (unmasked [] [sample_cold ''a'' 1, sample_cold ''c'' 2]))"
proof -
  let ?segs = "[seg_single 1 [97] [97], seg_single 1 [98] [99]]"
  let ?rows = "\<lambda>i::nat. if i = 0 then [sample_cold ''a'' 1] else [sample_cold ''c'' 2]"
  let ?key = "\<lambda>pk :: LogicalPk. if pk = sample_pk ''a'' then [97] else [99] :: bytes"
  have "lead_sorted ?segs" "\<forall>i<length ?segs. has_bounds ?segs i"
    by (auto simp: lead_sorted_def has_bounds_def seg_single_def less_Suc_eq)
  moreover have "keys_disjoint ?segs 4 = Some True"
    by (simp add: keys_disjoint_def retain_active_def seg_single_def may_share_keys_def intervals_meet_def)
  moreover have "\<forall>i<length ?segs. \<forall>row\<in>set (?rows i). segment_holds (?segs ! i) [?key (cold_pk row)] []"
    by (auto simp: less_Suc_eq segment_holds_def seg_single_def sample_cold_def sample_pk_def)
  moreover have "scan_input [''id''] sample_hot [] (map ?rows [0..<length ?segs])"
    by (auto simp: sample_scan)
  ultimately show ?thesis
    using disjoint_segments_unretained_scan [of ?segs 4 ?rows "\<lambda>pk. [?key pk]" "\<lambda>pk. []" "[''id'']" sample_hot "[]"] by auto
qed

end
